(* ===== verification/Xtp_Prelude.thy ===== *)
theory Xtp_Prelude
  imports Main "HOL-Library.Word" "HOL-Library.Sublist"
begin

text \<open>
  Shared vocabulary of the development: machine integer types, Rust results with an explicit
  panic value, slices and indexing, big-endian integers, UTF-8 strings as byte-valued
  characters, the ASCII string operations the sources call, and the generic list lemmas that
  the component theories reuse. The collection \<open>bound_simps\<close> holds the facts that
  discharge in-range side conditions of slices.
\<close>

named_theorems bound_simps
named_theorems res_elims

type_synonym byte = "8 word"
type_synonym u8 = "8 word"
type_synonym u16 = "16 word"
type_synonym u32 = "32 word"
type_synonym u64 = "64 word"
type_synonym bytes = "byte list"
type_synonym rstr = string

section \<open>Results with an explicit panic\<close>

text \<open>
  A Rust function that returns \<open>Result<T, E>\<close> and indexes slices is a value of
  \<open>'e fault + 'a\<close>: \<open>Inr\<close> is \<open>Ok\<close>, \<open>Inl (Fail e)\<close> is \<open>Err(e)\<close>, and
  \<open>Inl Panic\<close> is the panic that an out-of-range index or slice raises.
\<close>

datatype 'e fault = Panic | Fail 'e

type_synonym ('e, 'a) rres = "'e fault + 'a"

definition bindR :: "('e, 'a) rres \<Rightarrow> ('a \<Rightarrow> ('e, 'b) rres) \<Rightarrow> ('e, 'b) rres" where
  "bindR m f = (case m of Inl e \<Rightarrow> Inl e | Inr x \<Rightarrow> f x)"

lemma bindR_simps [simp]:
  "bindR (Inl e) f = Inl e"
  "bindR (Inr x) f = f x"
  by (simp_all add: bindR_def)

lemma bindR_cong [fundef_cong]:
  "m = m' \<Longrightarrow> (\<And>x. m' = Inr x \<Longrightarrow> f x = f' x) \<Longrightarrow> bindR m f = bindR m' f'"
  by (cases m') auto

lemma bindR_eq_Inr_iff [simp]: "bindR m f = Inr y \<longleftrightarrow> (\<exists>x. m = Inr x \<and> f x = Inr y)"
  by (cases m) auto

lemma bindR_eq_Inl_iff:
  "bindR m f = Inl e \<longleftrightarrow> m = Inl e \<or> (\<exists>x. m = Inr x \<and> f x = Inl e)"
  by (cases m) auto

lemma bindR_neq_Panic:
  "m \<noteq> Inl Panic \<Longrightarrow> (\<And>x. m = Inr x \<Longrightarrow> f x \<noteq> Inl Panic) \<Longrightarrow> bindR m f \<noteq> Inl Panic"
  by (cases m) auto

text \<open>\<open>Option::ok_or\<close>.\<close>

definition ok_or :: "'a option \<Rightarrow> 'e \<Rightarrow> ('e, 'a) rres" where
  "ok_or x e = (case x of None \<Rightarrow> Inl (Fail e) | Some v \<Rightarrow> Inr v)"

lemma ok_or_simps [simp]:
  "ok_or None e = Inl (Fail e)"
  "ok_or (Some v) e = Inr v"
  by (simp_all add: ok_or_def)

lemma ok_or_eq_Inr_iff [simp]: "ok_or x e = Inr v \<longleftrightarrow> x = Some v"
  by (cases x) auto

lemma ok_or_neq_Panic [simp]: "ok_or x e \<noteq> Inl Panic"
  by (cases x) auto

text \<open>\<open>Result::map_err\<close>; a panic is not an error value and passes through.\<close>

definition map_err :: "('e \<Rightarrow> 'd) \<Rightarrow> ('e, 'a) rres \<Rightarrow> ('d, 'a) rres" where
  "map_err g m = (case m of Inl Panic \<Rightarrow> Inl Panic | Inl (Fail e) \<Rightarrow> Inl (Fail (g e)) | Inr x \<Rightarrow> Inr x)"

lemma map_err_simps [simp]:
  "map_err g (Inl Panic) = Inl Panic"
  "map_err g (Inl (Fail e)) = Inl (Fail (g e))"
  "map_err g (Inr x) = Inr x"
  by (simp_all add: map_err_def)

lemma map_err_eq_Panic_iff [simp]: "map_err g m = Inl Panic \<longleftrightarrow> m = Inl Panic"
  by (auto simp: map_err_def split: sum.splits fault.splits)

lemma map_err_eq_Inr_iff [simp]: "map_err g m = Inr x \<longleftrightarrow> m = Inr x"
  by (auto simp: map_err_def split: sum.splits fault.splits)

text \<open>
  The judgement of the panic-freedom proofs: the computation does not panic, and a value it
  returns satisfies the postcondition.
\<close>

definition safe :: "('a \<Rightarrow> bool) \<Rightarrow> ('e, 'a) rres \<Rightarrow> bool" where
  "safe P m \<longleftrightarrow> m \<noteq> Inl Panic \<and> (\<forall>x. m = Inr x \<longrightarrow> P x)"

lemma safe_simps [simp]:
  "safe P (Inr x) \<longleftrightarrow> P x"
  "safe P (Inl (Fail e))"
  "\<not> safe P (Inl Panic)"
  by (simp_all add: safe_def)

lemma safe_bindR:
  "safe Q m \<Longrightarrow> (\<And>x. m = Inr x \<Longrightarrow> Q x \<Longrightarrow> safe P (f x)) \<Longrightarrow> safe P (bindR m f)"
  by (cases m) (auto simp: safe_def)

lemma safe_bindR_any:
  "safe (\<lambda>_. True) m \<Longrightarrow> (\<And>x. m = Inr x \<Longrightarrow> safe P (f x)) \<Longrightarrow> safe P (bindR m f)"
  by (rule safe_bindR)

lemma safe_ok_or [simp]: "safe P (ok_or x e) \<longleftrightarrow> (\<forall>v. x = Some v \<longrightarrow> P v)"
  by (cases x) auto

lemma safe_map_err [simp]: "safe P (map_err g m) \<longleftrightarrow> safe P m"
  by (auto simp: safe_def)

lemma safe_no_panic: "safe P m \<Longrightarrow> m \<noteq> Inl Panic"
  by (simp add: safe_def)

lemma safe_result: "safe P m \<Longrightarrow> m = Inr x \<Longrightarrow> P x"
  by (simp add: safe_def)

section \<open>Indexing and slices\<close>

text \<open>
  \<open>xs[i]\<close> and \<open>&xs[i..j]\<close> panic out of range; \<open>xs.get(i)\<close> and
  \<open>xs.get(i..j)\<close> return \<open>None\<close>.
\<close>

definition sub_list :: "nat \<Rightarrow> nat \<Rightarrow> 'a list \<Rightarrow> 'a list" where
  "sub_list i j xs = take (j - i) (drop i xs)"

definition idx :: "'a list \<Rightarrow> nat \<Rightarrow> ('e, 'a) rres" where
  "idx xs i = (if i < length xs then Inr (xs ! i) else Inl Panic)"

definition rng :: "'a list \<Rightarrow> nat \<Rightarrow> nat \<Rightarrow> ('e, 'a list) rres" where
  "rng xs i j = (if i \<le> j \<and> j \<le> length xs then Inr (sub_list i j xs) else Inl Panic)"

definition get_idx :: "'a list \<Rightarrow> nat \<Rightarrow> 'a option" where
  "get_idx xs i = (if i < length xs then Some (xs ! i) else None)"

definition get_rng :: "'a list \<Rightarrow> nat \<Rightarrow> nat \<Rightarrow> 'a list option" where
  "get_rng xs i j = (if i \<le> j \<and> j \<le> length xs then Some (sub_list i j xs) else None)"

lemma idx_in [simp]: "i < length xs \<Longrightarrow> idx xs i = Inr (xs ! i)"
  by (simp add: idx_def)

lemma safe_idx: "i < length xs \<Longrightarrow> safe (\<lambda>_. True) (idx xs i)"
  by (simp add: idx_def)

lemma rng_in [simp]: "i \<le> j \<Longrightarrow> j \<le> length xs \<Longrightarrow> rng xs i j = Inr (sub_list i j xs)"
  by (simp add: rng_def)

lemma idx_eq_Inr_iff: "idx xs i = Inr x \<longleftrightarrow> i < length xs \<and> x = xs ! i"
  by (auto simp: idx_def)

lemma rng_eq_Inr_iff: "rng xs i j = Inr ys \<longleftrightarrow> i \<le> j \<and> j \<le> length xs \<and> ys = sub_list i j xs"
  by (auto simp: rng_def)

lemma get_idx_eq_Some_iff: "get_idx xs i = Some x \<longleftrightarrow> i < length xs \<and> x = xs ! i"
  by (auto simp: get_idx_def)

lemma get_rng_eq_Some_iff:
  "get_rng xs i j = Some ys \<longleftrightarrow> i \<le> j \<and> j \<le> length xs \<and> ys = sub_list i j xs"
  by (auto simp: get_rng_def)

lemma length_sub_list [simp]: "j \<le> length xs \<Longrightarrow> length (sub_list i j xs) = j - i"
  by (simp add: sub_list_def)

lemma nth_sub_list [simp]: "i + k < j \<Longrightarrow> j \<le> length xs \<Longrightarrow> sub_list i j xs ! k = xs ! (i + k)"
  by (simp add: sub_list_def)

lemma sub_list_append [simp]: "j \<le> length xs \<Longrightarrow> sub_list i j (xs @ ys) = sub_list i j xs"
  by (simp add: sub_list_def)

lemma sub_list_middle:
  "i = length us \<Longrightarrow> j = length us + length xs \<Longrightarrow> sub_list i j (us @ xs @ ys) = xs"
  by (simp add: sub_list_def)

lemma sub_list_sub_list:
  "j \<le> length xs \<Longrightarrow> b \<le> j - i \<Longrightarrow> sub_list a b (sub_list i j xs) = sub_list (i + a) (i + b) xs"
  by (simp add: sub_list_def drop_take min_def add.commute)

text \<open>\<open>Iterator::find\<close>.\<close>

lemma find_SomeD: "find P xs = Some x \<Longrightarrow> P x \<and> x \<in> set xs"
  by (induction xs) (auto split: if_splits)

lemma find_not_None: "x \<in> set xs \<Longrightarrow> P x \<Longrightarrow> \<exists>y. find P xs = Some y"
  by (induction xs) auto

section \<open>Unsigned machine arithmetic\<close>

text \<open>Offsets and sizes are \<open>usize\<close> on a 64-bit target.\<close>

definition usize_max :: nat where
  "usize_max = 2 ^ 64 - 1"

definition checked_add_usize :: "nat \<Rightarrow> nat \<Rightarrow> nat option" where
  "checked_add_usize a b = (if a + b \<le> usize_max then Some (a + b) else None)"

definition saturating_add_usize :: "nat \<Rightarrow> nat \<Rightarrow> nat" where
  "saturating_add_usize a b = min (a + b) usize_max"

definition saturating_mul_usize :: "nat \<Rightarrow> nat \<Rightarrow> nat" where
  "saturating_mul_usize a b = min (a * b) usize_max"

lemma checked_add_usize_eq_Some_iff [simp]:
  "checked_add_usize a b = Some c \<longleftrightarrow> c = a + b \<and> a + b \<le> usize_max"
  by (auto simp: checked_add_usize_def)

text \<open>Big-endian integers.\<close>

definition be_nat :: "bytes \<Rightarrow> nat" where
  "be_nat bs = foldl (\<lambda>a b. a * 256 + unat b) 0 bs"

fun be_bytes :: "nat \<Rightarrow> nat \<Rightarrow> bytes" where
  "be_bytes 0 v = []"
| "be_bytes (Suc n) v = be_bytes n (v div 256) @ [of_nat (v mod 256)]"

lemma unat_lt2p: "unat (w :: 'l::len word) < 2 ^ LENGTH('l)"
  using unsigned_less [of w, where ?'a = nat] by simp

lemma unat_byte_less [simp, bound_simps]: "unat (b :: byte) < 256"
  using unsigned_less [of b] by simp

lemma unat_byte_le [simp, bound_simps]: "unat (b :: byte) \<le> 255"
  using unat_byte_less [of b] by linarith

lemma be_nat_Nil [simp]: "be_nat [] = 0"
  by (simp add: be_nat_def)

lemma be_nat_snoc [simp]: "be_nat (bs @ [b]) = be_nat bs * 256 + unat b"
  by (simp add: be_nat_def)

lemma be_nat_less: "be_nat bs < 256 ^ length bs"
proof (induction bs rule: rev_induct)
  case (snoc b bs)
  have "be_nat bs * 256 + unat b < (be_nat bs + 1) * 256"
    using unat_byte_less [of b] by simp
  also have "\<dots> \<le> 256 ^ length bs * 256"
    using snoc.IH by (intro mult_le_mono1) simp
  finally show ?case by simp
qed simp

lemma length_be_bytes [simp]: "length (be_bytes n v) = n"
  by (induction n arbitrary: v) auto

lemma be_nat_be_bytes: "be_nat (be_bytes n v) = v mod 256 ^ n"
proof (induction n arbitrary: v)
  case (Suc n)
  have "be_nat (be_bytes (Suc n) v) = (v div 256 mod 256 ^ n) * 256 + v mod 256"
    by (simp add: Suc.IH unat_of_nat)
  also have "\<dots> = v mod (256 * 256 ^ n)"
    by (simp add: mod_mult2_eq)
  finally show ?case by simp
qed simp

lemma be_bytes_be_nat: "be_bytes (length bs) (be_nat bs) = bs"
proof (induction bs rule: rev_induct)
  case (snoc b bs)
  have "(be_nat bs * 256 + unat b) div 256 = be_nat bs"
    using unat_byte_less [of b] by simp
  moreover have "(be_nat bs * 256 + unat b) mod 256 = unat b"
    using unat_byte_less [of b] by simp
  ultimately show ?case
    using snoc.IH by simp
qed simp

lemma be_nat_two: "be_nat [a, b] = unat a * 256 + unat b"
  by (simp add: be_nat_def)

lemma be_bytes_two: "be_bytes 2 v = [of_nat (v div 256 mod 256), of_nat (v mod 256)]"
  by (simp add: numeral_2_eq_2)

lemma be_bytes_three:
  "be_bytes 3 v = [of_nat (v div 256 div 256 mod 256), of_nat (v div 256 mod 256), of_nat (v mod 256)]"
  by (simp add: numeral_3_eq_3)

lemma be_nat_three: "be_nat [a, b, c] = (unat a * 256 + unat b) * 256 + unat c"
  by (simp add: be_nat_def)

section \<open>Strings\<close>

text \<open>
  A Rust \<open>str\<close> is its UTF-8 byte sequence; it is modelled as a \<open>string\<close>, one
  character per byte, so that \<open>len()\<close> is the length of the list.
\<close>

definition char_of_byte :: "byte \<Rightarrow> char" where
  "char_of_byte b = char_of (unat b)"

definition byte_of_char :: "char \<Rightarrow> byte" where
  "byte_of_char c = of_nat (of_char c)"

definition str_of_bytes :: "bytes \<Rightarrow> rstr" where
  "str_of_bytes = map char_of_byte"

definition as_bytes :: "rstr \<Rightarrow> bytes" where
  "as_bytes = map byte_of_char"

lemma char_of_byte_inverse [simp]: "byte_of_char (char_of_byte b) = b"
  by (simp add: byte_of_char_def char_of_byte_def)

lemma byte_of_char_inverse [simp]: "char_of_byte (byte_of_char c) = c"
  by (simp add: byte_of_char_def char_of_byte_def unat_of_nat)

lemma as_bytes_str_of_bytes [simp]: "as_bytes (str_of_bytes bs) = bs"
  by (simp add: as_bytes_def str_of_bytes_def comp_def)

lemma str_of_bytes_as_bytes [simp]: "str_of_bytes (as_bytes s) = s"
  by (simp add: as_bytes_def str_of_bytes_def comp_def)

lemma length_str_of_bytes [simp]: "length (str_of_bytes bs) = length bs"
  by (simp add: str_of_bytes_def)

lemma length_as_bytes [simp]: "length (as_bytes s) = length s"
  by (simp add: as_bytes_def)

section \<open>Servers\<close>

text \<open>
  A server takes one request at a time to an answer and a new state, or does not return. One that
  answers well and keeps its state in order for every fit request does so for every list of them.
\<close>

fun serve_all :: "('i \<Rightarrow> 's \<Rightarrow> ('o \<times> 's) option) \<Rightarrow> 'i list \<Rightarrow> 's \<Rightarrow> ('o list \<times> 's) option" where
  "serve_all serve [] s = Some ([], s)"
| "serve_all serve (i # is) s =
     (case serve i s of
        None \<Rightarrow> None
      | Some (a, s) \<Rightarrow> map_option (\<lambda>(as, s). (a # as, s)) (serve_all serve is s))"

locale session_server =
  fixes serve :: "'i \<Rightarrow> 's \<Rightarrow> ('o \<times> 's) option"
    and fit :: "'i \<Rightarrow> bool" and in_order :: "'s \<Rightarrow> bool" and good :: "'o \<Rightarrow> bool"
  assumes serves: "fit i \<Longrightarrow> in_order s \<Longrightarrow> \<exists>a s'. serve i s = Some (a, s') \<and> good a \<and> in_order s'"
begin

lemma serves_all:
  "\<forall>i \<in> set is. fit i \<Longrightarrow> in_order s \<Longrightarrow>
   \<exists>as s'. serve_all serve is s = Some (as, s') \<and> length as = length is \<and> (\<forall>a \<in> set as. good a) \<and> in_order s'"
proof (induction "is" arbitrary: s)
  case (Cons i "is")
  from Cons.prems serves [of i s] obtain a s1 where "serve i s = Some (a, s1)" "good a" "in_order s1" by auto
  with Cons show ?case by fastforce
qed simp

end

end
