(* ===== verification/Rust_Str.thy ===== *)
theory Rust_Str
  imports Xtp_Prelude
begin

text \<open>
  The \<open>str\<close>, \<open>char\<close> and \<open>u8\<close> methods of the Rust standard library that the sources
  call, on UTF-8 strings: ASCII classes and lower-casing, \<open>trim\<close> over the Unicode
  \<open>White_Space\<close> code points, \<open>trim_start_matches\<close> / \<open>trim_end_matches\<close>,
  \<open>split\<close>, \<open>split_once\<close>, \<open>rsplit_once\<close>, \<open>strip_prefix\<close>, \<open>contains\<close>
  and \<open>std::str::from_utf8\<close>.
\<close>

section \<open>ASCII classes\<close>

definition is_ascii_uppercase :: "char \<Rightarrow> bool" where
  "is_ascii_uppercase c \<longleftrightarrow> 65 \<le> (of_char c :: nat) \<and> (of_char c :: nat) \<le> 90"

definition is_ascii_lowercase :: "char \<Rightarrow> bool" where
  "is_ascii_lowercase c \<longleftrightarrow> 97 \<le> (of_char c :: nat) \<and> (of_char c :: nat) \<le> 122"

definition is_ascii_alphabetic :: "char \<Rightarrow> bool" where
  "is_ascii_alphabetic c \<longleftrightarrow> is_ascii_uppercase c \<or> is_ascii_lowercase c"

definition is_ascii_digit :: "char \<Rightarrow> bool" where
  "is_ascii_digit c \<longleftrightarrow> 48 \<le> (of_char c :: nat) \<and> (of_char c :: nat) \<le> 57"

definition is_ascii_alphanumeric :: "char \<Rightarrow> bool" where
  "is_ascii_alphanumeric c \<longleftrightarrow> is_ascii_alphabetic c \<or> is_ascii_digit c"

definition to_ascii_lower :: "char \<Rightarrow> char" where
  "to_ascii_lower c = (if is_ascii_uppercase c then char_of ((of_char c :: nat) + 32) else c)"

definition to_ascii_lowercase :: "rstr \<Rightarrow> rstr" where
  "to_ascii_lowercase = map to_ascii_lower"

definition eq_ignore_ascii_case :: "rstr \<Rightarrow> rstr \<Rightarrow> bool" where
  "eq_ignore_ascii_case a b \<longleftrightarrow> to_ascii_lowercase a = to_ascii_lowercase b"

lemmas ascii_defs =
  is_ascii_uppercase_def is_ascii_lowercase_def is_ascii_alphabetic_def is_ascii_digit_def
  is_ascii_alphanumeric_def

lemma of_char_to_ascii_lower:
  "(of_char (to_ascii_lower c) :: nat) =
     (if is_ascii_uppercase c then (of_char c :: nat) + 32 else of_char c)"
  by (simp add: to_ascii_lower_def is_ascii_uppercase_def)

lemma not_upper_to_ascii_lower [simp]: "\<not> is_ascii_uppercase (to_ascii_lower c)"
  by (auto simp: is_ascii_uppercase_def of_char_to_ascii_lower)

lemma to_ascii_lower_id: "\<not> is_ascii_uppercase c \<Longrightarrow> to_ascii_lower c = c"
  by (simp add: to_ascii_lower_def)

lemma to_ascii_lower_idem [simp]: "to_ascii_lower (to_ascii_lower c) = to_ascii_lower c"
  by (simp add: to_ascii_lower_id)

lemma to_ascii_lowercase_simps [simp]:
  "to_ascii_lowercase [] = []"
  "to_ascii_lowercase (c # s) = to_ascii_lower c # to_ascii_lowercase s"
  "to_ascii_lowercase (s @ t) = to_ascii_lowercase s @ to_ascii_lowercase t"
  "length (to_ascii_lowercase s) = length s"
  "to_ascii_lowercase s = [] \<longleftrightarrow> s = []"
  by (simp_all add: to_ascii_lowercase_def)

lemma to_ascii_lowercase_idem [simp]:
  "to_ascii_lowercase (to_ascii_lowercase s) = to_ascii_lowercase s"
  by (simp add: to_ascii_lowercase_def comp_def)

lemma to_ascii_lowercase_id: "\<forall>c \<in> set s. \<not> is_ascii_uppercase c \<Longrightarrow> to_ascii_lowercase s = s"
  by (induction s) (auto simp: to_ascii_lower_id)

lemma no_upper_to_ascii_lowercase: "c \<in> set (to_ascii_lowercase s) \<Longrightarrow> \<not> is_ascii_uppercase c"
  by (auto simp: to_ascii_lowercase_def)

text \<open>The dot is its own lower case and nothing else lower-cases to it.\<close>

lemma to_ascii_lower_eq_dot [simp]: "to_ascii_lower c = CHR ''.'' \<longleftrightarrow> c = CHR ''.''"
proof
  assume "to_ascii_lower c = CHR ''.''"
  then have "(of_char (to_ascii_lower c) :: nat) = 46" by simp
  then have "(of_char c :: nat) = 46"
    by (auto simp: of_char_to_ascii_lower is_ascii_uppercase_def split: if_splits)
  then have "(of_char c :: nat) = of_char (CHR ''.'')" by simp
  then show "c = CHR ''.''" by (simp only: of_char_eq_iff)
qed (simp add: to_ascii_lower_def is_ascii_uppercase_def)

section \<open>Trimming\<close>

definition trim_start_matches :: "char \<Rightarrow> rstr \<Rightarrow> rstr" where
  "trim_start_matches c s = dropWhile (\<lambda>x. x = c) s"

definition trim_end_matches :: "char \<Rightarrow> rstr \<Rightarrow> rstr" where
  "trim_end_matches c s = rev (dropWhile (\<lambda>x. x = c) (rev s))"

text \<open>The UTF-8 encodings of the Unicode code points with the property \<open>White_Space\<close>.\<close>

definition white_space :: "rstr list" where
  "white_space = map (map char_of) ([[9], [10], [11], [12], [13], [32], [194, 133], [194, 160],
     [225, 154, 128]] @ map (\<lambda>n. [226, 128, n]) [128 ..< 139]
     @ [[226, 128, 168], [226, 128, 169], [226, 128, 175], [226, 129, 159], [227, 128, 128 :: nat]])"

function trim_with :: "rstr list \<Rightarrow> rstr \<Rightarrow> rstr" where
  "trim_with ws s =
     (case find (\<lambda>w. w \<noteq> [] \<and> prefix w s) ws of
        None \<Rightarrow> s
      | Some w \<Rightarrow> trim_with ws (drop (length w) s))"
  by pat_completeness auto
termination
  by (relation "measure (\<lambda>(ws, s). length s)")
    (auto simp: find_Some_iff prefix_def)

declare trim_with.simps [simp del]

definition trim :: "rstr \<Rightarrow> rstr" where
  "trim s = rev (trim_with (map rev white_space) (rev (trim_with white_space s)))"

section \<open>Splitting and searching\<close>

fun split_char :: "char \<Rightarrow> rstr \<Rightarrow> rstr list" where
  "split_char d [] = [[]]"
| "split_char d (c # cs) =
     (if c = d then [] # split_char d cs
      else (case split_char d cs of [] \<Rightarrow> [[c]] | w # ws \<Rightarrow> (c # w) # ws))"

text \<open>\<open>s.split("\r\n")\<close>.\<close>

fun split_crlf :: "rstr \<Rightarrow> rstr list" where
  "split_crlf [] = [[]]"
| "split_crlf [c] = [[c]]"
| "split_crlf (c # d # cs) =
     (if c = CHR 0x0D \<and> d = CHR 0x0A then [] # split_crlf cs
      else (case split_crlf (d # cs) of [] \<Rightarrow> [[c]] | w # ws \<Rightarrow> (c # w) # ws))"

fun split_once :: "char \<Rightarrow> rstr \<Rightarrow> (rstr \<times> rstr) option" where
  "split_once d [] = None"
| "split_once d (c # cs) =
     (if c = d then Some ([], cs)
      else map_option (\<lambda>(a, b). (c # a, b)) (split_once d cs))"

definition rsplit_once :: "char \<Rightarrow> rstr \<Rightarrow> (rstr \<times> rstr) option" where
  "rsplit_once d s = map_option (\<lambda>(a, b). (rev b, rev a)) (split_once d (rev s))"

definition strip_prefix :: "rstr \<Rightarrow> rstr \<Rightarrow> rstr option" where
  "strip_prefix p s = (if prefix p s then Some (drop (length p) s) else None)"

definition str_contains :: "rstr \<Rightarrow> rstr \<Rightarrow> bool" where
  "str_contains s sub \<longleftrightarrow> (\<exists>i \<in> {0..length s}. prefix sub (drop i s))"

text \<open>Position of the first window equal to \<open>pat\<close>, as \<open>windows(n).position(..)\<close> gives it.\<close>

fun find_window :: "'a list \<Rightarrow> 'a list \<Rightarrow> nat option" where
  "find_window pat [] = None"
| "find_window pat (x # xs) =
     (if take (length pat) (x # xs) = pat then Some 0
      else map_option Suc (find_window pat xs))"

lemma split_char_neq_Nil [simp]: "split_char d s \<noteq> []"
  by (induction s) (auto split: list.splits)

lemma split_crlf_neq_Nil [simp]: "split_crlf s \<noteq> []"
  by (induction s rule: split_crlf.induct) (auto split: list.splits)

lemma split_once_Some_iff:
  "split_once d s = Some (a, b) \<longleftrightarrow> s = a @ d # b \<and> d \<notin> set a"
proof (induction s arbitrary: a)
  case (Cons c cs)
  show ?case
    by (cases a) (auto simp: Cons.IH)
qed simp

lemma split_once_None_iff: "split_once d s = None \<longleftrightarrow> d \<notin> set s"
  by (induction s) auto

lemma rsplit_once_Some_iff:
  "rsplit_once d s = Some (a, b) \<longleftrightarrow> s = a @ d # b \<and> d \<notin> set b"
proof -
  have "rsplit_once d s = Some (a, b) \<longleftrightarrow> split_once d (rev s) = Some (rev b, rev a)"
    by (auto simp: rsplit_once_def)
  also have "\<dots> \<longleftrightarrow> rev s = rev (a @ d # b) \<and> d \<notin> set b"
    by (simp add: split_once_Some_iff)
  finally show ?thesis by (simp only: rev_is_rev_conv)
qed

lemma str_contains_iff_sublist: "str_contains s sub \<longleftrightarrow> sublist sub s"
proof
  assume "str_contains s sub"
  then obtain i where "i \<le> length s" "prefix sub (drop i s)"
    by (auto simp: str_contains_def)
  then show "sublist sub s"
    by (metis append_take_drop_id prefix_def sublist_appendI)
next
  assume "sublist sub s"
  then obtain us vs where "s = us @ sub @ vs" by (auto simp: sublist_def)
  then have "length us \<le> length s" "prefix sub (drop (length us) s)" by auto
  then show "str_contains s sub" by (auto simp: str_contains_def)
qed

lemma find_window_Some:
  "find_window pat xs = Some i \<Longrightarrow>
     i < length xs \<and> take (length pat) (drop i xs) = pat"
  by (induction xs arbitrary: i) (auto split: if_splits)

lemma find_window_append:
  "find_window pat xs = Some i \<Longrightarrow> find_window pat (xs @ ys) = Some i"
proof (induction xs arbitrary: i)
  case (Cons x xs)
  show ?case
  proof (cases "take (length pat) (x # xs) = pat")
    case True
    then have "length pat \<le> length (x # xs)"
      by (metis length_take min.absorb_iff1 min.commute)
    then have "take (length pat) ((x # xs) @ ys) = pat"
      using True by (metis append_Nil2 cancel_comm_monoid_add_class.diff_cancel
          diff_is_0_eq take_append take_eq_Nil)
    then show ?thesis
      using True Cons.prems by simp
  next
    case False
    then obtain j where j: "find_window pat xs = Some j" "i = Suc j"
      using Cons.prems by auto
    have "take (length pat) ((x # xs) @ ys) \<noteq> pat"
    proof
      assume "take (length pat) ((x # xs) @ ys) = pat"
      then have "\<not> length pat \<le> length (x # xs)"
        using False by (metis append_Nil2 diff_is_0_eq take0 take_append)
      moreover have "length pat \<le> length (drop j xs)"
        using find_window_Some [OF j(1)] by (metis length_take min.absorb_iff1 min.commute)
      ultimately show False by simp
    qed
    then show ?thesis
      using Cons.IH [OF j(1)] j(2) by simp
  qed
qed simp

section \<open>UTF-8 validity\<close>

definition in_range :: "nat \<Rightarrow> nat \<Rightarrow> byte \<Rightarrow> bool" where
  "in_range lo hi b \<longleftrightarrow> lo \<le> unat b \<and> unat b \<le> hi"

abbreviation cont_byte :: "byte \<Rightarrow> bool" where
  "cont_byte \<equiv> in_range 128 191"

text \<open>\<open>std::str::from_utf8\<close> accepts exactly the well-formed sequences of the Unicode table.\<close>

fun utf8_valid :: "bytes \<Rightarrow> bool" where
  "utf8_valid [] = True"
| "utf8_valid (b # bs) =
     (if unat b < 128 then utf8_valid bs
      else case bs of
        [] \<Rightarrow> False
      | c # cs \<Rightarrow>
          if in_range 194 223 b then cont_byte c \<and> utf8_valid cs
          else case cs of
            [] \<Rightarrow> False
          | d # ds \<Rightarrow>
              if b = 224 then in_range 160 191 c \<and> cont_byte d \<and> utf8_valid ds
              else if b = 237 then in_range 128 159 c \<and> cont_byte d \<and> utf8_valid ds
              else if in_range 225 239 b then cont_byte c \<and> cont_byte d \<and> utf8_valid ds
              else case ds of
                [] \<Rightarrow> False
              | e # es \<Rightarrow>
                  if b = 240 then in_range 144 191 c \<and> cont_byte d \<and> cont_byte e \<and> utf8_valid es
                  else if in_range 241 243 b then cont_byte c \<and> cont_byte d \<and> cont_byte e \<and> utf8_valid es
                  else if b = 244 then in_range 128 143 c \<and> cont_byte d \<and> cont_byte e \<and> utf8_valid es
                  else False)"

definition from_utf8 :: "bytes \<Rightarrow> rstr option" where
  "from_utf8 bs = (if utf8_valid bs then Some (str_of_bytes bs) else None)"

lemma utf8_valid_ascii: "\<forall>b \<in> set bs. unat b < 128 \<Longrightarrow> utf8_valid bs"
  by (induction bs) auto

lemma from_utf8_Some_iff: "from_utf8 bs = Some s \<longleftrightarrow> utf8_valid bs \<and> s = str_of_bytes bs"
  by (auto simp: from_utf8_def)

text \<open>A byte below 128 ends the sequence before it.\<close>

lemma in_range_ascii: "unat b < 128 \<Longrightarrow> 128 \<le> lo \<Longrightarrow> \<not> in_range lo hi b"
  by (simp add: in_range_def)

lemma utf8_valid_before_ascii:
  "utf8_valid (xs @ b # ys) \<Longrightarrow> unat b < 128 \<Longrightarrow> utf8_valid xs"
proof (induction "length xs" arbitrary: xs rule: less_induct)
  case less
  note r = in_range_ascii [OF less.prems(2)]
  have IH: "utf8_valid zs" if "utf8_valid (zs @ b # ys)" "length zs < length xs" for zs
    using less.hyps that less.prems(2) by blast
  have s1: "unat c < 128 \<Longrightarrow> utf8_valid (c # zs) = utf8_valid zs" for c zs by simp
  have s2: "\<not> unat c < 128 \<Longrightarrow> in_range 194 223 c \<Longrightarrow> utf8_valid (c # d # zs) = (cont_byte d \<and> utf8_valid zs)" for c d zs
    by simp
  consider "xs = []" | c where "xs = [c]" | c d where "xs = [c, d]" | c d e where "xs = [c, d, e]" 
    | c d e f zs where "xs = c # d # e # f # zs"
    by (metis list.exhaust)
  then show ?case
  proof cases
    case 2
    then show ?thesis
      using less.prems(1) by (simp add: r split: if_splits list.splits)
  next
    case (3 c d)
    have "utf8_valid [d]" if "unat c < 128"
      using that less.prems(1) IH [of "[d]"] by (simp add: 3 s1 s2 del: utf8_valid.simps)
    then show ?thesis
      using less.prems(1) 3 by (simp add: r split: if_splits list.splits)
  next
    case (4 c d e)
    have "utf8_valid [d, e]" if "unat c < 128"
      using that less.prems(1) IH [of "[d, e]"] by (simp add: 4 s1 s2 del: utf8_valid.simps)
    moreover have "utf8_valid [e]" if "\<not> unat c < 128" "in_range 194 223 c"
      using that less.prems(1) IH [of "[e]"] by (simp add: 4 s1 s2 del: utf8_valid.simps)
    ultimately show ?thesis
      using less.prems(1) unfolding 4 append.simps utf8_valid.simps(2) [of c]
      by (auto simp: r simp del: utf8_valid.simps(2) split: if_splits list.splits)
  next
    case (5 c d e f zs)
    have "utf8_valid (d # e # f # zs)" if "unat c < 128"
      using that less.prems(1) IH [of "d # e # f # zs"] by (simp add: 5 s1 s2 del: utf8_valid.simps)
    moreover have "utf8_valid (e # f # zs)" if "\<not> unat c < 128" "in_range 194 223 c"
      using that less.prems(1) IH [of "e # f # zs"] by (simp add: 5 s1 s2 del: utf8_valid.simps)
    moreover note IH[of "f # zs"] IH[of zs]
    ultimately show ?thesis
      using less.prems(1) unfolding 5 append.simps utf8_valid.simps(2) [of c]
      by (auto simp: 5 simp del: utf8_valid.simps(2) split: if_splits)
  qed simp
qed

end
