(* ===== verification/Net_Addr.thy ===== *)
theory Net_Addr
  imports Rust_Str
begin

text \<open>
  Addresses of \<open>std::net\<close> and the interface of the address crates. \<open>IpAddr\<close> and
  \<open>SocketAddr\<close> are the standard library's types (the flow label and scope of an IPv6 socket
  address, which the program never sets, are left out). The crates \<open>ipnet\<close> (networks) and
  \<open>iptrie\<close> (prefix tries) are not part of the repository: their operations are the fields
  of the record \<open>net_ops\<close>, an argument of every definition that uses them.
\<close>

type_synonym ipv4 = "32 word"
type_synonym ipv6 = "128 word"

datatype IpAddr = V4 ipv4 | V6 ipv6

datatype SocketAddr = SocketAddr (sa_ip: IpAddr) (sa_port: u16)

fun is_ipv4 :: "SocketAddr \<Rightarrow> bool" where
  "is_ipv4 (SocketAddr (V4 _) _) = True"
| "is_ipv4 (SocketAddr (V6 _) _) = False"

definition ipv4_octets :: "ipv4 \<Rightarrow> bytes" where
  "ipv4_octets a = be_bytes 4 (unat a)"

definition ipv6_octets :: "ipv6 \<Rightarrow> bytes" where
  "ipv6_octets a = be_bytes 16 (unat a)"

definition port_bytes :: "u16 \<Rightarrow> bytes" where
  "port_bytes p = be_bytes 2 (unat p)"

fun ip_is_unspecified :: "IpAddr \<Rightarrow> bool" where
  "ip_is_unspecified (V4 a) = (a = 0)"
| "ip_is_unspecified (V6 a) = (a = 0)"

definition is_must_direct_local_ipv4 :: "ipv4 \<Rightarrow> bool" where
  "is_must_direct_local_ipv4 a \<longleftrightarrow>
     drop_bit 24 a = 127 \<or> drop_bit 16 a = 0xA9FE \<or> a = 0xFFFFFFFF \<or> a = 0"

definition is_must_direct_local_ipv6 :: "ipv6 \<Rightarrow> bool" where
  "is_must_direct_local_ipv6 a \<longleftrightarrow> a = 1 \<or> a = 0 \<or> drop_bit 118 a = 0x3FA"

definition is_must_direct_local_ip :: "IpAddr \<Rightarrow> bool" where
  "is_must_direct_local_ip ip =
     (case ip of V4 a \<Rightarrow> is_must_direct_local_ipv4 a | V6 a \<Rightarrow> is_must_direct_local_ipv6 a)"

definition unspecified_addr_for :: "SocketAddr \<Rightarrow> SocketAddr" where
  "unspecified_addr_for addr =
     (case sa_ip addr of V4 _ \<Rightarrow> SocketAddr (V4 0) 0 | V6 _ \<Rightarrow> SocketAddr (V6 0) 0)"

section \<open>The interface of the network crates\<close>

datatype ('n4, 'n6) IpNet = NetV4 'n4 | NetV6 'n6

record ('n4, 'n6) net_ops =
  net4_contains :: "'n4 \<Rightarrow> ipv4 \<Rightarrow> bool"
  net4_prefix_len :: "'n4 \<Rightarrow> nat"
  net6_contains :: "'n6 \<Rightarrow> ipv6 \<Rightarrow> bool"
  net6_prefix_len :: "'n6 \<Rightarrow> nat"
  parse_net :: "rstr \<Rightarrow> ('n4, 'n6) IpNet option"
  parse_ip :: "rstr \<Rightarrow> IpAddr option"
  net_from_ip :: "IpAddr \<Rightarrow> ('n4, 'n6) IpNet"
  trie4_lookup_len :: "'n4 list \<Rightarrow> ipv4 \<Rightarrow> nat"
  trie6_lookup_len :: "'n6 list \<Rightarrow> ipv6 \<Rightarrow> nat"

text \<open>
  What \<open>iptrie\<close> documents of \<open>lookup\<close>: the longest prefix of the set that covers the
  address, or the root prefix of length 0.
\<close>

definition trie_laws :: "('n4, 'n6) net_ops \<Rightarrow> bool" where
  "trie_laws N \<longleftrightarrow>
     (\<forall>ns a. trie4_lookup_len N ns a =
        Max (insert 0 (net4_prefix_len N ` {n \<in> set ns. net4_contains N n a}))) \<and>
     (\<forall>ns a. trie6_lookup_len N ns a =
        Max (insert 0 (net6_prefix_len N ` {n \<in> set ns. net6_contains N n a})))"

definition parse_ip_or_cidr :: "('n4, 'n6) net_ops \<Rightarrow> rstr \<Rightarrow> ('n4, 'n6) IpNet option" where
  "parse_ip_or_cidr N s =
     (case parse_net N s of
        Some net \<Rightarrow> Some net
      | None \<Rightarrow> map_option (net_from_ip N) (parse_ip N s))"

text \<open>
  \<open>parse_ip_net_list\<close>: the first entry that does not parse is the error. A host network
  \<open>IpNet::new(ip, 32 | 128)\<close> always exists and is \<open>net_from_ip\<close>.
\<close>

fun parse_ip_net_list :: "('n4, 'n6) net_ops \<Rightarrow> rstr list \<Rightarrow> rstr + ('n4, 'n6) IpNet list" where
  "parse_ip_net_list N [] = Inr []"
| "parse_ip_net_list N (raw # rest) =
     (let s = trim raw
      in if s = [] then Inl raw
         else case parse_net N s of
                Some net \<Rightarrow>
                  (case parse_ip_net_list N rest of Inl e \<Rightarrow> Inl e | Inr ns \<Rightarrow> Inr (net # ns))
              | None \<Rightarrow>
                  (case parse_ip N s of
                     None \<Rightarrow> Inl raw
                   | Some ip \<Rightarrow>
                       (case parse_ip_net_list N rest of
                          Inl e \<Rightarrow> Inl e
                        | Inr ns \<Rightarrow> Inr (net_from_ip N ip # ns))))"

text \<open>\<open>build_ip_tries\<close> splits the networks by family; a trie is given by its prefixes.\<close>

fun build_ip_tries :: "('n4, 'n6) IpNet list \<Rightarrow> 'n4 list \<times> 'n6 list" where
  "build_ip_tries [] = ([], [])"
| "build_ip_tries (NetV4 n # ns) = (let (v4, v6) = build_ip_tries ns in (n # v4, v6))"
| "build_ip_tries (NetV6 n # ns) = (let (v4, v6) = build_ip_tries ns in (v4, n # v6))"

definition ipv4_trie_contains :: "('n4, 'n6) net_ops \<Rightarrow> 'n4 list \<Rightarrow> ipv4 \<Rightarrow> bool" where
  "ipv4_trie_contains N trie ip \<longleftrightarrow> trie4_lookup_len N trie ip \<noteq> 0"

definition ipv6_trie_contains :: "('n4, 'n6) net_ops \<Rightarrow> 'n6 list \<Rightarrow> ipv6 \<Rightarrow> bool" where
  "ipv6_trie_contains N trie ip \<longleftrightarrow> trie6_lookup_len N trie ip \<noteq> 0"

section \<open>A concrete instance\<close>

text \<open>
  Networks as an address and a prefix length, used by the witnesses to show that the hypotheses
  on the crates can hold.
\<close>

definition word_net_contains :: "('l::len) word \<times> nat \<Rightarrow> 'l word \<Rightarrow> bool" where
  "word_net_contains n a \<longleftrightarrow> drop_bit (LENGTH('l) - snd n) (fst n) = drop_bit (LENGTH('l) - snd n) a"

definition word_trie_lookup_len :: "(('l::len) word \<times> nat) list \<Rightarrow> 'l word \<Rightarrow> nat" where
  "word_trie_lookup_len ns a = fold max (map snd (filter (\<lambda>n. word_net_contains n a) ns)) 0"

definition word_net_ops :: "(ipv4 \<times> nat, ipv6 \<times> nat) net_ops" where
  "word_net_ops =
     \<lparr>net4_contains = word_net_contains, net4_prefix_len = snd,
      net6_contains = word_net_contains, net6_prefix_len = snd,
      parse_net = (\<lambda>s. None),
      parse_ip = (\<lambda>s. if s = ''127.0.0.1'' then Some (V4 0x7F000001)
                       else if s = ''10.0.0.1'' then Some (V4 0x0A000001) else None),
      net_from_ip = (\<lambda>ip. case ip of V4 a \<Rightarrow> NetV4 (a, 32) | V6 a \<Rightarrow> NetV6 (a, 128)),
      trie4_lookup_len = word_trie_lookup_len, trie6_lookup_len = word_trie_lookup_len\<rparr>"

lemma word_trie_lookup_len_Max:
  "word_trie_lookup_len ns a = Max (insert 0 (snd ` {n \<in> set ns. word_net_contains n a}))"
proof -
  have "fold max xs m = Max (insert m (set xs))" for xs and m :: nat
    using Max.set_eq_fold [of m xs] by simp
  from this [of "map snd (filter (\<lambda>n. word_net_contains n a) ns)" 0] show ?thesis
    by (simp add: word_trie_lookup_len_def image_def Collect_conj_eq)
qed

lemma word_net_ops_laws: "trie_laws word_net_ops"
  by (simp add: trie_laws_def word_net_ops_def word_trie_lookup_len_Max)

section \<open>Lemmas\<close>

lemma trie4_contains_iff:
  assumes "trie_laws N"
  shows "ipv4_trie_contains N ns a \<longleftrightarrow>
     (\<exists>n \<in> set ns. net4_contains N n a \<and> 0 < net4_prefix_len N n)"
proof -
  have "ipv4_trie_contains N ns a \<longleftrightarrow>
      0 < Max (insert 0 (net4_prefix_len N ` {n \<in> set ns. net4_contains N n a}))"
    using assms by (simp only: ipv4_trie_contains_def trie_laws_def neq0_conv)
  also have "\<dots> \<longleftrightarrow> (\<exists>n \<in> set ns. net4_contains N n a \<and> 0 < net4_prefix_len N n)"
    by (subst Max_gr_iff) auto
  finally show ?thesis .
qed

lemma trie6_contains_iff:
  assumes "trie_laws N"
  shows "ipv6_trie_contains N ns a \<longleftrightarrow>
     (\<exists>n \<in> set ns. net6_contains N n a \<and> 0 < net6_prefix_len N n)"
proof -
  have "ipv6_trie_contains N ns a \<longleftrightarrow>
      0 < Max (insert 0 (net6_prefix_len N ` {n \<in> set ns. net6_contains N n a}))"
    using assms by (simp only: ipv6_trie_contains_def trie_laws_def neq0_conv)
  also have "\<dots> \<longleftrightarrow> (\<exists>n \<in> set ns. net6_contains N n a \<and> 0 < net6_prefix_len N n)"
    by (subst Max_gr_iff) auto
  finally show ?thesis .
qed

lemma set_build_ip_tries:
  "set (fst (build_ip_tries ns)) = {n. NetV4 n \<in> set ns}"
  "set (snd (build_ip_tries ns)) = {n. NetV6 n \<in> set ns}"
  by (induction ns rule: build_ip_tries.induct) (auto simp: Let_def case_prod_unfold)

end
