(* ===== verification/Socks5.thy ===== *)
theory Socks5
  imports Net_Addr
begin

text \<open>
  The SOCKS5 client (\<open>socks5.rs\<close>): UDP encapsulation and decapsulation as byte-exact functions
  with explicit panics, and the handshakes as programs over a TCP stream. A stream is given by the
  bytes the peer will send before it closes, the bytes written so far, and the number of writes
  that still succeed. Name resolution and socket creation are parameters.
\<close>

datatype Socks5Target = TIp SocketAddr | TDomain rstr u16

datatype Socks5UdpTarget = UIp SocketAddr | UDomain (ud_host: rstr) (ud_port: u16)

datatype Socks5Error =
  InvalidDomainLength | PacketTooShort | BadReserved | Fragmented | BadAddrType |
  BadCredentialLength | WriteFailed | ReadFailed | BadVersion | NoAuthChosen | AuthFailed |
  UnsupportedMethod | ReplyCode byte | BadRelayName | ResolveFailed | ConnectFailed | UdpSocketFailed

section \<open>UDP packets\<close>

definition build_socks5_udp_packet :: "Socks5UdpTarget \<Rightarrow> bytes \<Rightarrow> (Socks5Error, bytes) rres" where
  "build_socks5_udp_packet target payload =
     (case target of
        UIp (SocketAddr (V4 ip) port) \<Rightarrow> Inr ([0, 0, 0] @ [1] @ ipv4_octets ip @ port_bytes port @ payload)
      | UIp (SocketAddr (V6 ip) port) \<Rightarrow> Inr ([0, 0, 0] @ [4] @ ipv6_octets ip @ port_bytes port @ payload)
      | UDomain host port \<Rightarrow>
          (let host_bytes = as_bytes host
           in if host_bytes = [] \<or> 255 < length host_bytes then Inl (Fail InvalidDomainLength)
              else Inr ([0, 0, 0] @ [3, of_nat (length host_bytes)] @ host_bytes @ port_bytes port @ payload)))"

text \<open>\<open>Ipv4Addr::new\<close>, \<open>Ipv6Addr::from\<close> and \<open>u16::from_be_bytes\<close>.\<close>

definition ipv4_of_octets :: "bytes \<Rightarrow> ipv4" where
  "ipv4_of_octets bs = of_nat (be_nat bs)"

definition ipv6_of_octets :: "bytes \<Rightarrow> ipv6" where
  "ipv6_of_octets bs = of_nat (be_nat bs)"

definition u16_from_be_bytes :: "byte \<Rightarrow> byte \<Rightarrow> u16" where
  "u16_from_be_bytes a b = of_nat (be_nat [a, b])"

definition parse_socks5_udp_packet_with_fallback_src ::
  "bytes \<Rightarrow> SocketAddr \<Rightarrow> (Socks5Error, SocketAddr \<times> bytes) rres" where
  "parse_socks5_udp_packet_with_fallback_src pkt fallback_src =
     (if length pkt < 4 then Inl (Fail PacketTooShort)
      else bindR (idx pkt 0) (\<lambda>p0. bindR (idx pkt 1) (\<lambda>p1.
      if p0 \<noteq> 0 \<or> p1 \<noteq> 0 then Inl (Fail BadReserved)
      else bindR (idx pkt 2) (\<lambda>p2.
      if p2 \<noteq> 0 then Inl (Fail Fragmented)
      else bindR (idx pkt 3) (\<lambda>atyp.
      let off = 4 in
      bindR
        (if atyp = 1 then
           if length pkt < off + 4 + 2 then Inl (Fail PacketTooShort)
           else bindR (idx pkt off) (\<lambda>a. bindR (idx pkt (off + 1)) (\<lambda>b.
                bindR (idx pkt (off + 2)) (\<lambda>c. bindR (idx pkt (off + 3)) (\<lambda>d.
                let ip = ipv4_of_octets [a, b, c, d]; off = off + 4 in
                bindR (idx pkt off) (\<lambda>x. bindR (idx pkt (off + 1)) (\<lambda>y.
                Inr (SocketAddr (V4 ip) (u16_from_be_bytes x y), off + 2)))))))
         else if atyp = 4 then
           if length pkt < off + 16 + 2 then Inl (Fail PacketTooShort)
           else bindR (rng pkt off (off + 16)) (\<lambda>ip.
                let off = off + 16 in
                bindR (idx pkt off) (\<lambda>x. bindR (idx pkt (off + 1)) (\<lambda>y.
                Inr (SocketAddr (V6 (ipv6_of_octets ip)) (u16_from_be_bytes x y), off + 2))))
         else if atyp = 3 then
           if length pkt < off + 1 then Inl (Fail PacketTooShort)
           else bindR (idx pkt off) (\<lambda>l.
                let name_len = unat l; off = off + 1 in
                if length pkt < off + name_len + 2 then Inl (Fail PacketTooShort)
                else let off = off + name_len in
                     bindR (idx pkt off) (\<lambda>x. bindR (idx pkt (off + 1)) (\<lambda>y.
                     Inr (fallback_src, off + 2))))
         else Inl (Fail BadAddrType)) (\<lambda>(src, off).
      bindR (rng pkt off (length pkt)) (\<lambda>payload. Inr (src, payload))))))))"

section \<open>Streams\<close>

record TcpStream =
  ts_in :: bytes
  ts_out :: bytes
  ts_writes :: nat

type_synonym 'a stream_prog = "TcpStream \<Rightarrow> (Socks5Error, 'a) rres \<times> TcpStream"

definition returnS :: "'a \<Rightarrow> 'a stream_prog" where
  "returnS x s = (Inr x, s)"

definition bail :: "Socks5Error \<Rightarrow> 'a stream_prog" where
  "bail e s = (Inl (Fail e), s)"

definition liftS :: "(Socks5Error, 'a) rres \<Rightarrow> 'a stream_prog" where
  "liftS m s = (m, s)"

definition bindS :: "'a stream_prog \<Rightarrow> ('a \<Rightarrow> 'b stream_prog) \<Rightarrow> 'b stream_prog" where
  "bindS m f s = (case m s of (Inl e, s') \<Rightarrow> (Inl e, s') | (Inr x, s') \<Rightarrow> f x s')"

definition write_all :: "bytes \<Rightarrow> unit stream_prog" where
  "write_all bs s =
     (case ts_writes s of
        0 \<Rightarrow> (Inl (Fail WriteFailed), s)
      | Suc n \<Rightarrow> (Inr (), s\<lparr>ts_out := ts_out s @ bs, ts_writes := n\<rparr>))"

definition read_exact :: "nat \<Rightarrow> bytes stream_prog" where
  "read_exact n s =
     (if n \<le> length (ts_in s) then (Inr (take n (ts_in s)), s\<lparr>ts_in := drop n (ts_in s)\<rparr>)
      else (Inl (Fail ReadFailed), s\<lparr>ts_in := []\<rparr>))"

section \<open>Handshakes\<close>

definition socks5_auth :: "(rstr \<times> rstr) option \<Rightarrow> unit stream_prog" where
  "socks5_auth creds =
     (case creds of
        Some (user, pass) \<Rightarrow>
          if user = [] \<or> 255 < length user \<or> pass = [] \<or> 255 < length pass
          then bail BadCredentialLength
          else
            bindS (write_all [5, 2, 0, 2]) (\<lambda>_.
            bindS (read_exact 2) (\<lambda>resp.
            bindS (liftS (idx resp 0)) (\<lambda>r0.
            if r0 \<noteq> 5 then bail BadVersion
            else bindS (liftS (idx resp 1)) (\<lambda>r1.
            if r1 = 0 then bail NoAuthChosen
            else if r1 = 2 then
              bindS (write_all ([1, of_nat (length user)] @ as_bytes user @ [of_nat (length pass)] @ as_bytes pass)) (\<lambda>_.
              bindS (read_exact 2) (\<lambda>up_resp.
              bindS (liftS (idx up_resp 0)) (\<lambda>u0. bindS (liftS (idx up_resp 1)) (\<lambda>u1.
              if u0 \<noteq> 1 \<or> u1 \<noteq> 0 then bail AuthFailed else returnS ()))))
            else bail UnsupportedMethod))))
      | None \<Rightarrow>
          bindS (write_all [5, 1, 0]) (\<lambda>_.
          bindS (read_exact 2) (\<lambda>buf.
          if buf \<noteq> [5, 0] then bail AuthFailed else returnS ())))"

definition socks5_request_addr :: "Socks5Target \<Rightarrow> (Socks5Error, bytes) rres" where
  "socks5_request_addr target =
     (case target of
        TIp (SocketAddr (V4 ip) port) \<Rightarrow> Inr ([1] @ ipv4_octets ip @ port_bytes port)
      | TIp (SocketAddr (V6 ip) port) \<Rightarrow> Inr ([4] @ ipv6_octets ip @ port_bytes port)
      | TDomain host port \<Rightarrow>
          (let host_bytes = as_bytes host
           in if host_bytes = [] \<or> 255 < length host_bytes then Inl (Fail InvalidDomainLength)
              else Inr ([3, of_nat (length host_bytes)] @ host_bytes @ port_bytes port)))"

text \<open>The version, reply code and reserved byte of a reply; the result is the address type.\<close>

definition socks5_reply_head :: "byte stream_prog" where
  "socks5_reply_head =
     bindS (read_exact 4) (\<lambda>resp.
     bindS (liftS (idx resp 0)) (\<lambda>r0.
     if r0 \<noteq> 5 then bail BadVersion
     else bindS (liftS (idx resp 1)) (\<lambda>r1.
     if r1 \<noteq> 0 then bail (ReplyCode r1)
     else bindS (liftS (idx resp 2)) (\<lambda>r2.
     if r2 \<noteq> 0 then bail BadReserved
     else liftS (idx resp 3)))))"

definition socks5_connect_on :: "Socks5Target \<Rightarrow> (rstr \<times> rstr) option \<Rightarrow> unit stream_prog" where
  "socks5_connect_on target creds =
     bindS (socks5_auth creds) (\<lambda>_.
     bindS (liftS (socks5_request_addr target)) (\<lambda>addr.
     bindS (write_all ([5, 1, 0] @ addr)) (\<lambda>_.
     bindS socks5_reply_head (\<lambda>atyp.
     bindS (if atyp = 1 then returnS (4 + 2)
            else if atyp = 4 then returnS (16 + 2)
            else if atyp = 3 then
              bindS (read_exact 1) (\<lambda>l. bindS (liftS (idx l 0)) (\<lambda>n. returnS (unat n + 2)))
            else bail BadAddrType) (\<lambda>skip_len.
     bindS (read_exact skip_len) (\<lambda>dummy. returnS ()))))))"

definition socks5_connect ::
  "(SocketAddr \<Rightarrow> TcpStream option) \<Rightarrow> Socks5Target \<Rightarrow> SocketAddr \<Rightarrow> (rstr \<times> rstr) option \<Rightarrow>
   (Socks5Error, TcpStream) rres" where
  "socks5_connect connect_tcp_stream target socks5_addr creds =
     bindR (ok_or (connect_tcp_stream socks5_addr) ConnectFailed) (\<lambda>stream.
       case socks5_connect_on target creds stream of
         (Inl e, _) \<Rightarrow> Inl e
       | (Inr _, stream') \<Rightarrow> Inr stream')"

text \<open>The relay address of a UDP ASSOCIATE reply, by its address type.\<close>

definition socks5_read_relay ::
  "(rstr \<Rightarrow> u16 \<Rightarrow> SocketAddr list option) \<Rightarrow> byte \<Rightarrow> SocketAddr stream_prog" where
  "socks5_read_relay lookup_host atyp =
     (if atyp = 1 then
        bindS (read_exact 6) (\<lambda>buf.
        bindS (liftS (rng buf 0 4)) (\<lambda>ip.
        bindS (liftS (idx buf 4)) (\<lambda>x. bindS (liftS (idx buf 5)) (\<lambda>y.
        returnS (SocketAddr (V4 (ipv4_of_octets ip)) (u16_from_be_bytes x y))))))
      else if atyp = 4 then
        bindS (read_exact 18) (\<lambda>buf.
        bindS (liftS (rng buf 0 16)) (\<lambda>ip.
        bindS (liftS (idx buf 16)) (\<lambda>x. bindS (liftS (idx buf 17)) (\<lambda>y.
        returnS (SocketAddr (V6 (ipv6_of_octets ip)) (u16_from_be_bytes x y))))))
      else if atyp = 3 then
        bindS (read_exact 1) (\<lambda>l.
        bindS (liftS (idx l 0)) (\<lambda>n.
        let len = unat n in
        bindS (read_exact (len + 2)) (\<lambda>rest.
        bindS (liftS (rng rest 0 len)) (\<lambda>raw.
        bindS (liftS (ok_or (from_utf8 raw) BadRelayName)) (\<lambda>host.
        bindS (liftS (idx rest len)) (\<lambda>x. bindS (liftS (idx rest (len + 1))) (\<lambda>y.
        bindS (liftS (ok_or (lookup_host host (u16_from_be_bytes x y)) ResolveFailed)) (\<lambda>addrs.
        case addrs of [] \<Rightarrow> bail ResolveFailed | a # _ \<Rightarrow> returnS a))))))))
      else bail BadAddrType)"

definition socks5_udp_relay_addr ::
  "(rstr \<Rightarrow> u16 \<Rightarrow> SocketAddr list option) \<Rightarrow> SocketAddr \<Rightarrow> (rstr \<times> rstr) option \<Rightarrow> SocketAddr stream_prog" where
  "socks5_udp_relay_addr lookup_host socks5_addr creds =
     bindS (socks5_auth creds) (\<lambda>_.
     let req = (if is_ipv4 socks5_addr then [5, 3, 0, 1, 0, 0, 0, 0, 0, 0]
                else [5, 3, 0, 4] @ replicate 16 0 @ replicate 2 0) in
     bindS (write_all req) (\<lambda>_.
     bindS socks5_reply_head (\<lambda>atyp.
     bindS (socks5_read_relay lookup_host atyp) (\<lambda>relay_addr.
     returnS (if ip_is_unspecified (sa_ip relay_addr) then SocketAddr (sa_ip socks5_addr) (sa_port relay_addr)
              else relay_addr)))))"

record Socks5UdpAssoc =
  ua_control :: TcpStream
  ua_relay_addr :: SocketAddr

definition socks5_udp_associate_for_client ::
  "(SocketAddr \<Rightarrow> TcpStream option) \<Rightarrow> (rstr \<Rightarrow> u16 \<Rightarrow> SocketAddr list option) \<Rightarrow> (SocketAddr \<Rightarrow> bool) \<Rightarrow>
   SocketAddr \<Rightarrow> (rstr \<times> rstr) option \<Rightarrow> (Socks5Error, Socks5UdpAssoc) rres" where
  "socks5_udp_associate_for_client connect_tcp_stream lookup_host connect_direct_udp socks5_addr creds =
     bindR (ok_or (connect_tcp_stream socks5_addr) ConnectFailed) (\<lambda>control.
       case socks5_udp_relay_addr lookup_host socks5_addr creds control of
         (Inl e, _) \<Rightarrow> Inl e
       | (Inr relay_addr, control') \<Rightarrow>
           if connect_direct_udp relay_addr
           then Inr \<lparr>ua_control = control', ua_relay_addr = relay_addr\<rparr>
           else Inl (Fail UdpSocketFailed))"

section \<open>Octets\<close>

lemma ipv4_of_octets_octets [simp]: "ipv4_of_octets (ipv4_octets a) = a"
  using unat_lt2p [of a]
  by (simp add: ipv4_of_octets_def ipv4_octets_def be_nat_be_bytes)

lemma ipv6_of_octets_octets [simp]: "ipv6_of_octets (ipv6_octets a) = a"
  using unat_lt2p [of a]
  by (simp add: ipv6_of_octets_def ipv6_octets_def be_nat_be_bytes)

lemma length_octets [simp]:
  "length (ipv4_octets a) = 4" "length (ipv6_octets b) = 16" "length (port_bytes p) = 2"
  by (simp_all add: ipv4_octets_def ipv6_octets_def port_bytes_def)

lemma port_bytes_eq: "port_bytes p = [port_bytes p ! 0, port_bytes p ! 1]"
  by (rule nth_equalityI) (auto simp: less_Suc_eq numeral_2_eq_2)

lemma u16_from_port_bytes [simp]: "u16_from_be_bytes (port_bytes p ! 0) (port_bytes p ! 1) = p"
proof -
  have "u16_from_be_bytes (port_bytes p ! 0) (port_bytes p ! 1) = of_nat (be_nat (port_bytes p))"
    by (subst port_bytes_eq) (simp add: u16_from_be_bytes_def)
  then show ?thesis
    using unat_lt2p [of p] by (simp add: port_bytes_def be_nat_be_bytes)
qed

lemmas u16_from_port_bytes_Suc [simp] = u16_from_port_bytes [unfolded One_nat_def]

lemma list_of_4: "length xs = 4 \<Longrightarrow> [xs ! 0, xs ! 1, xs ! 2, xs ! 3] = xs"
  by (rule nth_equalityI) (auto simp: less_Suc_eq eval_nat_numeral)

section \<open>Packets\<close>

lemma safe_parse_socks5_udp_packet:
  "safe (\<lambda>(src, payload). suffix payload pkt) (parse_socks5_udp_packet_with_fallback_src pkt fb)"
  by (auto simp: parse_socks5_udp_packet_with_fallback_src_def Let_def sub_list_def suffix_drop idx_def)

lemma parse_socks5_udp_ip4:
  "parse_socks5_udp_packet_with_fallback_src ([0, 0, 0, 1] @ ipv4_octets ip @ port_bytes port @ payload) fb =
     Inr (SocketAddr (V4 ip) port, payload)"
proof -
  let ?o = "ipv4_octets ip" and ?p = "port_bytes port"
  have "?o = [?o ! 0, ?o ! 1, ?o ! 2, ?o ! 3]" by (rule list_of_4 [symmetric]) simp
  then have eq: "[0, 0, 0, 1] @ ?o @ ?p @ payload =
      [0, 0, 0, 1, ?o ! 0, ?o ! 1, ?o ! 2, ?o ! 3, ?p ! 0, ?p ! 1] @ payload"
    by (metis append.assoc append_Cons append_Nil port_bytes_eq)
  show ?thesis
    unfolding eq parse_socks5_udp_packet_with_fallback_src_def Let_def
    using list_of_4 [of ?o] u16_from_port_bytes [of port]
    by (simp add: sub_list_def idx_def eval_nat_numeral rng_def)
qed

lemma parse_socks5_udp_ip6:
  "parse_socks5_udp_packet_with_fallback_src ([0, 0, 0, 4] @ ipv6_octets ip @ port_bytes port @ payload) fb =
     Inr (SocketAddr (V6 ip) port, payload)"
proof -
  let ?pkt = "[0, 0, 0, 4] @ ipv6_octets ip @ port_bytes port @ payload"
  have r: "rng ?pkt 4 20 = Inr (ipv6_octets ip)" "idx ?pkt 20 = Inr (port_bytes port ! 0)"
      "idx ?pkt 21 = Inr (port_bytes port ! 1)" "rng ?pkt 22 (length ?pkt) = Inr payload"
    by (simp_all add: rng_def idx_def sub_list_def nth_append)
  have h: "idx ?pkt 0 = Inr 0" "idx ?pkt 1 = Inr 0" "idx ?pkt 2 = Inr 0" "idx ?pkt 3 = Inr 4"
      "\<not> length ?pkt < 22" "\<not> length ?pkt < 4"
    by (simp_all add: idx_def)
  show ?thesis
    unfolding parse_socks5_udp_packet_with_fallback_src_def Let_def h bindR_simps
    using h r by simp
qed

lemma parse_socks5_udp_domain:
  assumes "length host < 256"
  shows "parse_socks5_udp_packet_with_fallback_src
     ([0, 0, 0, 3, of_nat (length host)] @ as_bytes host @ port_bytes port @ payload) fb = Inr (fb, payload)"
proof -
  let ?pkt = "[0, 0, 0, 3, of_nat (length host)] @ as_bytes host @ port_bytes port @ payload"
  let ?n = "length host"
  have u: "unat (of_nat ?n :: byte) = ?n" using assms by (simp add: unat_of_nat)
  have h: "idx ?pkt 0 = Inr 0" "idx ?pkt 1 = Inr 0" "idx ?pkt 2 = Inr 0" "idx ?pkt 3 = Inr 3"
      "idx ?pkt 4 = Inr (of_nat ?n)" "\<not> length ?pkt < 4" "\<not> length ?pkt < 4 + 1"
      "\<not> length ?pkt < 4 + 1 + ?n + 2"
    by (simp_all add: idx_def)
  have r: "idx ?pkt (4 + 1 + ?n) = Inr (port_bytes port ! 0)" "idx ?pkt (4 + 1 + ?n + 1) = Inr (port_bytes port ! 1)"
    by (simp_all add: idx_def nth_append)
  have "rng ?pkt (4 + 1 + ?n + 2) (length ?pkt) = Inr payload"
    using sub_list_middle [of "7 + ?n" "[0, 0, 0, 3, of_nat ?n] @ as_bytes host @ port_bytes port"
        "length ?pkt" payload "[]"]
    by (simp add: rng_def)
  note r = r this
  show ?thesis
    unfolding parse_socks5_udp_packet_with_fallback_src_def Let_def h bindR_simps
    using h r by (simp add: u del: append.simps)
qed

section \<open>Stream programs\<close>

lemma bindS_simps [simp]:
  "m s = (Inr x, s') \<Longrightarrow> bindS m f s = f x s'"
  "m s = (Inl e, s') \<Longrightarrow> bindS m f s = (Inl e, s')"
  by (simp_all add: bindS_def)

lemma stream_prog_simps [simp]:
  "returnS x s = (Inr x, s)" "bail e s = (Inl (Fail e), s)" "liftS m s = (m, s)"
  by (simp_all add: returnS_def bail_def liftS_def)

lemma bindS_lift_Inr [simp]: "bindS (liftS (Inr x)) f = f x"
  by (rule ext) simp

definition safeS :: "('a \<Rightarrow> bool) \<Rightarrow> 'a stream_prog \<Rightarrow> bool" where
  "safeS P m \<longleftrightarrow> (\<forall>s. safe P (fst (m s)))"

lemma safeS_simps [simp]:
  "safeS P (returnS x) \<longleftrightarrow> P x" "safeS P (bail e)" "safeS P (liftS m) \<longleftrightarrow> safe P m"
  by (simp_all add: safeS_def)

lemma safeS_bindS:
  "safeS Q m \<Longrightarrow> (\<And>x. Q x \<Longrightarrow> safeS P (f x)) \<Longrightarrow> safeS P (bindS m f)"
  unfolding safeS_def
proof
  fix s
  assume "\<forall>s. safe Q (fst (m s))" and f: "\<And>x. Q x \<Longrightarrow> \<forall>s. safe P (fst (f x s))"
  then have "safe Q (fst (m s))" by simp
  with f show "safe P (fst (bindS m f s))"
    by (cases "m s"; cases "fst (m s)") (auto simp: bindS_def safe_def)
qed

lemma safeS_write_all: "safeS (\<lambda>_. True) (write_all bs)"
  by (simp add: safeS_def write_all_def split: nat.split)

lemma safeS_read_exact: "safeS (\<lambda>bs. length bs = n) (read_exact n)"
  by (simp add: safeS_def read_exact_def)

lemmas safeS_rules = safeS_bindS [OF safeS_write_all] safeS_bindS [OF safeS_read_exact]

lemma safeS_lift_idx: "i < length xs \<Longrightarrow> (\<And>x. safeS P (f x)) \<Longrightarrow> safeS P (bindS (liftS (idx xs i)) f)"
  by (rule safeS_bindS [where Q = "\<lambda>_. True"]) simp_all

lemma safeS_lift_any:
  "safe (\<lambda>_. True) m \<Longrightarrow> (\<And>x. safeS P (f x)) \<Longrightarrow> safeS P (bindS (liftS m) f)"
  by (rule safeS_bindS [where Q = "\<lambda>_. True"]) simp_all

lemma safeS_auth: "safeS (\<lambda>_. True) (socks5_auth creds)"
  unfolding socks5_auth_def
  by (auto intro!: safeS_rules safeS_lift_idx split: option.split)

lemma safeS_reply_head: "safeS (\<lambda>_. True) socks5_reply_head"
  unfolding socks5_reply_head_def
  by (auto intro!: safeS_rules safeS_lift_idx)

lemma safe_request_addr: "safe (\<lambda>_. True) (socks5_request_addr t)"
  by (auto simp: socks5_request_addr_def Let_def split: Socks5Target.split SocketAddr.split IpAddr.split)

lemma safeS_connect_on: "safeS (\<lambda>_. True) (socks5_connect_on target creds)"
  unfolding socks5_connect_on_def
  by (intro safeS_bindS [OF safeS_auth] safeS_lift_any safe_request_addr safeS_bindS [OF safeS_write_all]
      safeS_bindS [OF safeS_reply_head] safeS_bindS [where Q = "\<lambda>_ :: nat. True"])
    (auto intro!: safeS_rules safeS_lift_idx)

lemma safeS_read_relay: "safeS (\<lambda>_. True) (socks5_read_relay lookup_host atyp)"
  unfolding socks5_read_relay_def Let_def
  by (auto intro!: safeS_rules safeS_lift_idx safeS_lift_any split: list.split)

lemma safeS_relay_addr: "safeS (\<lambda>_. True) (socks5_udp_relay_addr lookup_host addr creds)"
  unfolding socks5_udp_relay_addr_def Let_def
  by (intro safeS_bindS [OF safeS_auth] safeS_bindS [OF safeS_write_all]
      safeS_bindS [OF safeS_reply_head] safeS_bindS [OF safeS_read_relay]) simp

section \<open>The protocol\<close>

text \<open>
  The messages of RFC 1928 and RFC 1929 for a given choice of credentials: what the client sends to
  authenticate, what an accepting server answers, and when credentials can be encoded.
\<close>

definition creds_ok :: "(rstr \<times> rstr) option \<Rightarrow> bool" where
  "creds_ok creds =
     (case creds of None \<Rightarrow> True
      | Some (u, p) \<Rightarrow> u \<noteq> [] \<and> length u \<le> 255 \<and> p \<noteq> [] \<and> length p \<le> 255)"

definition auth_hello :: "(rstr \<times> rstr) option \<Rightarrow> bytes" where
  "auth_hello creds = (case creds of None \<Rightarrow> [5, 1, 0] | Some _ \<Rightarrow> [5, 2, 0, 2])"

definition auth_secret :: "(rstr \<times> rstr) option \<Rightarrow> bytes" where
  "auth_secret creds =
     (case creds of None \<Rightarrow> []
      | Some (u, p) \<Rightarrow> [1, of_nat (length u)] @ as_bytes u @ [of_nat (length p)] @ as_bytes p)"

definition auth_accept :: "(rstr \<times> rstr) option \<Rightarrow> bytes" where
  "auth_accept creds = (case creds of None \<Rightarrow> [5, 0] | Some _ \<Rightarrow> [5, 2, 1, 0])"

definition auth_writes :: "(rstr \<times> rstr) option \<Rightarrow> nat" where
  "auth_writes creds = (case creds of None \<Rightarrow> 1 | Some _ \<Rightarrow> 2)"

lemmas auth_defs = creds_ok_def auth_hello_def auth_secret_def auth_accept_def auth_writes_def

lemma write_all_ok:
  "0 < ts_writes s \<Longrightarrow> write_all bs s = (Inr (), s\<lparr>ts_out := ts_out s @ bs, ts_writes := ts_writes s - 1\<rparr>)"
  by (simp add: write_all_def split: nat.split)

lemma read_exact_append:
  "ts_in s = bs @ rest \<Longrightarrow> n = length bs \<Longrightarrow> read_exact n s = (Inr bs, s\<lparr>ts_in := rest\<rparr>)"
  by (simp add: read_exact_def)

lemma socks5_auth_accepted:
  assumes "creds_ok creds" and "auth_writes creds \<le> ts_writes s" and "ts_in s = auth_accept creds @ rest"
  shows "socks5_auth creds s =
     (Inr (), s\<lparr>ts_in := rest, ts_out := ts_out s @ auth_hello creds @ auth_secret creds,
                 ts_writes := ts_writes s - auth_writes creds\<rparr>)"
proof (cases creds)
  case None
  then show ?thesis
    using assms
    by (simp add: socks5_auth_def auth_defs write_all_ok read_exact_def)
next
  case (Some up)
  then obtain u p where up: "creds = Some (u, p)" by (cases up) auto
  let ?s = "s\<lparr>ts_out := ts_out s @ [5, 2, 0, 2], ts_writes := ts_writes s - 1\<rparr>"
  let ?t = "?s\<lparr>ts_in := [1, 0] @ rest\<rparr>"
  let ?m = "[1, of_nat (length u)] @ as_bytes u @ [of_nat (length p)] @ as_bytes p"
  let ?v = "?t\<lparr>ts_out := ts_out ?t @ ?m, ts_writes := ts_writes ?t - 1\<rparr>"
  have "write_all [5, 2, 0, 2] s = (Inr (), ?s)" "write_all ?m ?t = (Inr (), ?v)"
    using assms(2) by (simp_all add: up auth_writes_def write_all_ok)
  moreover have "read_exact 2 ?s = (Inr [5, 2], ?t)" "read_exact 2 ?v = (Inr [1, 0], ?v\<lparr>ts_in := rest\<rparr>)"
    using assms(3) by (simp_all add: up auth_accept_def read_exact_def)
  ultimately show ?thesis
    using assms(1) by (simp add: socks5_auth_def up auth_defs idx_def not_less del: append.simps)
qed

lemma reply_head_accept:
  "ts_in s = [5, 0, 0] @ atyp # rest \<Longrightarrow> socks5_reply_head s = (Inr atyp, s\<lparr>ts_in := rest\<rparr>)"
  using read_exact_append [of s "[5, 0, 0, atyp]" rest 4]
  by (simp add: socks5_reply_head_def idx_def)

text \<open>The bound address of a reply is skipped to its last byte.\<close>

lemma skip_bound_addr:
  assumes "socks5_request_addr bound = Inr bs" and "ts_in s = [5, 0, 0] @ bs @ rest"
  shows "bindS socks5_reply_head (\<lambda>atyp.
     bindS (if atyp = 1 then returnS (4 + 2)
            else if atyp = 4 then returnS (16 + 2)
            else if atyp = 3 then
              bindS (read_exact 1) (\<lambda>l. bindS (liftS (idx l 0)) (\<lambda>n. returnS (unat n + 2)))
            else bail BadAddrType) (\<lambda>skip_len.
     bindS (read_exact skip_len) (\<lambda>dummy. returnS ()))) s = (Inr (), s\<lparr>ts_in := rest\<rparr>)"
proof -
  consider ip port where "bs = 1 # ipv4_octets ip @ port_bytes port"
    | ip port where "bs = 4 # ipv6_octets ip @ port_bytes port"
    | host port where "bs = 3 # of_nat (length host) # as_bytes host @ port_bytes port" "length host \<le> 255"
    using assms(1)
    by (auto simp: socks5_request_addr_def Let_def split: Socks5Target.splits SocketAddr.splits IpAddr.splits if_splits)
  then show ?thesis
  proof cases
    case (1 ip port)
    then show ?thesis
      using reply_head_accept [of s 1 "ipv4_octets ip @ port_bytes port @ rest"] assms(2)
      by (simp add: read_exact_def)
  next
    case (2 ip port)
    then show ?thesis
      using reply_head_accept [of s 4 "ipv6_octets ip @ port_bytes port @ rest"] assms(2)
      by (simp add: read_exact_def)
  next
    case (3 host port)
    then show ?thesis
      using reply_head_accept [of s 3 "of_nat (length host) # as_bytes host @ port_bytes port @ rest"] assms(2)
      by (simp add: read_exact_def idx_def unat_of_nat)
  qed
qed

lemma connect_on_accepted:
  assumes "creds_ok creds" and "auth_writes creds < ts_writes s"
    and "socks5_request_addr target = Inr addr" and "socks5_request_addr bound = Inr bs"
    and "ts_in s = auth_accept creds @ [5, 0, 0] @ bs @ rest"
  shows "socks5_connect_on target creds s =
     (Inr (), s\<lparr>ts_in := rest, ts_out := ts_out s @ auth_hello creds @ auth_secret creds @ [5, 1, 0] @ addr,
                 ts_writes := ts_writes s - auth_writes creds - 1\<rparr>)"
proof -
  let ?s = "s\<lparr>ts_in := [5, 0, 0] @ bs @ rest, ts_out := ts_out s @ auth_hello creds @ auth_secret creds,
    ts_writes := ts_writes s - auth_writes creds\<rparr>"
  let ?t = "?s\<lparr>ts_out := ts_out ?s @ [5, 1, 0] @ addr, ts_writes := ts_writes ?s - 1\<rparr>"
  have a: "socks5_auth creds s = (Inr (), ?s)"
    using socks5_auth_accepted [OF assms(1) _ assms(5)] assms(2) by simp
  have w: "write_all ([5, 1, 0] @ addr) ?s = (Inr (), ?t)"
    using assms(2) by (simp add: write_all_ok)
  have "socks5_connect_on target creds s = bindS socks5_reply_head (\<lambda>atyp.
     bindS (if atyp = 1 then returnS (4 + 2)
            else if atyp = 4 then returnS (16 + 2)
            else if atyp = 3 then
              bindS (read_exact 1) (\<lambda>l. bindS (liftS (idx l 0)) (\<lambda>n. returnS (unat n + 2)))
            else bail BadAddrType) (\<lambda>skip_len.
     bindS (read_exact skip_len) (\<lambda>dummy. returnS ()))) ?t"
    unfolding socks5_connect_on_def
    using a w by (simp only: bindS_def [of "socks5_auth creds"] assms(3) bindS_lift_Inr
        bindS_def [of "write_all ([5, 1, 0] @ addr)"] prod.case sum.case)
  also have "\<dots> = (Inr (), ?t\<lparr>ts_in := rest\<rparr>)"
    by (rule skip_bound_addr [OF assms(4)]) simp
  finally show ?thesis by simp
qed

lemma read_relay_ip:
  assumes "socks5_request_addr (TIp bound) = Inr (atyp # bs)" and "ts_in s = bs @ rest"
  shows "socks5_read_relay lookup_host atyp s = (Inr bound, s\<lparr>ts_in := rest\<rparr>)"
proof -
  obtain a port where bound: "bound = SocketAddr a port" by (cases bound)
  show ?thesis
  proof (cases a)
    case (V4 ip)
    let ?b = "ipv4_octets ip @ port_bytes port"
    have b: "atyp = 1" "bs = ?b" using assms(1) by (simp_all add: bound V4 socks5_request_addr_def)
    have "read_exact 6 s = (Inr ?b, s\<lparr>ts_in := rest\<rparr>)"
      by (rule read_exact_append) (simp_all add: assms(2) b)
    moreover have "rng ?b 0 4 = Inr (ipv4_octets ip)" "idx ?b 4 = Inr (port_bytes port ! 0)"
        "idx ?b 5 = Inr (port_bytes port ! 1)"
      by (simp_all add: rng_def idx_def sub_list_def nth_append)
    ultimately show ?thesis
      by (simp add: socks5_read_relay_def b(1) bound V4)
  next
    case (V6 ip)
    let ?b = "ipv6_octets ip @ port_bytes port"
    have b: "atyp = 4" "bs = ?b" using assms(1) by (simp_all add: bound V6 socks5_request_addr_def)
    have "read_exact 18 s = (Inr ?b, s\<lparr>ts_in := rest\<rparr>)"
      by (rule read_exact_append) (simp_all add: assms(2) b)
    moreover have "rng ?b 0 16 = Inr (ipv6_octets ip)" "idx ?b 16 = Inr (port_bytes port ! 0)"
        "idx ?b 17 = Inr (port_bytes port ! 1)"
      by (simp_all add: rng_def idx_def sub_list_def nth_append)
    ultimately show ?thesis
      by (simp add: socks5_read_relay_def b(1) bound V6)
  qed
qed

lemma relay_addr_accepted:
  assumes "creds_ok creds" and "auth_writes creds < ts_writes s"
    and "socks5_request_addr (TIp bound) = Inr (atyp # bs)"
    and "ts_in s = auth_accept creds @ [5, 0, 0] @ (atyp # bs) @ rest"
  shows "fst (socks5_udp_relay_addr lookup_host server creds s) =
     Inr (if ip_is_unspecified (sa_ip bound) then SocketAddr (sa_ip server) (sa_port bound) else bound)"
proof -
  let ?req = "if is_ipv4 server then [5, 3, 0, 1, 0, 0, 0, 0, 0, 0]
    else [5, 3, 0, 4] @ replicate 16 0 @ replicate 2 0"
  let ?s = "s\<lparr>ts_in := [5, 0, 0] @ (atyp # bs) @ rest, ts_out := ts_out s @ auth_hello creds @ auth_secret creds,
    ts_writes := ts_writes s - auth_writes creds\<rparr>"
  let ?t = "?s\<lparr>ts_out := ts_out ?s @ ?req, ts_writes := ts_writes ?s - 1\<rparr>"
  have a: "socks5_auth creds s = (Inr (), ?s)"
    using socks5_auth_accepted [OF assms(1) _ assms(4)] assms(2) by simp
  have w: "write_all ?req ?s = (Inr (), ?t)"
    using assms(2) by (intro write_all_ok) simp
  have h: "socks5_reply_head ?t = (Inr atyp, ?t\<lparr>ts_in := bs @ rest\<rparr>)"
    by (rule reply_head_accept) simp
  have r: "socks5_read_relay lookup_host atyp (?t\<lparr>ts_in := bs @ rest\<rparr>) =
      (Inr bound, ?t\<lparr>ts_in := bs @ rest, ts_in := rest\<rparr>)"
    by (rule read_relay_ip [OF assms(3)]) simp
  show ?thesis
    unfolding socks5_udp_relay_addr_def Let_def
    using a w h r by (simp only: bindS_def [of "socks5_auth creds"] bindS_def [of "write_all ?req"]
        bindS_def [of socks5_reply_head] bindS_def [of "socks5_read_relay lookup_host atyp"] prod.case sum.case
        stream_prog_simps fst_conv)
qed

section \<open>Properties\<close>

text \<open>
  C31: Decapsulation is the inverse of encapsulation: whatever packet \<open>build_socks5_udp_packet\<close>
  produces, the parser returns exactly the payload, with the encoded address as the source, or
  the fallback source when the address is a domain name; and building fails only for a domain
  name of length 0 or more than 255.
\<close>

theorem socks5_udp_roundtrip:
  "case build_socks5_udp_packet target payload of
     Inr pkt \<Rightarrow> parse_socks5_udp_packet_with_fallback_src pkt fb =
                 Inr ((case target of UIp addr \<Rightarrow> addr | UDomain _ _ \<Rightarrow> fb), payload)
   | Inl e \<Rightarrow> (case target of UIp _ \<Rightarrow> False | UDomain host _ \<Rightarrow> host = [] \<or> 255 < length host)"
proof (cases target)
  case (UIp addr)
  obtain a port where addr: "addr = SocketAddr a port" by (cases addr)
  show ?thesis
    using parse_socks5_udp_ip4 parse_socks5_udp_ip6
    by (cases a) (simp_all add: UIp addr build_socks5_udp_packet_def)
next
  case (UDomain host port)
  have "as_bytes host = [] \<longleftrightarrow> host = []" by (simp add: as_bytes_def)
  then show ?thesis
    using parse_socks5_udp_domain [of host port payload fb]
    by (simp add: UDomain build_socks5_udp_packet_def Let_def)
qed

text \<open>
  The parser of relayed UDP packets never panics, whatever a proxy sends, and the payload it
  returns is a suffix of the packet.
\<close>

theorem socks5_udp_parse_safe:
  "safe (\<lambda>(src, payload). suffix payload pkt) (parse_socks5_udp_packet_with_fallback_src pkt fallback_src)"
  by (rule safe_parse_socks5_udp_packet)

text \<open>
  C30: The TCP handshake. When the proxy accepts the authentication and answers the CONNECT request
  with any well-formed bound address (IPv4, IPv6 or a name), the connection is handed over with
  exactly the bytes after the reply still unread, so that no byte of the tunnelled stream is lost
  or mistaken; and what was sent is the method selection, the credentials when there are any, and
  the request for the target, in this order.
\<close>

theorem socks5_connect_handover:
  assumes "connect server = Some s" and "creds_ok creds" and "auth_writes creds < ts_writes s"
    and "socks5_request_addr target = Inr addr" and "socks5_request_addr bound = Inr bnd"
    and "ts_in s = auth_accept creds @ [5, 0, 0] @ bnd @ tunnelled"
  shows "\<exists>s'. socks5_connect connect target server creds = Inr s' \<and> ts_in s' = tunnelled \<and>
     ts_out s' = ts_out s @ auth_hello creds @ auth_secret creds @ [5, 1, 0] @ addr"
  using connect_on_accepted [OF assms(2-6)] assms(1) by (simp add: socks5_connect_def)

theorem socks5_connect_handover_witness:
  "\<exists>s'. socks5_connect (\<lambda>_. Some \<lparr>ts_in = [5, 2, 1, 0, 5, 0, 0, 3, 1, 97, 0, 80, 200, 201], ts_out = [],
            ts_writes = 9\<rparr>) (TDomain ''b.c'' 443) (SocketAddr (V4 1) 1080) (Some (''u'', ''pw'')) = Inr s' \<and>
        ts_in s' = [200, 201] \<and>
        ts_out s' = [5, 2, 0, 2, 1, 1, 117, 2, 112, 119, 5, 1, 0, 3, 3, 98, 46, 99, 1, 187]"
proof -
  let ?s = "\<lparr>ts_in = [5, 2, 1, 0, 5, 0, 0, 3, 1, 97, 0, 80, 200, 201], ts_out = [], ts_writes = 9\<rparr> :: TcpStream"
  have "\<exists>s'. socks5_connect (\<lambda>_. Some ?s) (TDomain ''b.c'' 443) (SocketAddr (V4 1) 1080) (Some (''u'', ''pw'')) = Inr s' \<and>
      ts_in s' = [200, 201] \<and> ts_out s' = ts_out ?s @ auth_hello (Some (''u'', ''pw'')) @
        auth_secret (Some (''u'', ''pw'')) @ [5, 1, 0] @ [3, 3, 98, 46, 99, 1, 187]"
  proof (rule socks5_connect_handover)
    show "socks5_request_addr (TDomain ''b.c'' 443) = Inr [3, 3, 98, 46, 99, 1, 187]" by code_simp
    show "socks5_request_addr (TDomain ''a'' 80) = Inr [3, 1, 97, 0, 80]" by code_simp
  qed (simp_all add: auth_defs)
  moreover have "auth_secret (Some (''u'', ''pw'')) = [1, 1, 117, 2, 112, 119]" by code_simp
  ultimately show ?thesis by (simp add: auth_hello_def)
qed

text \<open>
  C32: No handshake panics, whatever the proxy sends and wherever the connection breaks: CONNECT and
  UDP ASSOCIATE always end with a connection or an error.
\<close>

theorem socks5_handshakes_safe:
  "safe (\<lambda>_. True) (socks5_connect connect target server creds) \<and>
   safe (\<lambda>_. True) (socks5_udp_associate_for_client connect lookup_host connect_udp server creds)"
proof -
  have run: "safe P (case r of (Inl e, _) \<Rightarrow> Inl e | (Inr x, s') \<Rightarrow> f x s')"
    if "safe (\<lambda>_. True) (fst r)" "\<And>x s'. safe P (f x s')"
    for P and r :: "('e, 'x) rres \<times> TcpStream" and f :: "'x \<Rightarrow> TcpStream \<Rightarrow> ('e, 'y) rres"
    using that by (cases r; cases "fst r") (auto simp: safe_def)
  have ends: "safe (\<lambda>_. True) (fst (socks5_connect_on target creds s))"
      "safe (\<lambda>_. True) (fst (socks5_udp_relay_addr lookup_host server creds s))" for s
    using safeS_connect_on safeS_relay_addr by (simp_all add: safeS_def)
  show ?thesis
    unfolding socks5_connect_def socks5_udp_associate_for_client_def
    by (intro conjI safe_bindR_any run ends) simp_all
qed

text \<open>
  The relay address of a UDP association. When the proxy accepts and replies with an IP address,
  that address is used, except that an unspecified address (\<open>0.0.0.0\<close> or \<open>::\<close>) is replaced by
  the address of the proxy itself, with the port kept.
\<close>

theorem socks5_relay_address:
  assumes "connect server = Some s" and "creds_ok creds" and "auth_writes creds < ts_writes s"
    and "socks5_request_addr (TIp bound) = Inr (atyp # bnd)"
    and "ts_in s = auth_accept creds @ [5, 0, 0] @ (atyp # bnd) @ rest"
    and "\<forall>a. connect_udp a"
  shows "\<exists>assoc. socks5_udp_associate_for_client connect lookup_host connect_udp server creds = Inr assoc \<and>
     ua_relay_addr assoc =
       (if ip_is_unspecified (sa_ip bound) then SocketAddr (sa_ip server) (sa_port bound) else bound)"
  using relay_addr_accepted [OF assms(2-5), of lookup_host server] assms(1,6)
  by (cases "socks5_udp_relay_addr lookup_host server creds s")
    (simp add: socks5_udp_associate_for_client_def)

theorem socks5_relay_address_witness:
  "\<exists>assoc. socks5_udp_associate_for_client
       (\<lambda>_. Some \<lparr>ts_in = [5, 0, 5, 0, 0, 1, 0, 0, 0, 0, 4, 56], ts_out = [], ts_writes = 9\<rparr>)
       (\<lambda>_ _. None) (\<lambda>_. True) (SocketAddr (V4 0x0A000001) 1080) None = Inr assoc \<and>
     ua_relay_addr assoc = SocketAddr (V4 0x0A000001) 1080"
proof -
  let ?s = "\<lparr>ts_in = [5, 0, 5, 0, 0, 1, 0, 0, 0, 0, 4, 56], ts_out = [], ts_writes = 9\<rparr> :: TcpStream"
  let ?server = "SocketAddr (V4 0x0A000001) 1080" and ?bound = "SocketAddr (V4 0) 1080"
  have b: "socks5_request_addr (TIp ?bound) = Inr (1 # [0, 0, 0, 0, 4, 56])" by code_simp
  have "\<exists>assoc. socks5_udp_associate_for_client (\<lambda>_. Some ?s) (\<lambda>_ _. None) (\<lambda>_. True) ?server None = Inr assoc \<and>
      ua_relay_addr assoc =
        (if ip_is_unspecified (sa_ip ?bound) then SocketAddr (sa_ip ?server) (sa_port ?bound) else ?bound)"
    by (rule socks5_relay_address [OF refl _ _ b]) (simp_all add: auth_defs)
  then show ?thesis by simp
qed

end
