(* ===== verification/F64.thy ===== *)
theory F64
  imports Complex_Main "HOL-Library.Log_Nat"
begin

text \<open>
  IEEE 754 binary64 as Rust's \<open>f64\<close> uses it: finite values as rationals, the infinities and NaN
  (the sign of zero is not kept). Every arithmetic operation is the exact operation followed by the
  rounding \<open>rnd64\<close> to nearest, ties to even, with 53 bits of precision. The lemma the scoring
  proofs use is that no integer up to \<open>2^53\<close> is nearer to the exact result than the rounded one.
\<close>

datatype f64 = Fin rat | PInf | NInf | NaN

section \<open>Rounding\<close>

text \<open>The exponent of a positive rational: \<open>2^k \<le> x < 2^(k+1)\<close>.\<close>

definition flog2 :: "rat \<Rightarrow> int" where
  "flog2 x =
     (let (p, q) = quotient_of x; k = bitlen p - bitlen q
      in if 2 powi k \<le> x then k else k - 1)"

definition round_half_even :: "rat \<Rightarrow> int" where
  "round_half_even x =
     (let f = \<lfloor>x\<rfloor>; d = x - of_int f
      in if d < 1 / 2 then f else if 1 / 2 < d then f + 1 else if even f then f else f + 1)"

text \<open>The distance of neighbouring binary64 numbers around \<open>x\<close>.\<close>

definition ulp64 :: "rat \<Rightarrow> rat" where
  "ulp64 x = 2 powi (max (flog2 \<bar>x\<bar>) (- 1022) - 52)"

definition rnd_rat :: "rat \<Rightarrow> rat" where
  "rnd_rat x = (if x = 0 then 0 else of_int (round_half_even (x / ulp64 x)) * ulp64 x)"

definition rnd64 :: "rat \<Rightarrow> f64" where
  "rnd64 x =
     (let r = rnd_rat x
      in if 2 ^ 1024 \<le> r then PInf else if r \<le> - (2 ^ 1024) then NInf else Fin r)"

lemma flog2_bounds:
  assumes "0 < x"
  shows "2 powi (flog2 x) \<le> x" and "x < 2 powi (flog2 x + 1)"
proof -
  obtain p q where pq: "quotient_of x = (p, q)" by fastforce
  have q: "0 < q" by (rule quotient_of_denom_pos [OF pq])
  have x: "x = of_int p / of_int q" by (rule quotient_of_div [OF pq])
  have p: "0 < p" using assms q by (simp add: x zero_less_divide_iff)
  have nat_pow: "(2 :: rat) ^ nat k = 2 powi k" if "0 \<le> k" for k
    using that by (simp add: power_int_def)
  have bounds: "2 powi (bitlen a - 1) \<le> rat_of_int a" "rat_of_int a < 2 powi (bitlen a)" if "0 < a" for a
  proof -
    have b: "2 ^ nat (bitlen a - 1) \<le> a \<and> a < 2 ^ nat (bitlen a)" by (rule bitlen_bounds [OF that])
    have pos: "0 \<le> bitlen a - 1" "0 \<le> bitlen a"
      using bitlen_eq_zero_iff [of a] bitlen_nonneg [of a] that by simp_all
    have "rat_of_int (2 ^ nat (bitlen a - 1)) \<le> rat_of_int a" using b by (simp only: of_int_le_iff)
    then show "2 powi (bitlen a - 1) \<le> rat_of_int a" by (simp add: nat_pow [OF pos(1)])
    have "rat_of_int a < rat_of_int (2 ^ nat (bitlen a))" using b by (simp only: of_int_less_iff)
    then show "rat_of_int a < 2 powi (bitlen a)" by (simp add: nat_pow [OF pos(2)])
  qed
  let ?k = "bitlen p - bitlen q"
  have qpos: "0 < rat_of_int q" using q by simp
  have up: "x < 2 powi (?k + 1)"
  proof -
    have "x < 2 powi (bitlen p) / 2 powi (bitlen q - 1)"
      unfolding x using bounds(2) [OF p] bounds(1) [OF q] qpos p
      by (intro frac_less) auto
    also have "\<dots> = 2 powi (?k + 1)" by (simp add: power_int_diff power_int_add)
    finally show ?thesis .
  qed
  have low: "2 powi (?k - 1) \<le> x"
  proof -
    have "(2 :: rat) powi (?k - 1) = 2 powi (bitlen p - 1) / 2 powi (bitlen q)"
      by (simp add: power_int_diff)
    also have "\<dots> \<le> x"
      unfolding x using bounds(1) [OF p] bounds(2) [OF q] qpos p
      by (intro frac_le) auto
    finally show ?thesis .
  qed
  show "2 powi (flog2 x) \<le> x" "x < 2 powi (flog2 x + 1)"
    using up low by (auto simp: flog2_def pq Let_def)
qed

lemma round_half_even_nearest: "\<bar>of_int (round_half_even x) - x\<bar> \<le> \<bar>of_int n - x\<bar>"
proof -
  define f d where "f = \<lfloor>x\<rfloor>" and "d = x - of_int f"
  have x: "x = of_int f + d" "0 \<le> d" "d < 1"
    unfolding d_def f_def by linarith+
  have r: "of_int (round_half_even x) = rat_of_int f \<and> d \<le> 1 / 2 \<or>
      of_int (round_half_even x) = rat_of_int f + 1 \<and> 1 / 2 \<le> d"
    unfolding round_half_even_def Let_def f_def [symmetric] d_def [symmetric] by auto
  consider "rat_of_int n \<le> of_int f" | "of_int f + 1 \<le> rat_of_int n"
    by (metis linorder_not_le of_int_1 of_int_add of_int_le_iff zless_imp_add1_zle)
  then show ?thesis
    using r x by cases (elim disjE; simp add: abs_if)+
qed

lemma ulp64_pos: "0 < ulp64 x"
  by (simp add: ulp64_def)

lemma rnd_rat_nearest: "x \<noteq> 0 \<Longrightarrow> \<bar>rnd_rat x - x\<bar> \<le> \<bar>of_int n * ulp64 x - x\<bar>"
proof -
  assume "x \<noteq> 0"
  let ?u = "ulp64 x"
  have u: "0 < ?u" by (rule ulp64_pos)
  have scale: "\<bar>k * ?u - x\<bar> = \<bar>k - x / ?u\<bar> * ?u" for k
  proof -
    have "k * ?u - x = (k - x / ?u) * ?u" using u by (simp add: field_simps)
    then show ?thesis using u by (simp add: abs_mult)
  qed
  show ?thesis
    using round_half_even_nearest [of "x / ?u" n] u \<open>x \<noteq> 0\<close>
    by (simp add: rnd_rat_def scale)
qed

lemma rnd_rat_le_multiple: "x \<noteq> 0 \<Longrightarrow> x \<le> of_int n * ulp64 x \<Longrightarrow> rnd_rat x \<le> of_int n * ulp64 x"
  using rnd_rat_nearest [of x n] by linarith

lemma rnd_rat_ge_multiple: "x \<noteq> 0 \<Longrightarrow> of_int n * ulp64 x \<le> x \<Longrightarrow> of_int n * ulp64 x \<le> rnd_rat x"
  using rnd_rat_nearest [of x n] by linarith

text \<open>Small integers are multiples of the distance around anything below \<open>2^53\<close>.\<close>

lemma int_multiple_ulp64:
  assumes "flog2 \<bar>x\<bar> \<le> 52"
  shows "\<exists>k. of_int n = of_int k * ulp64 x"
proof -
  let ?e = "max (flog2 \<bar>x\<bar>) (- 1022)"
  have "of_int n = of_int (n * 2 ^ nat (52 - ?e)) * ulp64 x"
    using assms by (auto simp: ulp64_def power_int_def simp flip: power_mult_distrib)
  then show ?thesis by blast
qed

lemma power_multiple_ulp64:
  assumes "52 < flog2 \<bar>x\<bar>"
  shows "2 powi (flog2 \<bar>x\<bar>) = of_int (2 ^ 52) * ulp64 x"
  using assms by (simp add: ulp64_def power_int_diff)

lemma flog2_big: "52 < flog2 \<bar>x\<bar> \<Longrightarrow> x \<noteq> 0 \<Longrightarrow> 2 ^ 53 \<le> (2 :: rat) powi (flog2 \<bar>x\<bar>) \<and> 2 powi (flog2 \<bar>x\<bar>) \<le> \<bar>x\<bar>"
proof -
  assume *: "52 < flog2 \<bar>x\<bar>" "x \<noteq> 0"
  have "(2 :: rat) powi 53 \<le> 2 powi (flog2 \<bar>x\<bar>)"
    using * by (intro power_int_increasing) auto
  with flog2_bounds(1) [of "\<bar>x\<bar>"] * show ?thesis by simp
qed

lemma rnd_rat_le_int:
  assumes "x \<le> of_int n" and "\<bar>n\<bar> < 2 ^ 53"
  shows "rnd_rat x \<le> of_int n"
proof (cases "x = 0")
  case False
  show ?thesis
  proof (cases "flog2 \<bar>x\<bar> \<le> 52")
    case True
    from int_multiple_ulp64 [OF this] obtain k where k: "of_int n = of_int k * ulp64 x" by blast
    with rnd_rat_le_multiple [OF False, of k] assms(1) show ?thesis by simp
  next
    case big: False
    let ?z = "2 powi (flog2 \<bar>x\<bar>) :: rat"
    have z: "2 ^ 53 \<le> ?z" "?z \<le> \<bar>x\<bar>" using flog2_big [of x] big False by auto
    have n: "rat_of_int n < 2 ^ 53" "- (2 ^ 53) < rat_of_int n"
      using assms(2) by (metis abs_less_iff of_int_less_iff of_int_numeral of_int_power,
          metis abs_less_iff minus_less_iff of_int_less_iff of_int_minus of_int_numeral of_int_power)
    have "x \<le> - ?z" using z n assms(1) by linarith
    moreover have "- ?z = of_int (- (2 ^ 52)) * ulp64 x"
      using power_multiple_ulp64 [of x] big by simp
    ultimately have "rnd_rat x \<le> - ?z" using rnd_rat_le_multiple [OF False] by metis
    with z n show ?thesis by linarith
  qed
next
  case True
  with assms(1) show ?thesis by (simp add: rnd_rat_def)
qed

lemma rnd_rat_ge_int:
  assumes "of_int n \<le> x" and "\<bar>n\<bar> < 2 ^ 53"
  shows "of_int n \<le> rnd_rat x"
proof (cases "x = 0")
  case False
  show ?thesis
  proof (cases "flog2 \<bar>x\<bar> \<le> 52")
    case True
    from int_multiple_ulp64 [OF this] obtain k where k: "of_int n = of_int k * ulp64 x" by blast
    with rnd_rat_ge_multiple [OF False, of k] assms(1) show ?thesis by simp
  next
    case big: False
    let ?z = "2 powi (flog2 \<bar>x\<bar>) :: rat"
    have z: "2 ^ 53 \<le> ?z" "?z \<le> \<bar>x\<bar>" using flog2_big [of x] big False by auto
    have n: "rat_of_int n < 2 ^ 53" "- (2 ^ 53) < rat_of_int n"
      using assms(2) by (metis abs_less_iff of_int_less_iff of_int_numeral of_int_power,
          metis abs_less_iff minus_less_iff of_int_less_iff of_int_minus of_int_numeral of_int_power)
    have "?z \<le> x" using z n assms(1) by linarith
    then have "?z \<le> rnd_rat x"
      using rnd_rat_ge_multiple [OF False, of "2 ^ 52"] power_multiple_ulp64 [of x] big by simp
    with z n show ?thesis by linarith
  qed
next
  case True
  with assms(1) show ?thesis by (simp add: rnd_rat_def)
qed

corollary rnd_rat_int: "\<bar>n\<bar> < 2 ^ 53 \<Longrightarrow> rnd_rat (of_int n) = of_int n"
  using rnd_rat_le_int [of "of_int n" n] rnd_rat_ge_int [of n "of_int n"] by simp

lemma rnd64_between:
  assumes "of_int a \<le> x" and "x \<le> of_int b" and "\<bar>a\<bar> < 2 ^ 53" and "\<bar>b\<bar> < 2 ^ 53"
  shows "\<exists>r. rnd64 x = Fin r \<and> of_int a \<le> r \<and> r \<le> of_int b"
proof -
  have r: "of_int a \<le> rnd_rat x" "rnd_rat x \<le> of_int b"
    by (rule rnd_rat_ge_int [OF assms(1,3)], rule rnd_rat_le_int [OF assms(2,4)])
  define big :: rat where "big = 2 ^ 1024"
  have "(2 :: rat) ^ 53 \<le> 2 ^ 1024" by (rule power_increasing) simp_all
  then have big: "2 ^ 53 \<le> big" by (simp only: big_def)
  have "\<bar>rat_of_int a\<bar> < 2 ^ 53" "\<bar>rat_of_int b\<bar> < 2 ^ 53"
    using assms(3,4) by (metis of_int_abs of_int_less_iff of_int_numeral of_int_power)+
  with r big have "rnd_rat x < big" "- big < rnd_rat x" by linarith+
  with r show ?thesis unfolding rnd64_def Let_def big_def [symmetric] by auto
qed

section \<open>Monotonicity\<close>

lemma flog2_mono: "0 < x \<Longrightarrow> x \<le> y \<Longrightarrow> flog2 x \<le> flog2 y"
proof -
  assume "0 < x" "x \<le> y"
  then have "(2 :: rat) powi (flog2 x) < 2 powi (flog2 y + 1)"
    using flog2_bounds(1) [of x] flog2_bounds(2) [of y] by linarith
  moreover have "(2 :: rat) powi (flog2 y + 1) \<le> 2 powi (flog2 x)" if "flog2 y + 1 \<le> flog2 x"
    using that by (intro power_int_increasing) simp_all
  ultimately have "flog2 x < flog2 y + 1" by (meson not_less)
  then show ?thesis by simp
qed

lemma round_half_even_mono: "x \<le> y \<Longrightarrow> round_half_even x \<le> round_half_even y"
proof (rule ccontr)
  assume xy: "x \<le> y" and "\<not> round_half_even x \<le> round_half_even y"
  then have less: "round_half_even y + 1 \<le> round_half_even x" by simp
  then have less': "of_int (round_half_even y) + 1 \<le> rat_of_int (round_half_even x)"
    by (metis of_int_1 of_int_add of_int_le_iff)
  have "\<bar>of_int (round_half_even x) - x\<bar> \<le> \<bar>of_int (round_half_even y) - x\<bar>"
      "\<bar>of_int (round_half_even y) - y\<bar> \<le> \<bar>of_int (round_half_even x) - y\<bar>"
    by (rule round_half_even_nearest)+
  with less' xy have "x = y" by linarith
  with less show False by simp
qed

lemma rnd_rat_nonneg: "0 \<le> x \<Longrightarrow> 0 \<le> rnd_rat x"
  using rnd_rat_ge_int [of 0 x] by simp

lemma rnd_rat_mono:
  assumes "0 \<le> x" and "x \<le> y"
  shows "rnd_rat x \<le> rnd_rat y"
proof (cases "x = 0")
  case True
  then show ?thesis using rnd_rat_nonneg [of y] assms by (simp add: rnd_rat_def)
next
  case False
  then have pos: "0 < x" "0 < y" using assms by auto
  let ?ex = "max (flog2 x) (- 1022)" and ?ey = "max (flog2 y) (- 1022)"
  show ?thesis
  proof (cases "?ex = ?ey")
    case True
    then have "ulp64 x = ulp64 y" using pos by (simp add: ulp64_def)
    then show ?thesis
      using pos assms round_half_even_mono [of "x / ulp64 y" "y / ulp64 y"] ulp64_pos [of y]
      by (simp add: rnd_rat_def divide_right_mono)
  next
    case False
    with flog2_mono [OF pos(1) assms(2)] have less: "?ex < ?ey" "?ey = flog2 y" by auto
    have x: "x \<le> 2 powi (?ex + 1)"
    proof -
      have "x < 2 powi (flog2 x + 1)" by (rule flog2_bounds(2) [OF pos(1)])
      also have "\<dots> \<le> 2 powi (?ex + 1)" by (intro power_int_increasing) auto
      finally show ?thesis by simp
    qed
    have ux: "2 powi (?ex + 1) = of_int (2 ^ 53) * ulp64 x" and uy: "2 powi ?ey = of_int (2 ^ 52) * ulp64 y"
      using pos by (simp_all add: ulp64_def power_int_diff power_int_add)
    have "rnd_rat x \<le> 2 powi (?ex + 1)"
      using rnd_rat_le_multiple [of x "2 ^ 53"] pos x ux by simp
    also have "\<dots> \<le> 2 powi ?ey"
      using less(1) by (intro power_int_increasing) auto
    also have "\<dots> \<le> rnd_rat y"
      using rnd_rat_ge_multiple [of y "2 ^ 52"] pos uy flog2_bounds(1) [OF pos(2)] less(2) by simp
    finally show ?thesis .
  qed
qed

section \<open>Operations\<close>

definition f64_is_finite :: "f64 \<Rightarrow> bool" where
  "f64_is_finite x = (case x of Fin _ \<Rightarrow> True | _ \<Rightarrow> False)"

definition f64_is_nan :: "f64 \<Rightarrow> bool" where
  "f64_is_nan x \<longleftrightarrow> x = NaN"

text \<open>The comparisons \<open>x < y\<close> and \<open>x <= y\<close>: false when an operand is NaN.\<close>

fun f64_less :: "f64 \<Rightarrow> f64 \<Rightarrow> bool" where
  "f64_less (Fin a) (Fin b) = (a < b)"
| "f64_less NInf (Fin _) = True"
| "f64_less NInf PInf = True"
| "f64_less (Fin _) PInf = True"
| "f64_less _ _ = False"

fun f64_le :: "f64 \<Rightarrow> f64 \<Rightarrow> bool" where
  "f64_le (Fin a) (Fin b) = (a \<le> b)"
| "f64_le NaN _ = False"
| "f64_le _ NaN = False"
| "f64_le NInf _ = True"
| "f64_le _ PInf = True"
| "f64_le _ _ = False"

fun f64_neg :: "f64 \<Rightarrow> f64" where
  "f64_neg (Fin a) = Fin (- a)"
| "f64_neg PInf = NInf"
| "f64_neg NInf = PInf"
| "f64_neg NaN = NaN"

fun f64_add :: "f64 \<Rightarrow> f64 \<Rightarrow> f64" where
  "f64_add (Fin a) (Fin b) = rnd64 (a + b)"
| "f64_add NaN _ = NaN"
| "f64_add _ NaN = NaN"
| "f64_add PInf NInf = NaN"
| "f64_add NInf PInf = NaN"
| "f64_add PInf _ = PInf"
| "f64_add _ PInf = PInf"
| "f64_add NInf _ = NInf"
| "f64_add _ NInf = NInf"

definition f64_sub :: "f64 \<Rightarrow> f64 \<Rightarrow> f64" where
  "f64_sub x y = f64_add x (f64_neg y)"

definition f64_sign :: "f64 \<Rightarrow> rat" where
  "f64_sign x = (case x of Fin a \<Rightarrow> sgn a | PInf \<Rightarrow> 1 | NInf \<Rightarrow> - 1 | NaN \<Rightarrow> 0)"

definition signed_inf :: "rat \<Rightarrow> f64" where
  "signed_inf s = (if 0 < s then PInf else if s < 0 then NInf else NaN)"

definition f64_mul :: "f64 \<Rightarrow> f64 \<Rightarrow> f64" where
  "f64_mul x y =
     (case (x, y) of
        (Fin a, Fin b) \<Rightarrow> rnd64 (a * b)
      | (NaN, _) \<Rightarrow> NaN
      | (_, NaN) \<Rightarrow> NaN
      | _ \<Rightarrow> signed_inf (f64_sign x * f64_sign y))"

text \<open>A zero divisor counts as positive zero.\<close>

definition f64_div :: "f64 \<Rightarrow> f64 \<Rightarrow> f64" where
  "f64_div x y =
     (case (x, y) of
        (Fin a, Fin b) \<Rightarrow> if b = 0 then signed_inf (sgn a) else rnd64 (a / b)
      | (NaN, _) \<Rightarrow> NaN
      | (_, NaN) \<Rightarrow> NaN
      | (Fin _, _) \<Rightarrow> Fin 0
      | (_, Fin b) \<Rightarrow> signed_inf (f64_sign x * (if b = 0 then 1 else sgn b))
      | _ \<Rightarrow> NaN)"

text \<open>\<open>f64::max\<close> (a NaN operand is ignored) and \<open>f64::clamp\<close> (NaN stays NaN).\<close>

definition f64_max :: "f64 \<Rightarrow> f64 \<Rightarrow> f64" where
  "f64_max x y = (if x = NaN then y else if y = NaN then x else if f64_less x y then y else x)"

definition f64_clamp :: "f64 \<Rightarrow> f64 \<Rightarrow> f64 \<Rightarrow> f64" where
  "f64_clamp x lo hi = (if f64_less x lo then lo else if f64_less hi x then hi else x)"

text \<open>\<open>as u32\<close> and \<open>as u64\<close> truncate toward zero and saturate; NaN gives 0.\<close>

definition f64_as_nat :: "nat \<Rightarrow> f64 \<Rightarrow> nat" where
  "f64_as_nat cap x =
     (case x of
        Fin a \<Rightarrow> if a \<le> 0 then 0 else min (nat \<lfloor>a\<rfloor>) cap
      | PInf \<Rightarrow> cap
      | NInf \<Rightarrow> 0
      | NaN \<Rightarrow> 0)"

definition f64_as_u32 :: "f64 \<Rightarrow> nat" where
  "f64_as_u32 = f64_as_nat (2 ^ 32 - 1)"

definition f64_as_u64 :: "f64 \<Rightarrow> nat" where
  "f64_as_u64 = f64_as_nat (2 ^ 64 - 1)"

text \<open>\<open>n as f64\<close> for an unsigned \<open>n\<close>.\<close>

definition f64_of_nat :: "nat \<Rightarrow> f64" where
  "f64_of_nat n = rnd64 (of_nat n)"

text \<open>\<open>f64::round\<close>: half away from zero.\<close>

definition f64_round :: "f64 \<Rightarrow> f64" where
  "f64_round x =
     (case x of
        Fin a \<Rightarrow> Fin (if 0 \<le> a then of_int \<lfloor>a + 1 / 2\<rfloor> else - of_int \<lfloor>- a + 1 / 2\<rfloor>)
      | y \<Rightarrow> y)"

lemma f64_of_nat_exact: "n < 2 ^ 53 \<Longrightarrow> f64_of_nat n = Fin (of_nat n)"
proof -
  assume n: "n < 2 ^ 53"
  have "\<bar>int n\<bar> < 2 ^ 53" using n by (metis abs_of_nat of_nat_less_iff of_nat_numeral of_nat_power)
  then obtain r where "rnd64 (of_int (int n)) = Fin r" "of_int (int n) \<le> r" "r \<le> of_int (int n)"
    using rnd64_between [of "int n" "of_int (int n)" "int n"] by auto
  then show ?thesis by (simp add: f64_of_nat_def)
qed

lemma f64_as_nat_le: "f64_as_nat cap x \<le> cap"
  by (auto simp: f64_as_nat_def split: f64.split)

lemma f64_as_nat_le_int: "f64_le x (Fin (of_nat n)) \<Longrightarrow> f64_as_nat cap x \<le> n"
proof (cases x)
  case (Fin a)
  assume "f64_le x (Fin (of_nat n))"
  then have "\<lfloor>a\<rfloor> \<le> int n" by (simp add: Fin floor_le_iff)
  then show ?thesis by (simp add: f64_as_nat_def Fin min_le_iff_disj nat_le_iff)
qed (simp_all add: f64_as_nat_def)

lemma f64_as_nat_ge_int: "f64_le (Fin (of_nat n)) x \<Longrightarrow> n \<le> cap \<Longrightarrow> n \<le> f64_as_nat cap x"
proof (cases x)
  case (Fin a)
  assume *: "f64_le (Fin (of_nat n)) x" "n \<le> cap"
  then have "int n \<le> \<lfloor>a\<rfloor>" by (simp add: Fin le_floor_iff)
  then show ?thesis using * by (auto simp: f64_as_nat_def Fin)
qed (simp_all add: f64_as_nat_def)

section \<open>Monotone operations on non-negative values\<close>

text \<open>Non-negative values: a number that is at least 0, or positive infinity.\<close>

definition f64_nonneg :: "f64 \<Rightarrow> bool" where
  "f64_nonneg x = f64_le (Fin 0) x"

text \<open>A decimal literal of the source.\<close>

definition f64_lit :: "rat \<Rightarrow> f64" where
  "f64_lit q = rnd64 q"

lemma f64_nonneg_cases:
  assumes "f64_nonneg x"
  obtains (fin) a where "x = Fin a" "0 \<le> a" | (inf) "x = PInf"
  using assms by (cases x) (auto simp: f64_nonneg_def)

lemma f64_le_refl [simp]: "f64_nonneg x \<Longrightarrow> f64_le x x"
  by (elim f64_nonneg_cases) simp_all

lemma f64_le_trans: "f64_le x y \<Longrightarrow> f64_le y z \<Longrightarrow> f64_le x z"
  by (cases x; cases y; cases z) auto

lemma f64_less_le_trans: "f64_less x y \<Longrightarrow> f64_le y z \<Longrightarrow> f64_less x z"
  by (cases x; cases y; cases z) auto

lemma f64_not_le: "x \<noteq> NaN \<Longrightarrow> y \<noteq> NaN \<Longrightarrow> \<not> f64_le x y \<longleftrightarrow> f64_less y x"
  by (cases x; cases y) auto

lemma f64_less_imp_le: "f64_less x y \<Longrightarrow> f64_le x y"
  by (cases x; cases y) auto

lemma rnd64_mono: "0 \<le> x \<Longrightarrow> x \<le> y \<Longrightarrow> f64_le (rnd64 x) (rnd64 y)"
  using rnd_rat_mono [of x y] rnd_rat_nonneg [of x] rnd_rat_nonneg [of y]
  by (auto simp: rnd64_def Let_def)

lemma rnd64_nonneg: "0 \<le> x \<Longrightarrow> f64_nonneg (rnd64 x)"
  using rnd_rat_nonneg [of x] by (auto simp: rnd64_def Let_def f64_nonneg_def)

lemma f64_nonneg_le_PInf [simp]: "f64_nonneg x \<Longrightarrow> f64_le x PInf"
  by (elim f64_nonneg_cases) simp_all

lemma f64_as_nat_mono: "f64_le x y \<Longrightarrow> f64_as_nat cap x \<le> f64_as_nat cap y"
proof (cases x; cases y)
  fix a b assume "f64_le x y" "x = Fin a" "y = Fin b"
  moreover from this have "nat \<lfloor>a\<rfloor> \<le> nat \<lfloor>b\<rfloor>" by (simp add: floor_mono nat_mono)
  ultimately show ?thesis by (auto simp: f64_as_nat_def)
qed (simp_all add: f64_as_nat_def)

lemma f64_mul_nonneg: "f64_nonneg x \<Longrightarrow> 0 < c \<Longrightarrow> f64_nonneg (f64_mul x (Fin c))"
  by (elim f64_nonneg_cases)
    (simp_all add: f64_mul_def rnd64_nonneg signed_inf_def f64_sign_def f64_nonneg_def [of PInf])

lemma f64_div_nonneg: "f64_nonneg x \<Longrightarrow> 0 < c \<Longrightarrow> f64_nonneg (f64_div x (Fin c))"
  by (elim f64_nonneg_cases)
    (simp_all add: f64_div_def rnd64_nonneg signed_inf_def f64_sign_def f64_nonneg_def [of PInf])

lemma f64_nonneg_mono: "f64_nonneg x \<Longrightarrow> f64_le x y \<Longrightarrow> f64_nonneg y"
  unfolding f64_nonneg_def by (rule f64_le_trans)

lemma f64_le_cases:
  assumes "f64_le (Fin l) x" and "f64_le x y"
  obtains (fin) a b where "x = Fin a" "y = Fin b" "l \<le> a" "a \<le> b" | (inf) "y = PInf"
  using assms by (cases x; cases y) auto

lemma f64_mul_mono:
  assumes "f64_nonneg x" and "f64_le x y" and "0 < c"
  shows "f64_le (f64_mul x (Fin c)) (f64_mul y (Fin c))"
  using assms(1) [unfolded f64_nonneg_def] assms(2)
proof (cases rule: f64_le_cases)
  case (fin a b)
  with assms(3) show ?thesis by (simp add: f64_mul_def rnd64_mono mult_right_mono)
next
  case inf
  with assms show ?thesis using f64_mul_nonneg [OF assms(1,3)] by (simp add: f64_mul_def [of PInf] signed_inf_def f64_sign_def)
qed

lemma f64_div_mono:
  assumes "f64_nonneg x" and "f64_le x y" and "0 < c"
  shows "f64_le (f64_div x (Fin c)) (f64_div y (Fin c))"
  using assms(1) [unfolded f64_nonneg_def] assms(2)
proof (cases rule: f64_le_cases)
  case (fin a b)
  with assms(3) show ?thesis by (simp add: f64_div_def rnd64_mono divide_right_mono)
next
  case inf
  with assms show ?thesis using f64_div_nonneg [OF assms(1,3)] by (simp add: f64_div_def [of PInf] signed_inf_def f64_sign_def)
qed

lemma f64_sub_nonneg: "f64_le (Fin c) x \<Longrightarrow> f64_nonneg (f64_sub x (Fin c))"
  by (cases x) (simp_all add: f64_sub_def rnd64_nonneg f64_nonneg_def [of PInf])

lemma f64_sub_mono:
  assumes "f64_le (Fin c) x" and "f64_le x y"
  shows "f64_le (f64_sub x (Fin c)) (f64_sub y (Fin c))"
  using assms
proof (cases rule: f64_le_cases)
  case (fin a b)
  then show ?thesis by (simp add: f64_sub_def rnd64_mono)
next
  case inf
  with assms show ?thesis using f64_sub_nonneg [OF assms(1)] by (simp add: f64_sub_def)
qed

lemma f64_of_nat_nonneg [simp]: "f64_nonneg (f64_of_nat n)"
  by (simp add: f64_of_nat_def rnd64_nonneg)

lemma f64_of_nat_mono: "m \<le> n \<Longrightarrow> f64_le (f64_of_nat m) (f64_of_nat n)"
  by (simp add: f64_of_nat_def rnd64_mono)

lemma f64_round_mono: "f64_nonneg x \<Longrightarrow> f64_le x y \<Longrightarrow> f64_le (f64_round x) (f64_round y)"
  by (cases x; cases y) (auto simp: f64_round_def f64_nonneg_def intro!: floor_mono)

end
