(* ===== verification/Config_Data.thy ===== *)
theory Config_Data
  imports F64 Net_Addr
begin

text \<open>
  The configuration of \<open>cli.rs\<close>: the enumerations, the upstream and port-forward entries, and
  \<open>Config\<close> itself. The struct is flat in the source; here it is built in five record
  extensions, one per section of the struct, so that every field is still a field of
  \<open>Config\<close>. Maps of the configuration are hash maps, given as the list of their entries in
  iteration order. Sizes, seconds and counters are natural numbers.
\<close>

section \<open>Enumerations\<close>

datatype PortForwardProto = Tcp | Udp | Both

datatype ProxyMode = Smart | Global | Bypass

fun proxy_mode_next :: "ProxyMode \<Rightarrow> ProxyMode" where
  "proxy_mode_next Smart = Global"
| "proxy_mode_next Global = Bypass"
| "proxy_mode_next Bypass = Smart"

fun proxy_mode_as_u8 :: "ProxyMode \<Rightarrow> u8" where
  "proxy_mode_as_u8 Smart = 0"
| "proxy_mode_as_u8 Global = 1"
| "proxy_mode_as_u8 Bypass = 2"

definition proxy_mode_from_u8 :: "u8 \<Rightarrow> ProxyMode" where
  "proxy_mode_from_u8 v = (if v = 1 then Global else if v = 2 then Bypass else Smart)"

datatype QuicSniffMode = QNone | BestEffort | FullMode

lemma proxy_mode_roundtrip [simp]: "proxy_mode_from_u8 (proxy_mode_as_u8 m) = m"
  by (cases m) (simp_all add: proxy_mode_from_u8_def)

section \<open>Entries\<close>

record PortForward =
  pf_name :: "rstr option"
  pf_bind :: rstr
  pf_remote :: rstr
  pf_network :: PortForwardProto

record UpstreamConfig =
  uc_id :: rstr
  uc_addr :: SocketAddr
  uc_groups :: "rstr list option"
  uc_gain :: f64

section \<open>The configuration\<close>

record ConfigNet =
  c_listen :: rstr
  c_udp :: bool
  c_socks5_user :: "rstr option"
  c_socks5_password :: "rstr option"
  c_fwmark :: nat
  c_mmdb_path :: "rstr option"
  c_udp_session_timeout_secs :: nat
  c_connect_timeout_secs :: nat
  c_splice :: bool
  c_tcp_nodelay :: bool
  c_half_close_timeout :: nat
  c_sniff_tls_sni :: bool
  c_sniff_http_host :: bool
  c_quic_sniff_mode :: QuicSniffMode
  c_quic_sniff_pending_timeout_ms :: nat
  c_socks5_udp_reply_watchdog_secs :: nat

record ConfigSniff = ConfigNet +
  c_tcp_peek_buffer_size :: nat
  c_tls_sniff_peek_len :: nat
  c_tls_sniff_max_len :: nat
  c_tls_sniff_max_retries :: nat
  c_tls_sniff_wait_more_ms :: nat
  c_tls_sniff_timeout_ms :: nat
  c_http_sniff_peek_len :: nat
  c_http_sniff_max_len :: nat
  c_http_sniff_max_retries :: nat
  c_http_sniff_wait_more_ms :: nat
  c_http_sniff_timeout_ms :: nat
  c_log_level :: "rstr option"

record ConfigRules = ConfigSniff +
  c_direct_countries :: "rstr list"
  c_force_direct_domains :: "rstr list"
  c_force_socks5_domains :: "rstr list"
  c_force_direct_ips :: "rstr list"
  c_force_socks5_ips :: "rstr list"
  c_force_direct_ips_file :: "rstr option"
  c_force_socks5_ips_file :: "rstr option"
  c_port_forward :: "PortForward list"
  c_direct_local_ip :: bool

record ConfigUpstream = ConfigRules +
  c_upstream :: "UpstreamConfig list"
  c_disable_upstream_score :: bool
  c_upstream_switch_tolerance :: nat
  c_health_check_interval_secs :: nat
  c_health_check_timeout_secs :: nat
  c_health_check_fail_threshold :: nat
  c_health_check_url :: rstr
  c_quic_weight :: nat
  c_quic_stale_secs :: nat
  c_enable_relative_scoring :: bool
  c_relative_rescore_interval_secs :: nat
  c_upstream_score_debug_interval_secs :: nat
  c_pick_stats_window_secs :: nat

record Config = ConfigUpstream +
  c_proxy_mode :: ProxyMode
  c_geosite_path :: "rstr option"
  c_proxy_geosite_tags :: "rstr list"
  c_direct_geosite_tags :: "rstr list"
  c_client_routes :: "(rstr \<times> rstr) list"
  c_client_domain_routes :: "(rstr \<times> (rstr \<times> rstr) list) list"
  c_client_dst_ip_routes :: "(rstr \<times> (rstr \<times> rstr) list) list"
  c_route_cache_ttl_secs :: nat
  c_route_cache_max :: nat

text \<open>
  The configuration of a file that sets nothing but its upstreams: every field at the value of
  its \<open>default_*\<close> function.
\<close>

definition default_config :: "UpstreamConfig list \<Rightarrow> Config" where
  "default_config ups =
     \<lparr>c_listen = ''[::]:10810'', c_udp = True, c_socks5_user = None, c_socks5_password = None,
      c_fwmark = 2, c_mmdb_path = None, c_udp_session_timeout_secs = 120,
      c_connect_timeout_secs = 20, c_splice = False, c_tcp_nodelay = True,
      c_half_close_timeout = 600, c_sniff_tls_sni = False, c_sniff_http_host = False,
      c_quic_sniff_mode = QNone, c_quic_sniff_pending_timeout_ms = 200,
      c_socks5_udp_reply_watchdog_secs = 31,
      c_tcp_peek_buffer_size = 32 * 1024, c_tls_sniff_peek_len = 2048,
      c_tls_sniff_max_len = 32 * 1024, c_tls_sniff_max_retries = 5,
      c_tls_sniff_wait_more_ms = 100, c_tls_sniff_timeout_ms = 1000,
      c_http_sniff_peek_len = 512, c_http_sniff_max_len = 16 * 1024,
      c_http_sniff_max_retries = 5, c_http_sniff_wait_more_ms = 100,
      c_http_sniff_timeout_ms = 1000, c_log_level = None,
      c_direct_countries = [''CN''], c_force_direct_domains = [], c_force_socks5_domains = [],
      c_force_direct_ips = [], c_force_socks5_ips = [], c_force_direct_ips_file = None,
      c_force_socks5_ips_file = None, c_port_forward = [], c_direct_local_ip = True,
      c_upstream = ups, c_disable_upstream_score = False, c_upstream_switch_tolerance = 0,
      c_health_check_interval_secs = 0, c_health_check_timeout_secs = 5,
      c_health_check_fail_threshold = 2, c_health_check_url = ''cp.cloudflare.com'',
      c_quic_weight = 40, c_quic_stale_secs = 180, c_enable_relative_scoring = False,
      c_relative_rescore_interval_secs = 2, c_upstream_score_debug_interval_secs = 0,
      c_pick_stats_window_secs = 0,
      c_proxy_mode = Smart, c_geosite_path = None, c_proxy_geosite_tags = [],
      c_direct_geosite_tags = [], c_client_routes = [], c_client_domain_routes = [],
      c_client_dst_ip_routes = [], c_route_cache_ttl_secs = 5, c_route_cache_max = 4096\<rparr>"

lemmas config_defs =
  ConfigNet.defs ConfigSniff.defs ConfigRules.defs ConfigUpstream.defs Config.defs

definition socks5_credentials :: "('a ConfigNet_scheme) \<Rightarrow> (rstr \<times> rstr) option" where
  "socks5_credentials c =
     (case (c_socks5_user c, c_socks5_password c) of
        (Some u, Some p) \<Rightarrow> Some (u, p)
      | _ \<Rightarrow> None)"

end
