(* ===== verification/Specific_Match.thy ===== *)
theory Specific_Match
  imports Xtp_Prelude
begin

text \<open>
  The interface of every routing table of the program: a list of entries sorted by falling
  specificity (prefix length of a network, length of a domain suffix) that is searched front to
  back. The locale \<open>most_specific\<close> states the contract once; the domain tables and the
  CIDR tables interpret it on their own lookup functions.
\<close>

text \<open>\<open>sort_by_key(|e| Reverse(key(e)))\<close> is a stable sort by falling key.\<close>

definition sort_by_key_rev :: "('e \<Rightarrow> nat) \<Rightarrow> 'e list \<Rightarrow> 'e list" where
  "sort_by_key_rev key es = sort_key (\<lambda>e. - int (key e)) es"

definition falling :: "('e \<Rightarrow> nat) \<Rightarrow> 'e list \<Rightarrow> bool" where
  "falling key es \<longleftrightarrow> sorted_wrt (\<lambda>a b. key b \<le> key a) es"

lemma set_sort_by_key_rev [simp]: "set (sort_by_key_rev key es) = set es"
  by (simp add: sort_by_key_rev_def)

lemma falling_sort_by_key_rev [simp]: "falling key (sort_by_key_rev key es)"
proof -
  have "sorted (map (\<lambda>e. - int (key e)) (sort_by_key_rev key es))"
    by (simp add: sort_by_key_rev_def)
  then show ?thesis
    by (simp add: falling_def sorted_wrt_map)
qed

lemma sort_by_key_rev_stable:
  "filter (\<lambda>e. key e = k) (sort_by_key_rev key es) = filter (\<lambda>e. key e = k) es"
  using sort_key_stable [of "\<lambda>e. - int (key e)" "- int k" es]
  by (simp add: sort_by_key_rev_def)

lemma find_falling_max:
  assumes "falling key es" "find P es = Some e" "e' \<in> set es" "P e'"
  shows "key e' \<le> key e"
  using assms
proof (induction es)
  case (Cons x es)
  then show ?case by (auto simp: falling_def split: if_splits)
qed simp

locale most_specific =
  fixes weight :: "'e \<Rightarrow> nat"
    and hits :: "'q \<Rightarrow> 'e \<Rightarrow> bool"
    and search :: "'e list \<Rightarrow> 'q \<Rightarrow> 'e option"
  assumes search_first: "search es q = find (hits q) es"
begin

lemma search_Some:
  assumes "falling weight es" and "search es q = Some e"
  shows "e \<in> set es" and "hits q e"
    and "\<And>e'. e' \<in> set es \<Longrightarrow> hits q e' \<Longrightarrow> weight e' \<le> weight e"
  using assms find_falling_max [of weight es "hits q" e]
  by (auto simp: search_first find_Some_iff)

lemma search_None_iff: "search es q = None \<longleftrightarrow> (\<forall>e \<in> set es. \<not> hits q e)"
  by (auto simp: search_first find_None_iff)

lemma search_unique:
  assumes "falling weight es" and "e \<in> set es" and "hits q e"
    and "\<And>e'. e' \<in> set es \<Longrightarrow> hits q e' \<Longrightarrow> e' \<noteq> e \<Longrightarrow> weight e' < weight e"
  shows "search es q = Some e"
proof (cases "search es q")
  case None
  with assms(2,3) show ?thesis by (auto simp: search_None_iff)
next
  case (Some e')
  from search_Some [OF assms(1) Some] assms(2-4) show ?thesis
    using Some by (metis leD)
qed

end

end
