(* ===== verification/Domain_Rules.thy ===== *)
theory Domain_Rules
  imports Rust_Str Specific_Match
begin

text \<open>
  Domain matching: \<open>canonical_domain\<close> and \<open>domain_matches_suffix\<close> of \<open>util.rs\<close>;
  \<open>DomainSet\<close>, \<open>DomainRouteTable\<close> and the geosite matcher of \<open>state.rs\<close>. The
  lemmas relate the three optimised matchers (label iteration over a hash set, sorted suffix
  list, compiled geosite tag) to the plain suffix relation.
\<close>

section \<open>Canonical domains and suffix matching (util.rs)\<close>

definition canonical_domain :: "rstr \<Rightarrow> rstr" where
  "canonical_domain d =
     to_ascii_lowercase (trim_end_matches (CHR ''.'') (trim_start_matches (CHR ''.'') d))"

definition domain_matches_suffix :: "rstr \<Rightarrow> rstr \<Rightarrow> bool" where
  "domain_matches_suffix d s =
     (let d_norm = canonical_domain d; s_norm = canonical_domain s;
          d_len = length d_norm; s_len = length s_norm
      in if d_len < s_len then False
         else if d_len = s_len then d_norm = s_norm
         else if suffix s_norm d_norm
              then (case get_idx d_norm (d_len - s_len - 1) of
                      Some c \<Rightarrow> c = CHR ''.''
                    | None \<Rightarrow> False)
              else False)"

text \<open>The relation the matchers implement: equal, or a proper subdomain.\<close>

definition is_subdomain :: "rstr \<Rightarrow> rstr \<Rightarrow> bool" where
  "is_subdomain d s \<longleftrightarrow> d = s \<or> (\<exists>p. d = p @ CHR ''.'' # s)"

section \<open>Domain sets (state.rs)\<close>

record DomainSet =
  ds_exact :: "rstr set"
  ds_suffixes :: "rstr set"

definition domain_set_add :: "rstr \<Rightarrow> DomainSet \<Rightarrow> DomainSet" where
  "domain_set_add raw ds =
     (case strip_prefix ''.'' raw of
        Some stripped \<Rightarrow>
          (let norm = canonical_domain stripped
           in if norm = [] then ds else ds\<lparr>ds_suffixes := insert norm (ds_suffixes ds)\<rparr>)
      | None \<Rightarrow>
          (let norm = canonical_domain raw
           in if norm = [] then ds else ds\<lparr>ds_exact := insert norm (ds_exact ds)\<rparr>))"

definition domain_set_compile :: "rstr list \<Rightarrow> DomainSet" where
  "domain_set_compile domains =
     fold domain_set_add domains \<lparr>ds_exact = {}, ds_suffixes = {}\<rparr>"

definition domain_set_is_empty :: "DomainSet \<Rightarrow> bool" where
  "domain_set_is_empty ds \<longleftrightarrow> ds_exact ds = {} \<and> ds_suffixes ds = {}"

function suffix_scan :: "rstr set \<Rightarrow> rstr \<Rightarrow> bool" where
  "suffix_scan sx candidate =
     (if candidate \<in> sx then True
      else case split_once (CHR ''.'') candidate of
             Some (_, rest) \<Rightarrow> suffix_scan sx rest
           | None \<Rightarrow> False)"
  by pat_completeness auto
termination
  by (relation "measure (\<lambda>(sx, c). length c)") (auto simp: split_once_Some_iff)

declare suffix_scan.simps [simp del]

definition matches_canonical :: "DomainSet \<Rightarrow> rstr \<Rightarrow> bool" where
  "matches_canonical ds domain =
     (if domain \<in> ds_exact ds then True else suffix_scan (ds_suffixes ds) domain)"

section \<open>Domain route tables (state.rs)\<close>

record DomainRouteTable =
  drt_exact :: "rstr \<rightharpoonup> rstr"
  drt_suffixes :: "(rstr \<times> rstr) list"

definition suffix_search :: "(rstr \<times> rstr) list \<Rightarrow> rstr \<Rightarrow> (rstr \<times> rstr) option" where
  "suffix_search sx domain = find (\<lambda>(s, g). domain_matches_suffix domain s) sx"

definition domain_route_lookup :: "DomainRouteTable \<Rightarrow> rstr \<Rightarrow> rstr option" where
  "domain_route_lookup t domain0 =
     (let domain = canonical_domain domain0
      in case drt_exact t domain of
           Some grp \<Rightarrow> Some grp
         | None \<Rightarrow> map_option snd (suffix_search (drt_suffixes t) domain))"

text \<open>
  The table \<open>AppState::build\<close> makes of one \<open>client_domain_routes\<close> entry. The map of the
  configuration is a hash map: its iteration order is the order of the argument list.
\<close>

fun domain_route_fill ::
  "(rstr \<times> rstr) list \<Rightarrow> DomainRouteTable \<Rightarrow> rstr + DomainRouteTable" where
  "domain_route_fill [] t = Inr t"
| "domain_route_fill ((key, grp) # rest) t =
     (case strip_prefix ''.'' key of
        Some stripped \<Rightarrow>
          (let suffix_norm = canonical_domain stripped
           in if suffix_norm = [] then Inl key
              else domain_route_fill rest
                     (t\<lparr>drt_suffixes := drt_suffixes t @ [(suffix_norm, grp)]\<rparr>))
      | None \<Rightarrow>
          (let exact_norm = canonical_domain key
           in if exact_norm = [] then Inl key
              else domain_route_fill rest (t\<lparr>drt_exact := (drt_exact t)(exact_norm \<mapsto> grp)\<rparr>)))"

definition build_domain_route_table :: "(rstr \<times> rstr) list \<Rightarrow> rstr + DomainRouteTable" where
  "build_domain_route_table domain_map =
     (case domain_route_fill domain_map \<lparr>drt_exact = Map.empty, drt_suffixes = []\<rparr> of
        Inl key \<Rightarrow> Inl key
      | Inr t \<Rightarrow> Inr (t\<lparr>drt_suffixes := sort_by_key_rev (\<lambda>e. length (fst e)) (drt_suffixes t)\<rparr>))"

section \<open>Geosite (state.rs)\<close>

datatype GeositeDomainType = Plain | Regex | Domain | Full | Unknown int

definition geosite_domain_type :: "int \<Rightarrow> GeositeDomainType" where
  "geosite_domain_type v =
     (if v = 0 then Plain else if v = 1 then Regex else if v = 2 then Domain
      else if v = 3 then Full else Unknown v)"

record GeoDomain =
  gd_type :: int
  gd_value :: rstr

definition geosite_domain_match :: "GeoDomain \<Rightarrow> rstr \<Rightarrow> bool" where
  "geosite_domain_match rule domain0 =
     (let domain = canonical_domain domain0; value = canonical_domain (gd_value rule)
      in case geosite_domain_type (gd_type rule) of
           Plain \<Rightarrow> value \<noteq> [] \<and> str_contains domain value
         | Regex \<Rightarrow> False
         | Domain \<Rightarrow> domain_matches_suffix domain value
         | Full \<Rightarrow> value \<noteq> [] \<and> domain = value
         | Unknown t \<Rightarrow> False)"

record CompiledGeositeTag =
  cg_exact :: "rstr set"
  cg_suffixes :: "rstr set"
  cg_plain :: "rstr list"

definition compile_geosite_rule :: "GeoDomain \<Rightarrow> CompiledGeositeTag \<Rightarrow> CompiledGeositeTag" where
  "compile_geosite_rule rule ct =
     (let value = canonical_domain (gd_value rule)
      in if value = [] then ct
         else case geosite_domain_type (gd_type rule) of
                Full \<Rightarrow> ct\<lparr>cg_exact := insert value (cg_exact ct)\<rparr>
              | Domain \<Rightarrow> ct\<lparr>cg_suffixes := insert value (cg_suffixes ct)\<rparr>
              | Plain \<Rightarrow> ct\<lparr>cg_plain := cg_plain ct @ [value]\<rparr>
              | _ \<Rightarrow> ct)"

type_synonym GeositeIndex = "rstr \<rightharpoonup> GeoDomain list"
type_synonym CompiledGeosite = "rstr \<rightharpoonup> CompiledGeositeTag"

definition compile_geosite :: "GeositeIndex \<Rightarrow> CompiledGeosite" where
  "compile_geosite index tag =
     map_option (\<lambda>rules. fold compile_geosite_rule rules
                           \<lparr>cg_exact = {}, cg_suffixes = {}, cg_plain = []\<rparr>) (index tag)"

definition compiled_geosite_contains :: "CompiledGeosite \<Rightarrow> rstr \<Rightarrow> rstr \<Rightarrow> bool" where
  "compiled_geosite_contains compiled tag domain0 =
     (case compiled tag of
        None \<Rightarrow> False
      | Some ct \<Rightarrow>
          (let domain = canonical_domain domain0
           in if domain \<in> cg_exact ct then True
              else if domain \<in> cg_suffixes ct then True
              else if list_ex (\<lambda>i. domain ! i = CHR ''.'' \<and> drop (Suc i) domain \<in> cg_suffixes ct)
                        [0..<length domain] then True
              else list_ex (\<lambda>p. str_contains domain p) (cg_plain ct)))"

section \<open>Lemmas on canonical domains\<close>

lemma trim_start_matches_hd: "trim_start_matches c s = [] \<or> hd (trim_start_matches c s) \<noteq> c"
  unfolding trim_start_matches_def using hd_dropWhile [of "\<lambda>x. x = c" s] by blast

lemma trim_end_matches_last: "trim_end_matches c s = [] \<or> last (trim_end_matches c s) \<noteq> c"
  unfolding trim_end_matches_def
  using hd_dropWhile [of "\<lambda>x. x = c" "rev s"] by (auto simp: last_rev)

lemma trim_end_matches_prefix: "prefix (trim_end_matches c s) s"
proof -
  have "suffix (dropWhile (\<lambda>x. x = c) (rev s)) (rev s)"
    by (rule suffix_dropWhile)
  then show ?thesis
    by (simp add: trim_end_matches_def suffix_to_prefix)
qed

lemma trim_matches_id: "s = [] \<or> hd s \<noteq> c \<and> last s \<noteq> c \<Longrightarrow>
  trim_start_matches c s = s \<and> trim_end_matches c s = s"
proof -
  have "dropWhile (\<lambda>x. x = c) t = t" if "t = [] \<or> hd t \<noteq> c" for t
    using that by (cases t) auto
  from this [of s] this [of "rev s"] show "s = [] \<or> hd s \<noteq> c \<and> last s \<noteq> c \<Longrightarrow> ?thesis"
    by (auto simp: trim_start_matches_def trim_end_matches_def hd_rev)
qed

lemma canonical_domain_ends:
  "canonical_domain d = [] \<or>
     hd (canonical_domain d) \<noteq> CHR ''.'' \<and> last (canonical_domain d) \<noteq> CHR ''.''"
proof -
  let ?t = "trim_start_matches (CHR ''.'') d"
  let ?u = "trim_end_matches (CHR ''.'') ?t"
  have "hd ?u \<noteq> CHR ''.''" if "?u \<noteq> []"
    using trim_end_matches_prefix [of "CHR ''.''" ?t] trim_start_matches_hd [of "CHR ''.''" d] that
    by (auto simp: prefix_def) (metis hd_append2)
  moreover have "last ?u \<noteq> CHR ''.''" if "?u \<noteq> []"
    using trim_end_matches_last [of "CHR ''.''" ?t] that by blast
  ultimately show ?thesis
    by (auto simp: canonical_domain_def to_ascii_lowercase_def hd_map last_map)
qed

lemma canonical_domain_idem [simp]: "canonical_domain (canonical_domain d) = canonical_domain d"
proof -
  have "trim_start_matches (CHR ''.'') (canonical_domain d) = canonical_domain d"
    and "trim_end_matches (CHR ''.'') (canonical_domain d) = canonical_domain d"
    using trim_matches_id [OF canonical_domain_ends] by auto
  then have "canonical_domain (canonical_domain d) = to_ascii_lowercase (canonical_domain d)"
    by (simp add: canonical_domain_def [of "canonical_domain d"])
  then show ?thesis
    by (simp add: canonical_domain_def)
qed

lemma is_subdomain_refl [simp]: "is_subdomain d d"
  by (simp add: is_subdomain_def)

lemma is_subdomain_suffix: "is_subdomain d s \<Longrightarrow> suffix s d"
  by (auto simp: is_subdomain_def suffix_def)

lemma is_subdomain_nth:
  "is_subdomain d s \<longleftrightarrow>
     d = s \<or> (suffix s d \<and> length s < length d \<and> d ! (length d - length s - 1) = CHR ''.'')"
proof
  assume "is_subdomain d s"
  then show "d = s \<or> (suffix s d \<and> length s < length d \<and> d ! (length d - length s - 1) = CHR ''.'')"
    by (auto simp: is_subdomain_def suffix_def)
next
  assume "d = s \<or> (suffix s d \<and> length s < length d \<and> d ! (length d - length s - 1) = CHR ''.'')"
  then show "is_subdomain d s"
  proof
    assume *: "suffix s d \<and> length s < length d \<and> d ! (length d - length s - 1) = CHR ''.''"
    then obtain q where q: "d = q @ s" by (auto simp: suffix_def)
    with * have "q \<noteq> []" by auto
    then obtain p c where "q = p @ [c]" by (cases q rule: rev_cases) auto
    with * q have "d = p @ CHR ''.'' # s" by (simp add: nth_append)
    then show ?thesis by (auto simp: is_subdomain_def)
  qed simp
qed

lemma domain_matches_suffix_iff:
  "domain_matches_suffix d s \<longleftrightarrow> is_subdomain (canonical_domain d) (canonical_domain s)"
  by (auto simp: domain_matches_suffix_def Let_def is_subdomain_nth get_idx_def
      dest: suffix_length_le same_length_different)

section \<open>Lemmas on domain sets\<close>

lemma append_dot_eq_iff:
  assumes "CHR ''.'' \<notin> set a"
  shows "(\<exists>p. a @ CHR ''.'' # rest = p @ CHR ''.'' # s) \<longleftrightarrow> is_subdomain rest s"
proof
  assume "\<exists>p. a @ CHR ''.'' # rest = p @ CHR ''.'' # s"
  then obtain p where "a @ CHR ''.'' # rest = p @ CHR ''.'' # s" by blast
  with assms show "is_subdomain rest s"
    by (auto simp: is_subdomain_def append_eq_append_conv2 Cons_eq_append_conv
        append_eq_Cons_conv)
next
  assume "is_subdomain rest s"
  then consider "rest = s" | p where "rest = p @ CHR ''.'' # s"
    by (auto simp: is_subdomain_def)
  then show "\<exists>p. a @ CHR ''.'' # rest = p @ CHR ''.'' # s"
  proof cases
    case 2
    then have "a @ CHR ''.'' # rest = (a @ CHR ''.'' # p) @ CHR ''.'' # s" by simp
    then show ?thesis by blast
  qed blast
qed

lemma suffix_scan_iff: "suffix_scan sx d \<longleftrightarrow> (\<exists>s \<in> sx. is_subdomain d s)"
proof (induction sx d rule: suffix_scan.induct)
  case (1 sx d)
  show ?case
  proof (cases "split_once (CHR ''.'') d")
    case None
    then have "CHR ''.'' \<notin> set d" by (simp add: split_once_None_iff)
    then have "is_subdomain d s \<longleftrightarrow> d = s" for s
      by (auto simp: is_subdomain_def)
    with None show ?thesis by (auto simp: suffix_scan.simps [of sx d])
  next
    case (Some ab)
    then obtain a rest where ab: "ab = (a, rest)" "d = a @ CHR ''.'' # rest" "CHR ''.'' \<notin> set a"
      by (cases ab) (auto simp: split_once_Some_iff)
    have sub: "is_subdomain d s \<longleftrightarrow> d = s \<or> is_subdomain rest s" for s
      using append_dot_eq_iff [OF ab(3), of rest s] by (auto simp: is_subdomain_def ab(2))
    have "suffix_scan sx d \<longleftrightarrow> d \<in> sx \<or> suffix_scan sx rest"
      using Some ab(1) by (auto simp: suffix_scan.simps [of sx d])
    moreover have "d \<notin> sx \<Longrightarrow> suffix_scan sx rest \<longleftrightarrow> (\<exists>s \<in> sx. is_subdomain rest s)"
      using "1.IH" Some ab(1) by blast
    ultimately show ?thesis by (auto simp: sub)
  qed
qed

definition pattern_matches :: "rstr \<Rightarrow> rstr \<Rightarrow> bool" where
  "pattern_matches raw d =
     (case strip_prefix ''.'' raw of
        Some stripped \<Rightarrow> canonical_domain stripped \<noteq> [] \<and> domain_matches_suffix d stripped
      | None \<Rightarrow> canonical_domain raw \<noteq> [] \<and> canonical_domain d = canonical_domain raw)"

lemma domain_set_add_matches:
  "matches_canonical (domain_set_add raw ds) (canonical_domain d) \<longleftrightarrow>
     matches_canonical ds (canonical_domain d) \<or> pattern_matches raw d"
  by (auto simp: matches_canonical_def domain_set_add_def pattern_matches_def Let_def
      suffix_scan_iff domain_matches_suffix_iff split: option.splits)

lemma fold_domain_set_add_matches:
  "matches_canonical (fold domain_set_add raws ds) (canonical_domain d) \<longleftrightarrow>
     matches_canonical ds (canonical_domain d) \<or> (\<exists>raw \<in> set raws. pattern_matches raw d)"
  by (induction raws arbitrary: ds) (auto simp: domain_set_add_matches)

section \<open>Lemmas on domain route tables\<close>

lemma strip_dot_Some_iff: "strip_prefix ''.'' key = Some s \<longleftrightarrow> key = CHR ''.'' # s"
  by (cases key) (auto simp: strip_prefix_def)

lemma strip_dot_None_iff: "strip_prefix ''.'' key = None \<longleftrightarrow> (\<forall>s. key \<noteq> CHR ''.'' # s)"
  by (cases key) (auto simp: strip_prefix_def)

interpretation sfx: most_specific "\<lambda>e. length (fst e)"
  "\<lambda>d e. domain_matches_suffix d (fst e)" suffix_search
  by unfold_locales (simp add: suffix_search_def case_prod_unfold)

lemma domain_route_fill_suffixes:
  "domain_route_fill m t = Inr t' \<Longrightarrow>
     set (drt_suffixes t') =
       set (drt_suffixes t) \<union> {(canonical_domain s, g) | s g. (CHR ''.'' # s, g) \<in> set m}"
proof (induction m t rule: domain_route_fill.induct)
  case (2 key grp rest t)
  then show ?case
    by (cases "strip_prefix ''.'' key")
      (auto simp: strip_dot_Some_iff strip_dot_None_iff Let_def split: if_splits)
qed simp

lemma domain_route_fill_nonempty:
  "domain_route_fill m t = Inr t' \<Longrightarrow> (key, g) \<in> set m \<Longrightarrow>
     (case strip_prefix ''.'' key of Some s \<Rightarrow> canonical_domain s \<noteq> [] | None \<Rightarrow> canonical_domain key \<noteq> [])"
proof (induction m t rule: domain_route_fill.induct)
  case (2 key' grp rest t)
  then show ?case
    by (cases "strip_prefix ''.'' key'") (auto simp: Let_def split: if_splits)
qed simp

lemma domain_route_fill_exact_None:
  "domain_route_fill m t = Inr t' \<Longrightarrow>
     drt_exact t' d = None \<longleftrightarrow> drt_exact t d = None \<and>
       (\<forall>(key, g) \<in> set m. strip_prefix ''.'' key = None \<longrightarrow> canonical_domain key \<noteq> d)"
proof (induction m t rule: domain_route_fill.induct)
  case (2 key grp rest t)
  then show ?case
    by (cases "strip_prefix ''.'' key") (auto simp: Let_def split: if_splits)
qed simp

lemma domain_route_fill_exact_Some:
  "domain_route_fill m t = Inr t' \<Longrightarrow> drt_exact t' d = Some g \<Longrightarrow>
     drt_exact t d = Some g \<or>
     (\<exists>key. (key, g) \<in> set m \<and> strip_prefix ''.'' key = None \<and> canonical_domain key = d)"
proof (induction m t rule: domain_route_fill.induct)
  case (2 key grp rest t)
  show ?case
  proof (cases "strip_prefix ''.'' key")
    case None
    with 2 have "canonical_domain key \<noteq> []"
      and fill: "domain_route_fill rest (t\<lparr>drt_exact := (drt_exact t)(canonical_domain key \<mapsto> grp)\<rparr>) = Inr t'"
      by (auto simp: Let_def split: if_splits)
    with 2(1) [OF None refl] 2(4) have
      "((drt_exact t)(canonical_domain key \<mapsto> grp)) d = Some g \<or>
       (\<exists>key. (key, g) \<in> set rest \<and> strip_prefix ''.'' key = None \<and> canonical_domain key = d)"
      by auto
    with None show ?thesis by (auto split: if_splits)
  next
    case (Some s)
    with 2 show ?thesis by (auto simp: Let_def split: if_splits)
  qed
qed simp

lemma build_domain_route_tableD:
  assumes "build_domain_route_table m = Inr t"
  shows "falling (\<lambda>e. length (fst e)) (drt_suffixes t)"
    and "set (drt_suffixes t) = {(canonical_domain s, g) | s g. (CHR ''.'' # s, g) \<in> set m}"
    and "\<And>d. drt_exact t d = None \<longleftrightarrow>
           (\<forall>(key, g) \<in> set m. strip_prefix ''.'' key = None \<longrightarrow> canonical_domain key \<noteq> d)"
    and "\<And>d g. drt_exact t d = Some g \<Longrightarrow>
           \<exists>key. (key, g) \<in> set m \<and> strip_prefix ''.'' key = None \<and> canonical_domain key = d"
    and "\<And>key g. (key, g) \<in> set m \<Longrightarrow> (case strip_prefix ''.'' key of
            Some s \<Rightarrow> canonical_domain s \<noteq> [] | None \<Rightarrow> canonical_domain key \<noteq> [])"
proof -
  from assms obtain t0
    where fill: "domain_route_fill m \<lparr>drt_exact = Map.empty, drt_suffixes = []\<rparr> = Inr t0"
      and t: "t = t0\<lparr>drt_suffixes := sort_by_key_rev (\<lambda>e. length (fst e)) (drt_suffixes t0)\<rparr>"
    by (auto simp: build_domain_route_table_def split: sum.splits)
  show "falling (\<lambda>e. length (fst e)) (drt_suffixes t)"
    by (simp add: t)
  show "set (drt_suffixes t) = {(canonical_domain s, g) | s g. (CHR ''.'' # s, g) \<in> set m}"
    using domain_route_fill_suffixes [OF fill] by (simp add: t)
  show "drt_exact t d = None \<longleftrightarrow>
      (\<forall>(key, g) \<in> set m. strip_prefix ''.'' key = None \<longrightarrow> canonical_domain key \<noteq> d)" for d
    using domain_route_fill_exact_None [OF fill] by (simp add: t)
  show "\<exists>key. (key, g) \<in> set m \<and> strip_prefix ''.'' key = None \<and> canonical_domain key = d"
    if "drt_exact t d = Some g" for d g
    using domain_route_fill_exact_Some [OF fill, of d g] that by (simp add: t)
  show "case strip_prefix ''.'' key of
      Some s \<Rightarrow> canonical_domain s \<noteq> [] | None \<Rightarrow> canonical_domain key \<noteq> []"
    if "(key, g) \<in> set m" for key g
    by (rule domain_route_fill_nonempty [OF fill that])
qed

lemma suffix_search_canonical: "suffix_search sx (canonical_domain d) = suffix_search sx d"
  by (simp add: suffix_search_def domain_matches_suffix_iff)

lemma domain_route_lookup_suffix:
  assumes "build_domain_route_table m = Inr t"
    and "drt_exact t (canonical_domain d) = None" and "domain_route_lookup t d = Some g"
  shows "\<exists>s. (CHR ''.'' # s, g) \<in> set m \<and> domain_matches_suffix d s \<and>
     (\<forall>s' g'. (CHR ''.'' # s', g') \<in> set m \<longrightarrow> domain_matches_suffix d s' \<longrightarrow>
        length (canonical_domain s') \<le> length (canonical_domain s))"
proof -
  note built = build_domain_route_tableD [OF assms(1)]
  from assms(2,3) obtain e where e: "suffix_search (drt_suffixes t) d = Some e" "snd e = g"
    by (auto simp: domain_route_lookup_def suffix_search_canonical)
  note found = sfx.search_Some [OF built(1) e(1)]
  from found(1) e(2) obtain s where s: "e = (canonical_domain s, g)" "(CHR ''.'' # s, g) \<in> set m"
    by (auto simp: built(2))
  have "domain_matches_suffix d s"
    using found(2) by (simp add: s(1) domain_matches_suffix_iff)
  moreover have "length (canonical_domain s') \<le> length (canonical_domain s)"
    if "(CHR ''.'' # s', g') \<in> set m" "domain_matches_suffix d s'" for s' g'
  proof -
    have "(canonical_domain s', g') \<in> set (drt_suffixes t)"
      using that(1) by (auto simp: built(2))
    from found(3) [OF this] that(2) show ?thesis
      by (simp add: s(1) domain_matches_suffix_iff)
  qed
  ultimately show ?thesis using s(2) by blast
qed

lemma domain_route_lookup_None_iff:
  assumes "build_domain_route_table m = Inr t"
  shows "domain_route_lookup t d = None \<longleftrightarrow> (\<forall>(key, g) \<in> set m. \<not> pattern_matches key d)"
proof -
  note built = build_domain_route_tableD [OF assms]
  have "suffix_search (drt_suffixes t) d = None \<longleftrightarrow>
      (\<forall>s g. (CHR ''.'' # s, g) \<in> set m \<longrightarrow> \<not> domain_matches_suffix d s)"
    by (auto simp: sfx.search_None_iff built(2) domain_matches_suffix_iff)
      (metis canonical_domain_idem)
  moreover have "domain_route_lookup t d = None \<longleftrightarrow>
      drt_exact t (canonical_domain d) = None \<and> suffix_search (drt_suffixes t) d = None"
    by (simp add: domain_route_lookup_def Let_def suffix_search_canonical split: option.splits)
  ultimately have "domain_route_lookup t d = None \<longleftrightarrow>
      (\<forall>(key, g) \<in> set m. strip_prefix ''.'' key = None \<longrightarrow> canonical_domain key \<noteq> canonical_domain d) \<and>
      (\<forall>s g. (CHR ''.'' # s, g) \<in> set m \<longrightarrow> \<not> domain_matches_suffix d s)"
    by (simp only: built(3))
  also have "\<dots> \<longleftrightarrow> (\<forall>(key, g) \<in> set m. \<not> pattern_matches key d)"
  proof -
    have pm: "pattern_matches key d \<longleftrightarrow> (case strip_prefix ''.'' key of
        Some s \<Rightarrow> domain_matches_suffix d s | None \<Rightarrow> canonical_domain d = canonical_domain key)"
      if "(key, g) \<in> set m" for key g
      using built(5) [OF that] by (auto simp: pattern_matches_def split: option.splits)
    have "(\<forall>s g. (CHR ''.'' # s, g) \<in> set m \<longrightarrow> \<not> domain_matches_suffix d s) \<longleftrightarrow>
        (\<forall>(key, g) \<in> set m. \<forall>s. strip_prefix ''.'' key = Some s \<longrightarrow> \<not> domain_matches_suffix d s)"
      by (auto simp: strip_dot_Some_iff)
    then show ?thesis
      by (simp add: case_prod_unfold pm [of "fst e" "snd e" for e] split: option.splits) metis
  qed
  finally show ?thesis .
qed

section \<open>Lemmas on geosite\<close>

lemma fold_compile_geosite_rule:
  "fold compile_geosite_rule rules ct =
     (let vals = (\<lambda>ty. [canonical_domain (gd_value r). r \<leftarrow> rules,
                         canonical_domain (gd_value r) \<noteq> [], geosite_domain_type (gd_type r) = ty])
      in ct\<lparr>cg_exact := cg_exact ct \<union> set (vals Full),
            cg_suffixes := cg_suffixes ct \<union> set (vals Domain),
            cg_plain := cg_plain ct @ vals Plain\<rparr>)"
proof (induction rules arbitrary: ct)
  case (Cons r rules)
  show ?case
    unfolding fold.simps comp_apply Cons.IH
    by (cases "geosite_domain_type (gd_type r)") (auto simp: compile_geosite_rule_def Let_def)
qed simp

lemma dot_scan_iff:
  "list_ex (\<lambda>i. d ! i = CHR ''.'' \<and> drop (Suc i) d \<in> sx) [0..<length d] \<longleftrightarrow>
     (\<exists>s \<in> sx. \<exists>p. d = p @ CHR ''.'' # s)"
proof
  assume "list_ex (\<lambda>i. d ! i = CHR ''.'' \<and> drop (Suc i) d \<in> sx) [0..<length d]"
  then obtain i where "i < length d" "d ! i = CHR ''.''" "drop (Suc i) d \<in> sx"
    by (auto simp: list_ex_iff)
  then show "\<exists>s \<in> sx. \<exists>p. d = p @ CHR ''.'' # s"
    by (metis id_take_nth_drop)
next
  assume "\<exists>s \<in> sx. \<exists>p. d = p @ CHR ''.'' # s"
  then obtain s p where "s \<in> sx" "d = p @ CHR ''.'' # s" by blast
  then show "list_ex (\<lambda>i. d ! i = CHR ''.'' \<and> drop (Suc i) d \<in> sx) [0..<length d]"
    by (auto simp: list_ex_iff intro!: bexI [of _ "length p"])
qed

lemma compiled_geosite_contains_iff:
  "compiled tag = Some ct \<Longrightarrow> compiled_geosite_contains compiled tag d \<longleftrightarrow>
     canonical_domain d \<in> cg_exact ct \<or> (\<exists>s \<in> cg_suffixes ct. is_subdomain (canonical_domain d) s) \<or>
     (\<exists>p \<in> set (cg_plain ct). str_contains (canonical_domain d) p)"
  unfolding compiled_geosite_contains_def Let_def dot_scan_iff
  by (auto simp: is_subdomain_def list_ex_iff)

lemma is_subdomain_empty_iff:
  "is_subdomain (canonical_domain d) [] \<longleftrightarrow> canonical_domain d = []"
  using canonical_domain_ends [of d] by (auto simp: is_subdomain_def)

lemma geosite_domain_match_iff:
  assumes "canonical_domain d \<noteq> []"
  shows "geosite_domain_match r d \<longleftrightarrow> canonical_domain (gd_value r) \<noteq> [] \<and>
     (let v = canonical_domain (gd_value r); ty = geosite_domain_type (gd_type r)
      in ty = Plain \<and> str_contains (canonical_domain d) v \<or>
         ty = Domain \<and> is_subdomain (canonical_domain d) v \<or>
         ty = Full \<and> canonical_domain d = v)"
  using assms is_subdomain_empty_iff [of d]
  by (cases "geosite_domain_type (gd_type r)")
    (auto simp: geosite_domain_match_def Let_def domain_matches_suffix_iff)

lemma compile_geosite_contains_rules:
  "compiled_geosite_contains (compile_geosite index) tag d \<longleftrightarrow> canonical_domain d \<noteq> [] \<and>
     (\<exists>rules r. index tag = Some rules \<and> r \<in> set rules \<and> geosite_domain_match r d)"
proof (cases "index tag")
  case None
  then show ?thesis by (simp add: compiled_geosite_contains_def compile_geosite_def)
next
  case (Some rules)
  show ?thesis
  proof (cases "canonical_domain d = []")
    case True
    with Some show ?thesis
      by (auto simp: compiled_geosite_contains_iff compile_geosite_def fold_compile_geosite_rule Let_def
          is_subdomain_def str_contains_def)
  next
    case False
    with Some show ?thesis
      by (auto simp: compiled_geosite_contains_iff compile_geosite_def fold_compile_geosite_rule
          Let_def geosite_domain_match_iff [OF False])
  qed
qed

section \<open>Properties\<close>

text \<open>
  A compiled \<open>DomainSet\<close> (force_direct_domains, force_socks5_domains) matches a domain
  exactly when some configured pattern does: \<open>.x\<close> matches \<open>x\<close> and its subdomains in the
  sense of \<open>domain_matches_suffix\<close>, any other pattern matches by equality after
  canonicalisation, and a pattern that canonicalises to nothing matches nothing. The label by
  label scan of the hash set is thereby equivalent to testing every pattern.
\<close>

theorem domain_set_compile_correct:
  "matches_canonical (domain_set_compile patterns) (canonical_domain d) \<longleftrightarrow>
     (\<exists>raw \<in> set patterns. pattern_matches raw d)"
  unfolding domain_set_compile_def fold_domain_set_add_matches
  by (simp add: matches_canonical_def suffix_scan_iff)

text \<open>
  C28: For a domain that is not empty after canonicalisation, the compiled geosite tag contains
  it exactly when some rule of the tag matches it by the reference matcher
  \<open>geosite_domain_match\<close>; an unknown tag contains nothing.
\<close>

theorem compiled_geosite_equiv:
  assumes "canonical_domain d \<noteq> []"
  shows "compiled_geosite_contains (compile_geosite index) tag d \<longleftrightarrow>
     (\<exists>rules r. index tag = Some rules \<and> r \<in> set rules \<and> geosite_domain_match r d)"
  using assms by (simp add: compile_geosite_contains_rules)

theorem compiled_geosite_equiv_witness:
  "canonical_domain ''www.Example.com'' \<noteq> [] \<and>
   (compiled_geosite_contains (compile_geosite [''x'' \<mapsto> [\<lparr>gd_type = 2, gd_value = ''example.com''\<rparr>]])
      ''x'' ''www.Example.com'' \<longleftrightarrow>
    (\<exists>rules r. [''x'' \<mapsto> [\<lparr>gd_type = 2, gd_value = ''example.com''\<rparr>]] ''x'' = Some rules \<and>
       r \<in> set rules \<and> geosite_domain_match r ''www.Example.com''))"
proof -
  have "canonical_domain ''www.Example.com'' \<noteq> []" by code_simp
  then show ?thesis using compiled_geosite_equiv by blast
qed

text \<open>
  The group a \<open>client_domain_routes\<close> table returns for a domain comes from an exact
  pattern equal to it after canonicalisation, or else, when no exact pattern is equal to it, from
  a suffix pattern that matches it and than which no matching suffix pattern is longer; and the
  table returns nothing exactly when no pattern matches.
\<close>

theorem domain_route_lookup_most_specific:
  assumes "build_domain_route_table m = Inr t"
  shows "(domain_route_lookup t d = None \<longleftrightarrow> (\<forall>(key, g) \<in> set m. \<not> pattern_matches key d)) \<and>
     (\<forall>g. domain_route_lookup t d = Some g \<longrightarrow>
        (\<exists>key. (key, g) \<in> set m \<and> strip_prefix ''.'' key = None \<and> canonical_domain key = canonical_domain d) \<or>
        (\<forall>(key, g') \<in> set m. strip_prefix ''.'' key = None \<longrightarrow> canonical_domain key \<noteq> canonical_domain d) \<and>
        (\<exists>s. (CHR ''.'' # s, g) \<in> set m \<and> domain_matches_suffix d s \<and>
           (\<forall>s' g'. (CHR ''.'' # s', g') \<in> set m \<longrightarrow> domain_matches_suffix d s' \<longrightarrow>
              length (canonical_domain s') \<le> length (canonical_domain s))))"
proof (intro conjI allI impI)
  show "domain_route_lookup t d = None \<longleftrightarrow> (\<forall>(key, g) \<in> set m. \<not> pattern_matches key d)"
    by (rule domain_route_lookup_None_iff [OF assms])
next
  fix g
  assume g: "domain_route_lookup t d = Some g"
  note built = build_domain_route_tableD [OF assms]
  show "(\<exists>key. (key, g) \<in> set m \<and> strip_prefix ''.'' key = None \<and> canonical_domain key = canonical_domain d) \<or>
        (\<forall>(key, g') \<in> set m. strip_prefix ''.'' key = None \<longrightarrow> canonical_domain key \<noteq> canonical_domain d) \<and>
        (\<exists>s. (CHR ''.'' # s, g) \<in> set m \<and> domain_matches_suffix d s \<and>
           (\<forall>s' g'. (CHR ''.'' # s', g') \<in> set m \<longrightarrow> domain_matches_suffix d s' \<longrightarrow>
              length (canonical_domain s') \<le> length (canonical_domain s)))"
  proof (cases "drt_exact t (canonical_domain d)")
    case None
    with domain_route_lookup_suffix [OF assms None g] built(3) show ?thesis by blast
  next
    case (Some g')
    with g have "g' = g" by (simp add: domain_route_lookup_def)
    with built(4) [OF Some] show ?thesis by blast
  qed
qed

theorem domain_route_lookup_most_specific_witness:
  "\<exists>t. build_domain_route_table [(''.example.com'', ''a''), (''.www.example.com'', ''b'')] = Inr t \<and>
     domain_route_lookup t ''x.www.example.com'' = Some ''b'' \<and>
     (\<exists>s. (CHR ''.'' # s, ''b'') \<in> set [(''.example.com'', ''a''), (''.www.example.com'', ''b'')] \<and>
          domain_matches_suffix ''x.www.example.com'' s)"
proof -
  let ?m = "[(''.example.com'', ''a''), (''.www.example.com'', ''b'')]"
  let ?t = "\<lparr>drt_exact = Map.empty, drt_suffixes = [(''www.example.com'', ''b''), (''example.com'', ''a'')]\<rparr>"
  have c: "canonical_domain ''example.com'' = ''example.com''"
    "canonical_domain ''www.example.com'' = ''www.example.com''" by code_simp+
  have b: "build_domain_route_table ?m = Inr ?t"
    by (simp add: build_domain_route_table_def strip_prefix_def c sort_by_key_rev_def Let_def)
  have "domain_matches_suffix (canonical_domain ''x.www.example.com'') ''www.example.com''" by code_simp
  then have l: "domain_route_lookup ?t ''x.www.example.com'' = Some ''b''"
    by (simp add: domain_route_lookup_def suffix_search_def)
  have "\<forall>(key, g) \<in> set ?m. strip_prefix ''.'' key \<noteq> None"
    by (simp add: strip_prefix_def)
  with domain_route_lookup_most_specific [OF b, of "''x.www.example.com''"] l
  have "\<exists>s. (CHR ''.'' # s, ''b'') \<in> set ?m \<and> domain_matches_suffix ''x.www.example.com'' s"
    by blast
  with b l show ?thesis by blast
qed

end
