(* ===== verification/Cidr_Routes.thy ===== *)
theory Cidr_Routes
  imports Net_Addr Domain_Rules
begin

text \<open>
  \<open>ClientCidrRoutes\<close> of \<open>state.rs\<close>: networks with values, sorted by falling prefix
  length, looked up by first match (longest prefix) or searched table by table with fallback to
  wider networks; and the three client tables that \<open>AppState::build\<close> fills from the
  configuration.
\<close>

record ('n4, 'n6, 't) ClientCidrRoutes =
  ccr_v4 :: "('n4 \<times> 't) list"
  ccr_v6 :: "('n6 \<times> 't) list"

definition ccr_new :: "('n4, 'n6, 't) ClientCidrRoutes" where
  "ccr_new = \<lparr>ccr_v4 = [], ccr_v6 = []\<rparr>"

definition ccr_insert ::
  "('n4, 'n6) IpNet \<Rightarrow> 't \<Rightarrow> ('n4, 'n6, 't) ClientCidrRoutes \<Rightarrow> ('n4, 'n6, 't) ClientCidrRoutes" where
  "ccr_insert net val r =
     (case net of
        NetV4 n \<Rightarrow> r\<lparr>ccr_v4 := ccr_v4 r @ [(n, val)]\<rparr>
      | NetV6 n \<Rightarrow> r\<lparr>ccr_v6 := ccr_v6 r @ [(n, val)]\<rparr>)"

definition ccr_finalize ::
  "('n4, 'n6) net_ops \<Rightarrow> ('n4, 'n6, 't) ClientCidrRoutes \<Rightarrow> ('n4, 'n6, 't) ClientCidrRoutes" where
  "ccr_finalize N r =
     r\<lparr>ccr_v4 := sort_by_key_rev (\<lambda>e. net4_prefix_len N (fst e)) (ccr_v4 r),
       ccr_v6 := sort_by_key_rev (\<lambda>e. net6_prefix_len N (fst e)) (ccr_v6 r)\<rparr>"

definition ccr_search4 :: "('n4, 'n6) net_ops \<Rightarrow> ('n4 \<times> 't) list \<Rightarrow> ipv4 \<Rightarrow> ('n4 \<times> 't) option" where
  "ccr_search4 N es ip = find (\<lambda>(net, _). net4_contains N net ip) es"

definition ccr_search6 :: "('n4, 'n6) net_ops \<Rightarrow> ('n6 \<times> 't) list \<Rightarrow> ipv6 \<Rightarrow> ('n6 \<times> 't) option" where
  "ccr_search6 N es ip = find (\<lambda>(net, _). net6_contains N net ip) es"

definition ccr_lookup ::
  "('n4, 'n6) net_ops \<Rightarrow> ('n4, 'n6, 't) ClientCidrRoutes \<Rightarrow> IpAddr \<Rightarrow> 't option" where
  "ccr_lookup N r ip =
     (case ip of
        V4 a \<Rightarrow> map_option snd (ccr_search4 N (ccr_v4 r) a)
      | V6 a \<Rightarrow> map_option snd (ccr_search6 N (ccr_v6 r) a))"

text \<open>\<open>Iterator::find_map\<close>.\<close>

fun find_map :: "('a \<Rightarrow> 'b option) \<Rightarrow> 'a list \<Rightarrow> 'b option" where
  "find_map f [] = None"
| "find_map f (x # xs) = (case f x of Some y \<Rightarrow> Some y | None \<Rightarrow> find_map f xs)"

definition ccr_find_map_matching ::
  "('n4, 'n6) net_ops \<Rightarrow> ('n4, 'n6, 't) ClientCidrRoutes \<Rightarrow> IpAddr \<Rightarrow> ('t \<Rightarrow> 'r option) \<Rightarrow> 'r option" where
  "ccr_find_map_matching N r ip f =
     (case ip of
        V4 a \<Rightarrow> find_map (\<lambda>(_, v). f v) (filter (\<lambda>(net, _). net4_contains N net a) (ccr_v4 r))
      | V6 a \<Rightarrow> find_map (\<lambda>(_, v). f v) (filter (\<lambda>(net, _). net6_contains N net a) (ccr_v6 r)))"

section \<open>Filling the tables (AppState::build)\<close>

text \<open>
  A loop over a configuration map in its iteration order: parse the key, make the value, insert.
  The error is the text of the offending entry.
\<close>

fun ccr_fill ::
  "('n4, 'n6) net_ops \<Rightarrow> ('c \<Rightarrow> rstr + 't) \<Rightarrow> (rstr \<times> 'c) list \<Rightarrow>
   ('n4, 'n6, 't) ClientCidrRoutes \<Rightarrow> rstr + ('n4, 'n6, 't) ClientCidrRoutes" where
  "ccr_fill N mk [] r = Inr r"
| "ccr_fill N mk ((ip_str, c) # rest) r =
     (case parse_ip_or_cidr N ip_str of
        None \<Rightarrow> Inl ip_str
      | Some net \<Rightarrow>
          (case mk c of
             Inl e \<Rightarrow> Inl e
           | Inr v \<Rightarrow> ccr_fill N mk rest (ccr_insert net v r)))"

definition ccr_build ::
  "('n4, 'n6) net_ops \<Rightarrow> ('c \<Rightarrow> rstr + 't) \<Rightarrow> (rstr \<times> 'c) list \<Rightarrow>
   rstr + ('n4, 'n6, 't) ClientCidrRoutes" where
  "ccr_build N mk entries =
     (case ccr_fill N mk entries ccr_new of Inl e \<Rightarrow> Inl e | Inr r \<Rightarrow> Inr (ccr_finalize N r))"

type_synonym ('n4, 'n6) ClientIpRoutes = "('n4, 'n6, rstr) ClientCidrRoutes"
type_synonym ('n4, 'n6) ClientDomainRoutes = "('n4, 'n6, DomainRouteTable) ClientCidrRoutes"
type_synonym ('n4, 'n6) ClientDstIpRoutes = "('n4, 'n6, ('n4, 'n6) ClientIpRoutes) ClientCidrRoutes"

definition build_client_routes ::
  "('n4, 'n6) net_ops \<Rightarrow> (rstr \<times> rstr) list \<Rightarrow> rstr + ('n4, 'n6) ClientIpRoutes" where
  "build_client_routes N cfg = ccr_build N Inr cfg"

definition build_client_domain_routes ::
  "('n4, 'n6) net_ops \<Rightarrow> (rstr \<times> (rstr \<times> rstr) list) list \<Rightarrow>
   rstr + ('n4, 'n6) ClientDomainRoutes" where
  "build_client_domain_routes N cfg = ccr_build N build_domain_route_table cfg"

definition build_client_dst_ip_routes ::
  "('n4, 'n6) net_ops \<Rightarrow> (rstr \<times> (rstr \<times> rstr) list) list \<Rightarrow>
   rstr + ('n4, 'n6) ClientDstIpRoutes" where
  "build_client_dst_ip_routes N cfg = ccr_build N (build_client_routes N) cfg"

section \<open>Lemmas\<close>

interpretation cidr4: most_specific "\<lambda>e. net4_prefix_len N (fst e)"
  "\<lambda>ip e. net4_contains N (fst e) ip" "ccr_search4 N" for N
  by unfold_locales (simp add: ccr_search4_def case_prod_unfold)

interpretation cidr6: most_specific "\<lambda>e. net6_prefix_len N (fst e)"
  "\<lambda>ip e. net6_contains N (fst e) ip" "ccr_search6 N" for N
  by unfold_locales (simp add: ccr_search6_def case_prod_unfold)

text \<open>One view of both families: the entries as general networks.\<close>

definition ip_net_contains :: "('n4, 'n6) net_ops \<Rightarrow> ('n4, 'n6) IpNet \<Rightarrow> IpAddr \<Rightarrow> bool" where
  "ip_net_contains N net ip =
     (case (net, ip) of
        (NetV4 n, V4 a) \<Rightarrow> net4_contains N n a
      | (NetV6 n, V6 a) \<Rightarrow> net6_contains N n a
      | _ \<Rightarrow> False)"

definition ip_net_prefix_len :: "('n4, 'n6) net_ops \<Rightarrow> ('n4, 'n6) IpNet \<Rightarrow> nat" where
  "ip_net_prefix_len N net = (case net of NetV4 n \<Rightarrow> net4_prefix_len N n | NetV6 n \<Rightarrow> net6_prefix_len N n)"

definition ccr_entries :: "('n4, 'n6, 't) ClientCidrRoutes \<Rightarrow> (('n4, 'n6) IpNet \<times> 't) set" where
  "ccr_entries r = (\<lambda>(n, v). (NetV4 n, v)) ` set (ccr_v4 r) \<union> (\<lambda>(n, v). (NetV6 n, v)) ` set (ccr_v6 r)"

definition ccr_sorted :: "('n4, 'n6) net_ops \<Rightarrow> ('n4, 'n6, 't) ClientCidrRoutes \<Rightarrow> bool" where
  "ccr_sorted N r \<longleftrightarrow> falling (\<lambda>e. net4_prefix_len N (fst e)) (ccr_v4 r) \<and>
     falling (\<lambda>e. net6_prefix_len N (fst e)) (ccr_v6 r)"

lemmas ip_net_defs = ip_net_contains_def ip_net_prefix_len_def

lemma ccr_entries_new [simp]: "ccr_entries ccr_new = {}"
  by (simp add: ccr_entries_def ccr_new_def)

lemma ccr_entries_insert [simp]: "ccr_entries (ccr_insert net v r) = insert (net, v) (ccr_entries r)"
  by (cases net) (auto simp: ccr_entries_def ccr_insert_def)

lemma ccr_entries_finalize [simp]: "ccr_entries (ccr_finalize N r) = ccr_entries r"
  by (simp add: ccr_entries_def ccr_finalize_def)

lemma ccr_sorted_finalize [simp]: "ccr_sorted N (ccr_finalize N r)"
  by (simp add: ccr_sorted_def ccr_finalize_def)

lemma ccr_fill_entries:
  "ccr_fill N mk es r = Inr r' \<Longrightarrow>
     ccr_entries r' = ccr_entries r \<union>
       {(net, v). \<exists>s c. (s, c) \<in> set es \<and> parse_ip_or_cidr N s = Some net \<and> mk c = Inr v}"
proof (induction es arbitrary: r)
  case (Cons e es)
  obtain s c where e: "e = (s, c)" by (cases e)
  from Cons.prems obtain net v
    where p: "parse_ip_or_cidr N s = Some net" "mk c = Inr v"
      and rec: "ccr_fill N mk es (ccr_insert net v r) = Inr r'"
    by (auto simp: e split: option.splits sum.splits)
  show ?case
    unfolding Cons.IH [OF rec] using p by (auto simp: e)
qed simp

lemma ccr_build_entries:
  assumes "ccr_build N mk es = Inr r"
  shows "ccr_sorted N r"
    and "ccr_entries r = {(net, v). \<exists>s c. (s, c) \<in> set es \<and> parse_ip_or_cidr N s = Some net \<and> mk c = Inr v}"
proof -
  from assms obtain r0 where f: "ccr_fill N mk es ccr_new = Inr r0" and r: "r = ccr_finalize N r0"
    by (auto simp: ccr_build_def split: sum.splits)
  show "ccr_sorted N r" by (simp add: r)
  show "ccr_entries r = {(net, v). \<exists>s c. (s, c) \<in> set es \<and> parse_ip_or_cidr N s = Some net \<and> mk c = Inr v}"
    using ccr_fill_entries [OF f] by (simp add: r)
qed

lemma ccr_entries_V4_iff: "(NetV4 n, v) \<in> ccr_entries r \<longleftrightarrow> (n, v) \<in> set (ccr_v4 r)"
  by (force simp: ccr_entries_def)

lemma ccr_entries_V6_iff: "(NetV6 n, v) \<in> ccr_entries r \<longleftrightarrow> (n, v) \<in> set (ccr_v6 r)"
  by (force simp: ccr_entries_def)

lemma ball_ccr_entries:
  "(\<forall>e \<in> ccr_entries r. P e) \<longleftrightarrow>
     (\<forall>e \<in> set (ccr_v4 r). P (NetV4 (fst e), snd e)) \<and> (\<forall>e \<in> set (ccr_v6 r). P (NetV6 (fst e), snd e))"
  by (simp add: ccr_entries_def ball_Un case_prod_unfold)

lemma ccr_lookup_None_iff:
  "ccr_lookup N r ip = None \<longleftrightarrow> (\<forall>(net, v) \<in> ccr_entries r. \<not> ip_net_contains N net ip)"
  by (cases ip) (auto simp: ccr_lookup_def cidr4.search_None_iff cidr6.search_None_iff
      ip_net_contains_def ball_ccr_entries)

lemma ccr_lookup_Some:
  assumes "ccr_sorted N r" and "ccr_lookup N r ip = Some v"
  shows "\<exists>net. (net, v) \<in> ccr_entries r \<and> ip_net_contains N net ip \<and>
     (\<forall>(net', v') \<in> ccr_entries r. ip_net_contains N net' ip \<longrightarrow>
        ip_net_prefix_len N net' \<le> ip_net_prefix_len N net)"
proof (cases ip)
  case (V4 a)
  with assms(2) obtain e where e: "ccr_search4 N (ccr_v4 r) a = Some e" "v = snd e"
    by (auto simp: ccr_lookup_def)
  from cidr4.search_Some [OF _ e(1)] assms(1) show ?thesis
    by (intro exI [of _ "NetV4 (fst e)"])
      (auto simp: ccr_sorted_def V4 e(2) ip_net_defs ccr_entries_V4_iff split: IpNet.splits)
next
  case (V6 a)
  with assms(2) obtain e where e: "ccr_search6 N (ccr_v6 r) a = Some e" "v = snd e"
    by (auto simp: ccr_lookup_def)
  from cidr6.search_Some [OF _ e(1)] assms(1) show ?thesis
    by (intro exI [of _ "NetV6 (fst e)"])
      (auto simp: ccr_sorted_def V6 e(2) ip_net_defs ccr_entries_V6_iff split: IpNet.splits)
qed

lemma find_map_filter_Some:
  assumes "falling key es" and "find_map g (filter P es) = Some y"
  shows "\<exists>e \<in> set es. P e \<and> g e = Some y \<and>
     (\<forall>e' \<in> set es. P e' \<longrightarrow> key e < key e' \<longrightarrow> g e' = None)"
  using assms
proof (induction es)
  case (Cons x es)
  then have "falling key es" by (simp add: falling_def)
  show ?case
  proof (cases "P x \<and> g x \<noteq> None")
    case True
    moreover have "\<forall>e' \<in> set (x # es). \<not> key x < key e'"
      using Cons.prems(1) by (auto simp: falling_def)
    ultimately show ?thesis
      using Cons.prems(2) by (intro bexI [of _ x]) auto
  next
    case False
    with Cons.prems(2) have "find_map g (filter P es) = Some y"
      by (auto split: if_splits option.splits)
    with Cons.IH [OF \<open>falling key es\<close>] False show ?thesis by auto
  qed
qed simp

lemma find_map_None_iff: "find_map g xs = None \<longleftrightarrow> (\<forall>x \<in> set xs. g x = None)"
  by (induction xs) (auto split: option.splits)

lemma ccr_find_map_matching_None_iff:
  "ccr_find_map_matching N r ip f = None \<longleftrightarrow>
     (\<forall>(net, v) \<in> ccr_entries r. ip_net_contains N net ip \<longrightarrow> f v = None)"
  by (cases ip) (auto simp: ccr_find_map_matching_def find_map_None_iff ip_net_contains_def
      ball_ccr_entries)

lemma ccr_find_map_matching_Some:
  assumes "ccr_sorted N r" and "ccr_find_map_matching N r ip f = Some y"
  shows "\<exists>net v. (net, v) \<in> ccr_entries r \<and> ip_net_contains N net ip \<and> f v = Some y \<and>
     (\<forall>(net', v') \<in> ccr_entries r. ip_net_contains N net' ip \<longrightarrow>
        ip_net_prefix_len N net < ip_net_prefix_len N net' \<longrightarrow> f v' = None)"
proof (cases ip)
  case (V4 a)
  with assms find_map_filter_Some
    [of "\<lambda>e. net4_prefix_len N (fst e)" "ccr_v4 r" "\<lambda>(_, v). f v" "\<lambda>(net, _). net4_contains N net a" y]
  obtain n v where nv: "(n, v) \<in> set (ccr_v4 r)" "net4_contains N n a" "f v = Some y"
      "\<forall>e' \<in> set (ccr_v4 r). net4_contains N (fst e') a \<longrightarrow>
         net4_prefix_len N n < net4_prefix_len N (fst e') \<longrightarrow> f (snd e') = None"
    by (force simp: ccr_find_map_matching_def ccr_sorted_def)
  then show ?thesis
    by (intro exI [of _ "NetV4 n"] exI [of _ v])
      (force simp: V4 ip_net_defs ccr_entries_V4_iff split: IpNet.splits)
next
  case (V6 a)
  with assms find_map_filter_Some
    [of "\<lambda>e. net6_prefix_len N (fst e)" "ccr_v6 r" "\<lambda>(_, v). f v" "\<lambda>(net, _). net6_contains N net a" y]
  obtain n v where nv: "(n, v) \<in> set (ccr_v6 r)" "net6_contains N n a" "f v = Some y"
      "\<forall>e' \<in> set (ccr_v6 r). net6_contains N (fst e') a \<longrightarrow>
         net6_prefix_len N n < net6_prefix_len N (fst e') \<longrightarrow> f (snd e') = None"
    by (force simp: ccr_find_map_matching_def ccr_sorted_def)
  then show ?thesis
    by (intro exI [of _ "NetV6 n"] exI [of _ v])
      (force simp: V6 ip_net_defs ccr_entries_V6_iff split: IpNet.splits)
qed

section \<open>Properties\<close>

text \<open>
  C29: \<open>client_routes\<close> is a longest-prefix-match table: whatever the iteration order of the
  configured map, the group found for a client address is the value of an entry whose network
  contains the address and than which no containing network has a longer prefix; no group is
  found exactly when no network contains the address.
\<close>

theorem client_routes_longest_prefix:
  assumes "build_client_routes N cfg = Inr r"
  shows "(ccr_lookup N r ip = None \<longleftrightarrow>
       (\<forall>(s, g) \<in> set cfg. \<forall>net. parse_ip_or_cidr N s = Some net \<longrightarrow> \<not> ip_net_contains N net ip)) \<and>
     (\<forall>g. ccr_lookup N r ip = Some g \<longrightarrow>
       (\<exists>s net. (s, g) \<in> set cfg \<and> parse_ip_or_cidr N s = Some net \<and> ip_net_contains N net ip \<and>
          (\<forall>(s', g') \<in> set cfg. \<forall>net'. parse_ip_or_cidr N s' = Some net' \<longrightarrow>
             ip_net_contains N net' ip \<longrightarrow> ip_net_prefix_len N net' \<le> ip_net_prefix_len N net)))"
proof -
  note built = ccr_build_entries [OF assms [unfolded build_client_routes_def]]
  have entries: "ccr_entries r = {(net, g). \<exists>s. (s, g) \<in> set cfg \<and> parse_ip_or_cidr N s = Some net}"
    using built(2) by auto
  show ?thesis
  proof (intro conjI allI impI)
    show "ccr_lookup N r ip = None \<longleftrightarrow>
       (\<forall>(s, g) \<in> set cfg. \<forall>net. parse_ip_or_cidr N s = Some net \<longrightarrow> \<not> ip_net_contains N net ip)"
      unfolding ccr_lookup_None_iff entries by blast
  next
    fix g
    assume "ccr_lookup N r ip = Some g"
    from ccr_lookup_Some [OF built(1) this]
    show "\<exists>s net. (s, g) \<in> set cfg \<and> parse_ip_or_cidr N s = Some net \<and> ip_net_contains N net ip \<and>
          (\<forall>(s', g') \<in> set cfg. \<forall>net'. parse_ip_or_cidr N s' = Some net' \<longrightarrow>
             ip_net_contains N net' ip \<longrightarrow> ip_net_prefix_len N net' \<le> ip_net_prefix_len N net)"
      unfolding entries by blast
  qed
qed

theorem client_routes_longest_prefix_witness:
  "\<exists>r. build_client_routes word_net_ops [(''10.0.0.1'', ''g'')] = Inr r \<and>
     ccr_lookup word_net_ops r (V4 0x0A000001) = Some ''g'' \<and>
     (\<exists>s net. (s, ''g'') \<in> set [(''10.0.0.1'', ''g'')] \<and> parse_ip_or_cidr word_net_ops s = Some net \<and>
        ip_net_contains word_net_ops net (V4 0x0A000001))"
proof -
  let ?r = "\<lparr>ccr_v4 = [((0x0A000001, 32), ''g'')], ccr_v6 = []\<rparr>"
  have b: "build_client_routes word_net_ops [(''10.0.0.1'', ''g'')] = Inr ?r"
    by (simp add: build_client_routes_def ccr_build_def parse_ip_or_cidr_def word_net_ops_def
        ccr_insert_def ccr_new_def ccr_finalize_def sort_by_key_rev_def)
  have l: "ccr_lookup word_net_ops ?r (V4 0x0A000001) = Some ''g''"
    by (simp add: ccr_lookup_def ccr_search4_def word_net_ops_def word_net_contains_def)
  from client_routes_longest_prefix [OF b, of "V4 0x0A000001"] b l show ?thesis by blast
qed

end
