(* ===== verification/Ttl_Cache.thy ===== *)
theory Ttl_Cache
  imports Main "HOL-Library.AList"
begin

text \<open>
  The route caches of \<open>state.rs\<close>: a concurrent map from a key to a value and the instant it
  was written. An entry older than the time to live is removed when it is read; when the map has
  reached the configured size, stale entries are dropped before the insertion. The locale
  \<open>ttl_cache\<close> is the contract the routing code relies on: a hit was inserted before under the
  same key, and no operation invents entries.
\<close>

type_synonym ('k, 'v) cache = "('k \<times> ('v \<times> nat)) list"

definition cache_get :: "nat \<Rightarrow> nat \<Rightarrow> 'k \<Rightarrow> ('k, 'v) cache \<Rightarrow> 'v option \<times> ('k, 'v) cache" where
  "cache_get now ttl key c =
     (case map_of c key of
        Some (v, t) \<Rightarrow> if now - t < ttl then (Some v, c) else (None, AList.delete key c)
      | None \<Rightarrow> (None, c))"

definition cache_put :: "nat \<Rightarrow> nat \<Rightarrow> nat \<Rightarrow> 'k \<Rightarrow> 'v \<Rightarrow> ('k, 'v) cache \<Rightarrow> ('k, 'v) cache" where
  "cache_put now ttl cap key v c =
     (let c' = (if cap \<le> length c then filter (\<lambda>e. now - snd (snd e) < ttl) c else c)
      in AList.update key (v, now) c')"

definition cache_entries :: "('k, 'v) cache \<Rightarrow> ('k \<times> 'v) set" where
  "cache_entries c = (\<lambda>e. (fst e, fst (snd e))) ` set c"

definition cache_ok :: "('k, 'v) cache \<Rightarrow> bool" where
  "cache_ok c \<longleftrightarrow> distinct (map fst c)"

locale ttl_cache =
  fixes get :: "nat \<Rightarrow> 'k \<Rightarrow> 'c \<Rightarrow> 'v option \<times> 'c"
    and put :: "nat \<Rightarrow> 'k \<Rightarrow> 'v \<Rightarrow> 'c \<Rightarrow> 'c"
    and entries :: "'c \<Rightarrow> ('k \<times> 'v) set"
  assumes get_hit: "get now k c = (Some v, c') \<Longrightarrow> (k, v) \<in> entries c"
    and get_entries: "get now k c = (r, c') \<Longrightarrow> entries c' \<subseteq> entries c"
    and put_entries: "entries (put now k v c) \<subseteq> insert (k, v) (entries c)"
begin

lemma hit_satisfies:
  "get now k c = (Some v, c') \<Longrightarrow> \<forall>(k, v) \<in> entries c. P k v \<Longrightarrow> P k v"
  using get_hit by blast

lemma get_keeps:
  "get now k c = (r, c') \<Longrightarrow> \<forall>(k, v) \<in> entries c. P k v \<Longrightarrow> \<forall>(k, v) \<in> entries c'. P k v"
  using get_entries by blast

lemma put_keeps:
  "P k v \<Longrightarrow> \<forall>(k, v) \<in> entries c. P k v \<Longrightarrow> \<forall>(k', v') \<in> entries (put now k v c). P k' v'"
  using put_entries by blast

end

interpretation rc: ttl_cache "\<lambda>now. cache_get now ttl" "\<lambda>now. cache_put now ttl cap" cache_entries
  for ttl cap
proof unfold_locales
  fix now k and c :: "('k, 'v) cache" and v c'
  assume "cache_get now ttl k c = (Some v, c')"
  then show "(k, v) \<in> cache_entries c"
    by (force simp: cache_get_def cache_entries_def dest: map_of_SomeD
        split: option.splits if_splits prod.splits)
next
  fix now k and c :: "('k, 'v) cache" and r c'
  assume "cache_get now ttl k c = (r, c')"
  then have "set c' \<subseteq> set c"
    by (auto simp: cache_get_def AList.delete_eq split: option.splits if_splits)
  then show "cache_entries c' \<subseteq> cache_entries c"
    by (auto simp: cache_entries_def)
next
  fix now k v and c :: "('k, 'v) cache"
  have upd: "set (AList.update k (v, now) c) \<subseteq> insert (k, v, now) (set c)" for c :: "('k, 'v) cache"
    by (induction c) auto
  then have "set (cache_put now ttl cap k v c) \<subseteq> insert (k, v, now) (set c)"
    using upd [of c] upd [of "filter (\<lambda>e. now - snd (snd e) < ttl) c"]
    by (auto simp: cache_put_def)
  then show "cache_entries (cache_put now ttl cap k v c) \<subseteq> insert (k, v) (cache_entries c)"
    by (force simp: cache_entries_def)
qed

section \<open>Freshness\<close>

lemma cache_ok_get: "cache_ok c \<Longrightarrow> cache_ok (snd (cache_get now ttl k c))"
  by (auto simp: cache_ok_def cache_get_def AList.distinct_delete split: option.splits)

lemma cache_ok_put: "cache_ok c \<Longrightarrow> cache_ok (cache_put now ttl cap k v c)"
  by (auto simp: cache_ok_def cache_put_def Let_def AList.distinct_update
      intro!: AList.distinct_update distinct_map_filter)

lemma map_of_cache_put_same: "map_of (cache_put now ttl cap k v c) k = Some (v, now)"
  by (simp add: cache_put_def Let_def AList.update_conv')

lemma cache_get_put_same:
  "fst (cache_get later ttl k (cache_put now ttl cap k v c)) =
     (if later - now < ttl then Some v else None)"
  by (simp add: cache_get_def map_of_cache_put_same)

lemma cache_get_delete: "fst (cache_get now ttl k (AList.delete k c)) = None"
  by (simp add: cache_get_def AList.delete_conv')

text \<open>A new key always adds an entry when nothing in the map is stale.\<close>

lemma length_cache_put_fresh:
  assumes "k \<notin> fst ` set c" and "\<forall>e \<in> set c. now - snd (snd e) < ttl"
  shows "length (cache_put now ttl cap k v c) = Suc (length c)"
proof -
  have "k \<notin> fst ` set c \<Longrightarrow> length (AList.update k x c) = Suc (length c)" for x and c :: "('a, 'b) cache"
    by (induction c) auto
  with assms show ?thesis
    by (simp add: cache_put_def Let_def)
qed

end
