(* ===== verification/Routing.thy ===== *)
theory Routing
  imports Config_Data Cidr_Routes Ttl_Cache
begin

text \<open>
  The routing decisions of \<open>AppState\<close> (\<open>state.rs\<close>): direct or proxy for a target, the
  decision cache, the upstream cache, the group lookup and the tests whether a domain has to be
  sniffed. The MMDB reader is a field of the state: a function from an address to the ISO code its
  record decodes to. Instants and the time to live are natural numbers in one unit; an operation
  reads the clock once.
\<close>

section \<open>State\<close>

record ('n4, 'n6, 'up) AppState =
  st_config :: Config
  st_mmdb :: "(IpAddr \<Rightarrow> rstr option) option"
  st_force_direct_v4 :: "'n4 list"
  st_force_direct_v6 :: "'n6 list"
  st_force_socks5_v4 :: "'n4 list"
  st_force_socks5_v6 :: "'n6 list"
  st_force_direct_domains :: DomainSet
  st_force_socks5_domains :: DomainSet
  st_compiled_geosite :: "CompiledGeosite option"
  st_proxy_mode :: u8
  st_client_routes :: "('n4, 'n6) ClientIpRoutes"
  st_client_domain_routes :: "('n4, 'n6) ClientDomainRoutes"
  st_client_dst_ip_routes :: "('n4, 'n6) ClientDstIpRoutes"
  st_route_cache_ttl :: nat
  st_direct_cache :: "(IpAddr \<times> rstr option, bool) cache"
  st_upstream_cache :: "(IpAddr \<times> IpAddr \<times> rstr option, 'up) cache"

definition normalize_domain :: "rstr option \<Rightarrow> rstr option" where
  "normalize_domain d = map_option canonical_domain d"

section \<open>Direct or proxy\<close>

definition is_direct_country_ip :: "('n4, 'n6, 'up) AppState \<Rightarrow> IpAddr \<Rightarrow> bool" where
  "is_direct_country_ip st ip =
     (case st_mmdb st of
        None \<Rightarrow> False
      | Some lookup \<Rightarrow>
          (case lookup ip of
             None \<Rightarrow> False
           | Some code \<Rightarrow> list_ex (\<lambda>c. eq_ignore_ascii_case c code) (c_direct_countries (st_config st))))"

definition ip_rules :: "('n4, 'n6) net_ops \<Rightarrow> ('n4, 'n6, 'up) AppState \<Rightarrow> IpAddr \<Rightarrow> bool" where
  "ip_rules N st ip =
     (case ip of
        V4 a \<Rightarrow>
          if ipv4_trie_contains N (st_force_socks5_v4 st) a then False
          else if ipv4_trie_contains N (st_force_direct_v4 st) a then True
          else (c_direct_local_ip (st_config st) \<and> is_must_direct_local_ip ip) \<or> is_direct_country_ip st ip
      | V6 a \<Rightarrow>
          if ipv6_trie_contains N (st_force_socks5_v6 st) a then False
          else if ipv6_trie_contains N (st_force_direct_v6 st) a then True
          else (c_direct_local_ip (st_config st) \<and> is_must_direct_local_ip ip) \<or> is_direct_country_ip st ip)"

definition direct_cache_insert_with_key ::
  "nat \<Rightarrow> ('n4, 'n6, 'up) AppState \<Rightarrow> IpAddr \<Rightarrow> rstr option \<Rightarrow> bool \<Rightarrow> ('n4, 'n6, 'up) AppState" where
  "direct_cache_insert_with_key now st ip normalized direct =
     st\<lparr>st_direct_cache := cache_put now (st_route_cache_ttl st) (c_route_cache_max (st_config st))
          (ip, normalized) direct (st_direct_cache st)\<rparr>"

text \<open>The domain rules: \<open>Some b\<close> when one of them decides.\<close>

definition force_domain_rules :: "('n4, 'n6, 'up) AppState \<Rightarrow> rstr option \<Rightarrow> bool option" where
  "force_domain_rules st domain =
     (case domain of
        None \<Rightarrow> None
      | Some d \<Rightarrow>
          (let canonical = canonical_domain d
           in if matches_canonical (st_force_socks5_domains st) canonical then Some False
              else if matches_canonical (st_force_direct_domains st) canonical then Some True
              else None))"

definition geosite_rules :: "('n4, 'n6, 'up) AppState \<Rightarrow> rstr option \<Rightarrow> bool option" where
  "geosite_rules st domain =
     (case (st_compiled_geosite st, domain) of
        (Some compiled, Some d) \<Rightarrow>
          if list_ex (\<lambda>tag. compiled_geosite_contains compiled tag d) (c_proxy_geosite_tags (st_config st))
          then Some False
          else if list_ex (\<lambda>tag. compiled_geosite_contains compiled tag d) (c_direct_geosite_tags (st_config st))
          then Some True
          else None
      | _ \<Rightarrow> None)"

definition should_direct ::
  "('n4, 'n6) net_ops \<Rightarrow> nat \<Rightarrow> ('n4, 'n6, 'up) AppState \<Rightarrow> IpAddr \<Rightarrow> rstr option \<Rightarrow>
   bool \<times> ('n4, 'n6, 'up) AppState" where
  "should_direct N now st ip domain =
     (case proxy_mode_from_u8 (st_proxy_mode st) of
        Global \<Rightarrow> (False, st)
      | Bypass \<Rightarrow> (True, st)
      | Smart \<Rightarrow>
          (let cache_active = (st_route_cache_ttl st \<noteq> 0);
               normalized = (if cache_active then normalize_domain domain else None)
           in case force_domain_rules st domain of
                Some b \<Rightarrow> (b, st)
              | None \<Rightarrow>
                  (case geosite_rules st domain of
                     Some b \<Rightarrow> (b, st)
                   | None \<Rightarrow>
                       (if cache_active
                        then (case cache_get now (st_route_cache_ttl st) (ip, normalized) (st_direct_cache st) of
                                (Some b, _) \<Rightarrow> (b, st)
                              | (None, c') \<Rightarrow>
                                  (let st' = st\<lparr>st_direct_cache := c'\<rparr>; result = ip_rules N st' ip
                                   in (result, direct_cache_insert_with_key now st' ip normalized result)))
                        else (ip_rules N st ip, st)))))"

section \<open>Upstream cache\<close>

definition get_cached_upstream ::
  "nat \<Rightarrow> ('n4, 'n6, 'up) AppState \<Rightarrow> IpAddr \<Rightarrow> IpAddr \<Rightarrow> rstr option \<Rightarrow>
   'up option \<times> ('n4, 'n6, 'up) AppState" where
  "get_cached_upstream now st client_ip target_ip domain =
     (if st_route_cache_ttl st = 0 then (None, st)
      else case cache_get now (st_route_cache_ttl st) (client_ip, target_ip, normalize_domain domain)
                  (st_upstream_cache st) of
             (r, c') \<Rightarrow> (r, st\<lparr>st_upstream_cache := c'\<rparr>))"

definition cache_upstream ::
  "nat \<Rightarrow> ('n4, 'n6, 'up) AppState \<Rightarrow> IpAddr \<Rightarrow> IpAddr \<Rightarrow> rstr option \<Rightarrow> 'up \<Rightarrow>
   ('n4, 'n6, 'up) AppState" where
  "cache_upstream now st client_ip target_ip domain up =
     (if st_route_cache_ttl st = 0 then st
      else st\<lparr>st_upstream_cache := cache_put now (st_route_cache_ttl st) (c_route_cache_max (st_config st))
                (client_ip, target_ip, normalize_domain domain) up (st_upstream_cache st)\<rparr>)"

definition remove_cached_upstream ::
  "('n4, 'n6, 'up) AppState \<Rightarrow> IpAddr \<Rightarrow> IpAddr \<Rightarrow> rstr option \<Rightarrow> ('n4, 'n6, 'up) AppState" where
  "remove_cached_upstream st client_ip target_ip domain =
     st\<lparr>st_upstream_cache := AList.delete (client_ip, target_ip, normalize_domain domain)
          (st_upstream_cache st)\<rparr>"

section \<open>Groups and sniffing needs\<close>

definition need_geosite_sniff :: "('n4, 'n6, 'up) AppState \<Rightarrow> bool" where
  "need_geosite_sniff st =
     (if \<not> domain_set_is_empty (st_force_direct_domains st) \<or> \<not> domain_set_is_empty (st_force_socks5_domains st)
      then True
      else st_compiled_geosite st \<noteq> None \<and>
           (c_proxy_geosite_tags (st_config st) \<noteq> [] \<or> c_direct_geosite_tags (st_config st) \<noteq> []) \<and>
           proxy_mode_from_u8 (st_proxy_mode st) = Smart)"

definition need_upstream_domain_sniff ::
  "('n4, 'n6) net_ops \<Rightarrow> ('n4, 'n6, 'up) AppState \<Rightarrow> IpAddr \<Rightarrow> bool" where
  "need_upstream_domain_sniff N st client_ip \<longleftrightarrow>
     c_client_domain_routes (st_config st) \<noteq> [] \<and>
     ccr_lookup N (st_client_domain_routes st) client_ip \<noteq> None"

definition lookup_upstream_group ::
  "('n4, 'n6) net_ops \<Rightarrow> ('n4, 'n6, 'up) AppState \<Rightarrow> IpAddr \<Rightarrow> IpAddr \<Rightarrow> rstr option \<Rightarrow> rstr" where
  "lookup_upstream_group N st client_ip dst_ip domain =
     (case ccr_find_map_matching N (st_client_dst_ip_routes st) client_ip (\<lambda>t. ccr_lookup N t dst_ip) of
        Some g \<Rightarrow> g
      | None \<Rightarrow>
          (case domain of
             Some d \<Rightarrow>
               (case ccr_find_map_matching N (st_client_domain_routes st) client_ip
                       (\<lambda>t. domain_route_lookup t d) of
                  Some g \<Rightarrow> g
                | None \<Rightarrow>
                    (case ccr_lookup N (st_client_routes st) client_ip of
                       Some g \<Rightarrow> g
                     | None \<Rightarrow> ''default''))
           | None \<Rightarrow>
               (case ccr_lookup N (st_client_routes st) client_ip of
                  Some g \<Rightarrow> g
                | None \<Rightarrow> ''default'')))"

section \<open>SIGUSR1 (main.rs)\<close>

definition rotate_proxy_mode :: "('n4, 'n6, 'up) AppState \<Rightarrow> ('n4, 'n6, 'up) AppState" where
  "rotate_proxy_mode st =
     st\<lparr>st_proxy_mode := proxy_mode_as_u8 (proxy_mode_next (proxy_mode_from_u8 (st_proxy_mode st)))\<rparr>"

section \<open>The specification: a priority list of rules\<close>

text \<open>
  The first rule of the list that has an opinion decides; with no opinion the target is proxied.
\<close>

fun first_opinion :: "bool option list \<Rightarrow> bool" where
  "first_opinion [] = False"
| "first_opinion (None # rs) = first_opinion rs"
| "first_opinion (Some b # rs) = b"

definition trie_hit :: "('n4, 'n6) net_ops \<Rightarrow> 'n4 list \<Rightarrow> 'n6 list \<Rightarrow> IpAddr \<Rightarrow> bool" where
  "trie_hit N v4 v6 ip = (case ip of V4 a \<Rightarrow> ipv4_trie_contains N v4 a | V6 a \<Rightarrow> ipv6_trie_contains N v6 a)"

definition opinion :: "bool \<Rightarrow> bool \<Rightarrow> bool option" where
  "opinion cond b = (if cond then Some b else None)"

definition domain_opinion :: "(rstr \<Rightarrow> bool) \<Rightarrow> rstr option \<Rightarrow> bool \<Rightarrow> bool option" where
  "domain_opinion P domain b = opinion (case domain of None \<Rightarrow> False | Some d \<Rightarrow> P d) b"

definition in_geosite :: "('n4, 'n6, 'up) AppState \<Rightarrow> rstr list \<Rightarrow> rstr \<Rightarrow> bool" where
  "in_geosite st tags d =
     (case st_compiled_geosite st of
        None \<Rightarrow> False
      | Some compiled \<Rightarrow> \<exists>tag \<in> set tags. compiled_geosite_contains compiled tag d)"

definition smart_rules ::
  "('n4, 'n6) net_ops \<Rightarrow> ('n4, 'n6, 'up) AppState \<Rightarrow> IpAddr \<Rightarrow> rstr option \<Rightarrow> bool option list" where
  "smart_rules N st ip domain =
     [domain_opinion (\<lambda>d. matches_canonical (st_force_socks5_domains st) (canonical_domain d)) domain False,
      domain_opinion (\<lambda>d. matches_canonical (st_force_direct_domains st) (canonical_domain d)) domain True,
      domain_opinion (in_geosite st (c_proxy_geosite_tags (st_config st))) domain False,
      domain_opinion (in_geosite st (c_direct_geosite_tags (st_config st))) domain True,
      opinion (trie_hit N (st_force_socks5_v4 st) (st_force_socks5_v6 st) ip) False,
      opinion (trie_hit N (st_force_direct_v4 st) (st_force_direct_v6 st) ip) True,
      opinion (c_direct_local_ip (st_config st) \<and> is_must_direct_local_ip ip) True,
      opinion (is_direct_country_ip st ip) True]"

definition route_decision ::
  "('n4, 'n6) net_ops \<Rightarrow> ('n4, 'n6, 'up) AppState \<Rightarrow> IpAddr \<Rightarrow> rstr option \<Rightarrow> bool" where
  "route_decision N st ip domain =
     (case proxy_mode_from_u8 (st_proxy_mode st) of
        Global \<Rightarrow> False
      | Bypass \<Rightarrow> True
      | Smart \<Rightarrow> first_opinion (smart_rules N st ip domain))"

text \<open>Every cached decision is the one the IP rules give now.\<close>

definition direct_cache_coherent :: "('n4, 'n6) net_ops \<Rightarrow> ('n4, 'n6, 'up) AppState \<Rightarrow> bool" where
  "direct_cache_coherent N st \<longleftrightarrow>
     (\<forall>(k, b) \<in> cache_entries (st_direct_cache st). b = ip_rules N st (fst k))"

text \<open>
  What the process does with one generation of the state: routing decisions at any time, upstream
  cache traffic, and mode rotations.
\<close>

inductive app_step ::
  "('n4, 'n6) net_ops \<Rightarrow> ('n4, 'n6, 'up) AppState \<Rightarrow> ('n4, 'n6, 'up) AppState \<Rightarrow> bool" for N where
  decide: "app_step N st (snd (should_direct N now st ip domain))"
| cached: "app_step N st (snd (get_cached_upstream now st cip tip domain))"
| store: "app_step N st (cache_upstream now st cip tip domain up)"
| forget: "app_step N st (remove_cached_upstream st cip tip domain)"
| rotate: "app_step N st (rotate_proxy_mode st)"

inductive app_reachable ::
  "('n4, 'n6) net_ops \<Rightarrow> ('n4, 'n6, 'up) AppState \<Rightarrow> ('n4, 'n6, 'up) AppState \<Rightarrow> bool" for N st0 where
  start: "st_direct_cache st0 = [] \<Longrightarrow> app_reachable N st0 st0"
| step: "app_reachable N st0 st \<Longrightarrow> app_step N st st' \<Longrightarrow> app_reachable N st0 st'"

section \<open>Lemmas\<close>

lemma ip_rules_cong:
  "st_config st' = st_config st \<Longrightarrow> st_mmdb st' = st_mmdb st \<Longrightarrow>
   st_force_direct_v4 st' = st_force_direct_v4 st \<Longrightarrow> st_force_direct_v6 st' = st_force_direct_v6 st \<Longrightarrow>
   st_force_socks5_v4 st' = st_force_socks5_v4 st \<Longrightarrow> st_force_socks5_v6 st' = st_force_socks5_v6 st \<Longrightarrow>
   ip_rules N st' = ip_rules N st"
  by (rule ext, rename_tac ip, case_tac ip) (simp_all add: ip_rules_def is_direct_country_ip_def split: option.splits)

lemma ip_rules_opinions:
  "ip_rules N st ip = first_opinion
     [opinion (trie_hit N (st_force_socks5_v4 st) (st_force_socks5_v6 st) ip) False,
      opinion (trie_hit N (st_force_direct_v4 st) (st_force_direct_v6 st) ip) True,
      opinion (c_direct_local_ip (st_config st) \<and> is_must_direct_local_ip ip) True,
      opinion (is_direct_country_ip st ip) True]"
  by (cases ip) (simp_all add: ip_rules_def trie_hit_def opinion_def)

lemma first_opinion_domain_rules:
  "first_opinion (smart_rules N st ip domain) =
     (case force_domain_rules st domain of
        Some b \<Rightarrow> b
      | None \<Rightarrow> (case geosite_rules st domain of Some b \<Rightarrow> b | None \<Rightarrow> ip_rules N st ip))"
  by (cases domain)
    (auto simp: smart_rules_def ip_rules_opinions domain_opinion_def opinion_def force_domain_rules_def
      geosite_rules_def in_geosite_def list_ex_iff Let_def split: option.splits)

lemma direct_cache_coherent_put:
  assumes "direct_cache_coherent N st"
  shows "direct_cache_coherent N (direct_cache_insert_with_key now st ip d (ip_rules N st ip))"
proof -
  let ?st = "direct_cache_insert_with_key now st ip d (ip_rules N st ip)"
  have "ip_rules N ?st = ip_rules N st"
    by (rule ip_rules_cong) (simp_all add: direct_cache_insert_with_key_def)
  then show ?thesis
    using rc.put_keeps [where P = "\<lambda>k b. b = ip_rules N st (fst k)" and k = "(ip, d)"] assms
    by (auto simp: direct_cache_coherent_def direct_cache_insert_with_key_def)
qed

lemma direct_cache_coherent_shrink:
  assumes "direct_cache_coherent N st" and "cache_get now ttl k (st_direct_cache st) = (r, c')"
  shows "direct_cache_coherent N (st\<lparr>st_direct_cache := c'\<rparr>)"
proof -
  have "ip_rules N (st\<lparr>st_direct_cache := c'\<rparr>) = ip_rules N st"
    by (rule ip_rules_cong) simp_all
  then show ?thesis
    using rc.get_keeps [OF assms(2), where P = "\<lambda>k b. b = ip_rules N st (fst k)"] assms(1)
    by (simp add: direct_cache_coherent_def)
qed

lemma should_direct_correct:
  assumes "direct_cache_coherent N st"
  shows "fst (should_direct N now st ip domain) = route_decision N st ip domain"
    and "direct_cache_coherent N (snd (should_direct N now st ip domain))"
proof -
  let ?norm = "if st_route_cache_ttl st \<noteq> 0 then normalize_domain domain else None"
  obtain r c' where g: "cache_get now (st_route_cache_ttl st) (ip, ?norm) (st_direct_cache st) = (r, c')"
    by fastforce
  have hit: "b = ip_rules N st ip" if "r = Some b" for b
    using rc.hit_satisfies [OF g [unfolded that], where P = "\<lambda>k b. b = ip_rules N st (fst k)"] assms
    by (simp add: direct_cache_coherent_def)
  have same: "ip_rules N (st\<lparr>st_direct_cache := c'\<rparr>) = ip_rules N st"
    by (rule ip_rules_cong) simp_all
  show "fst (should_direct N now st ip domain) = route_decision N st ip domain"
    using g hit same
    by (auto simp: should_direct_def route_decision_def first_opinion_domain_rules Let_def
        split: ProxyMode.splits option.splits if_splits)
  show "direct_cache_coherent N (snd (should_direct N now st ip domain))"
    using g assms direct_cache_coherent_put [OF direct_cache_coherent_shrink [OF assms g], of now ip]
    by (auto simp: should_direct_def Let_def split: ProxyMode.splits option.splits if_splits)
qed

text \<open>The parts of the state that the IP rules read.\<close>

definition same_rules :: "('n4, 'n6, 'up) AppState \<Rightarrow> ('n4, 'n6, 'up) AppState \<Rightarrow> bool" where
  "same_rules st' st \<longleftrightarrow>
     st_config st' = st_config st \<and> st_mmdb st' = st_mmdb st \<and>
     st_force_direct_v4 st' = st_force_direct_v4 st \<and> st_force_direct_v6 st' = st_force_direct_v6 st \<and>
     st_force_socks5_v4 st' = st_force_socks5_v4 st \<and> st_force_socks5_v6 st' = st_force_socks5_v6 st"

lemma coherent_same:
  assumes "direct_cache_coherent N st" and "same_rules st' st" and "st_direct_cache st' = st_direct_cache st"
  shows "direct_cache_coherent N st'"
proof -
  have "ip_rules N st' = ip_rules N st"
    using assms(2) by (intro ip_rules_cong) (simp_all add: same_rules_def)
  then show ?thesis
    using assms(1,3) by (simp add: direct_cache_coherent_def)
qed

lemma app_step_coherent:
  assumes "app_step N st st'" and "direct_cache_coherent N st"
  shows "direct_cache_coherent N st'"
  using assms
proof (induction rule: app_step.induct)
  case (decide st now ip domain)
  then show ?case by (rule should_direct_correct(2))
next
  case (cached st now cip tip domain)
  then show ?case
    by (rule coherent_same) (simp_all add: same_rules_def get_cached_upstream_def split: prod.split)
next
  case (store st now cip tip domain up)
  then show ?case
    by (rule coherent_same) (simp_all add: same_rules_def cache_upstream_def)
next
  case (forget st cip tip domain)
  then show ?case
    by (rule coherent_same) (simp_all add: same_rules_def remove_cached_upstream_def)
next
  case (rotate st)
  then show ?case
    by (rule coherent_same) (simp_all add: same_rules_def rotate_proxy_mode_def)
qed

lemma app_reachable_coherent: "app_reachable N st0 st \<Longrightarrow> direct_cache_coherent N st"
proof (induction rule: app_reachable.induct)
  case start
  then show ?case by (simp add: direct_cache_coherent_def cache_entries_def)
next
  case (step st st')
  then show ?case by (blast intro: app_step_coherent)
qed

section \<open>Groups\<close>

text \<open>
  An entry of a client table answers for a client address when its network contains the address,
  its value has an answer, and no containing network with a longer prefix has one.
\<close>

definition table_answer ::
  "('n4, 'n6) net_ops \<Rightarrow> ('n4, 'n6, 't) ClientCidrRoutes \<Rightarrow> IpAddr \<Rightarrow> ('t \<Rightarrow> rstr option) \<Rightarrow> rstr \<Rightarrow> bool" where
  "table_answer N r client f g \<longleftrightarrow>
     (\<exists>(net, v) \<in> ccr_entries r. ip_net_contains N net client \<and> f v = Some g \<and>
        (\<forall>(net', v') \<in> ccr_entries r. ip_net_contains N net' client \<longrightarrow>
           ip_net_prefix_len N net < ip_net_prefix_len N net' \<longrightarrow> f v' = None))"

definition table_silent ::
  "('n4, 'n6) net_ops \<Rightarrow> ('n4, 'n6, 't) ClientCidrRoutes \<Rightarrow> IpAddr \<Rightarrow> ('t \<Rightarrow> rstr option) \<Rightarrow> bool" where
  "table_silent N r client f \<longleftrightarrow>
     (\<forall>(net, v) \<in> ccr_entries r. ip_net_contains N net client \<longrightarrow> f v = None)"

lemma find_map_matching_answer:
  "ccr_sorted N r \<Longrightarrow> ccr_find_map_matching N r client f = Some g \<Longrightarrow> table_answer N r client f g"
  unfolding table_answer_def by (drule (1) ccr_find_map_matching_Some) blast

lemma find_map_matching_silent:
  "ccr_find_map_matching N r client f = None \<longleftrightarrow> table_silent N r client f"
  by (simp add: table_silent_def ccr_find_map_matching_None_iff)

lemma ccr_lookup_answer:
  assumes "ccr_sorted N r" and "ccr_lookup N r client = Some g"
  shows "table_answer N r client Some g"
proof -
  from ccr_lookup_Some [OF assms] obtain net where "(net, g) \<in> ccr_entries r"
      "ip_net_contains N net client"
      "\<forall>(net', v') \<in> ccr_entries r. ip_net_contains N net' client \<longrightarrow>
         ip_net_prefix_len N net' \<le> ip_net_prefix_len N net"
    by blast
  then show ?thesis
    unfolding table_answer_def by (intro bexI [of _ "(net, g)"]) (auto simp: not_less)
qed

lemma ccr_lookup_silent: "ccr_lookup N r client = None \<longleftrightarrow> table_silent N r client Some"
  by (auto simp: table_silent_def ccr_lookup_None_iff)

lemma lookup_upstream_group_cases:
  assumes sorted: "ccr_sorted N (st_client_dst_ip_routes st)" "ccr_sorted N (st_client_domain_routes st)"
      "ccr_sorted N (st_client_routes st)"
    and g: "lookup_upstream_group N st client dst domain = g"
  defines "by_dst \<equiv> \<lambda>t. ccr_lookup N t dst"
    and "by_domain \<equiv> \<lambda>t. case domain of None \<Rightarrow> None | Some d \<Rightarrow> domain_route_lookup t d"
  shows "table_answer N (st_client_dst_ip_routes st) client by_dst g \<or>
     table_silent N (st_client_dst_ip_routes st) client by_dst \<and>
       (table_answer N (st_client_domain_routes st) client by_domain g \<or>
        table_silent N (st_client_domain_routes st) client by_domain \<and>
          (table_answer N (st_client_routes st) client Some g \<or>
           table_silent N (st_client_routes st) client Some \<and> g = ''default''))"
proof -
  let ?tail = "case ccr_lookup N (st_client_routes st) client of Some g \<Rightarrow> g | None \<Rightarrow> ''default''"
  have group: "g = (case ccr_find_map_matching N (st_client_dst_ip_routes st) client by_dst of
      Some g \<Rightarrow> g
    | None \<Rightarrow> (case ccr_find_map_matching N (st_client_domain_routes st) client by_domain of
        Some g \<Rightarrow> g | None \<Rightarrow> ?tail))"
  proof (cases domain)
    case None
    then have "ccr_find_map_matching N (st_client_domain_routes st) client by_domain = None"
      by (simp add: ccr_find_map_matching_None_iff by_domain_def)
    then show ?thesis
      using g None by (auto simp: lookup_upstream_group_def by_dst_def split: option.splits)
  next
    case (Some d)
    then have "by_domain = (\<lambda>t. domain_route_lookup t d)" by (simp add: by_domain_def)
    then show ?thesis
      using g Some by (auto simp: lookup_upstream_group_def by_dst_def split: option.splits)
  qed
  have tail: "table_answer N (st_client_routes st) client Some ?tail \<or>
      table_silent N (st_client_routes st) client Some \<and> ?tail = ''default''"
    using ccr_lookup_answer [OF sorted(3)] ccr_lookup_silent [of N "st_client_routes st" client]
    by (cases "ccr_lookup N (st_client_routes st) client") simp_all
  show ?thesis
  proof (cases "ccr_find_map_matching N (st_client_dst_ip_routes st) client by_dst")
    case (Some h)
    with find_map_matching_answer [OF sorted(1) this] group show ?thesis by simp
  next
    case no_dst: None
    show ?thesis
    proof (cases "ccr_find_map_matching N (st_client_domain_routes st) client by_domain")
      case (Some h)
      with find_map_matching_answer [OF sorted(2) this] group no_dst show ?thesis
        by (simp add: find_map_matching_silent)
    next
      case None
      with no_dst group have "g = ?tail" by simp
      with tail None no_dst show ?thesis by (simp add: find_map_matching_silent)
    qed
  qed
qed

lemma trie_hit_covers:
  assumes "trie_laws N"
  shows "trie_hit N (fst (build_ip_tries nets)) (snd (build_ip_tries nets)) ip \<longleftrightarrow>
     (\<exists>net \<in> set nets. ip_net_contains N net ip \<and> 0 < ip_net_prefix_len N net)"
proof (cases ip)
  case (V4 a)
  have "(\<exists>net \<in> set nets. ip_net_contains N net (V4 a) \<and> 0 < ip_net_prefix_len N net) \<longleftrightarrow>
      (\<exists>n. NetV4 n \<in> set nets \<and> net4_contains N n a \<and> 0 < net4_prefix_len N n)"
    by (auto simp: ip_net_defs split: IpNet.splits) (metis IpNet.exhaust)
  then show ?thesis
    by (auto simp: V4 trie_hit_def trie4_contains_iff [OF assms] set_build_ip_tries)
next
  case (V6 a)
  have "(\<exists>net \<in> set nets. ip_net_contains N net (V6 a) \<and> 0 < ip_net_prefix_len N net) \<longleftrightarrow>
      (\<exists>n. NetV6 n \<in> set nets \<and> net6_contains N n a \<and> 0 < net6_prefix_len N n)"
    by (auto simp: ip_net_defs split: IpNet.splits) (metis IpNet.exhaust)
  then show ?thesis
    by (auto simp: V6 trie_hit_def trie6_contains_iff [OF assms] set_build_ip_tries)
qed

text \<open>A force list as written: some entry denotes a network of positive prefix length with the address.\<close>

definition net_listed :: "('n4, 'n6) net_ops \<Rightarrow> rstr list \<Rightarrow> IpAddr \<Rightarrow> bool" where
  "net_listed N raws ip \<longleftrightarrow>
     (\<exists>raw \<in> set raws. \<exists>net. parse_ip_or_cidr N (trim raw) = Some net \<and>
        ip_net_contains N net ip \<and> 0 < ip_net_prefix_len N net)"

lemma parse_ip_net_list_set:
  "parse_ip_net_list N raws = Inr nets \<Longrightarrow>
   set nets = {net. \<exists>raw \<in> set raws. parse_ip_or_cidr N (trim raw) = Some net}"
proof (induction raws arbitrary: nets)
  case (Cons raw raws)
  then obtain net rest where "parse_ip_or_cidr N (trim raw) = Some net" "parse_ip_net_list N raws = Inr rest"
      "nets = net # rest"
    by (auto simp: parse_ip_or_cidr_def Let_def split: if_splits option.splits sum.splits)
  with Cons.IH show ?case by auto
qed simp

lemma trie_hit_listed:
  assumes "trie_laws N" and "parse_ip_net_list N raws = Inr nets"
  shows "trie_hit N (fst (build_ip_tries nets)) (snd (build_ip_tries nets)) ip \<longleftrightarrow> net_listed N raws ip"
  unfolding trie_hit_covers [OF assms(1)] net_listed_def parse_ip_net_list_set [OF assms(2)] by blast

section \<open>Properties\<close>

text \<open>A state without rules, for the concrete instances.\<close>

definition ruleless_state :: "Config \<Rightarrow> ('n4, 'n6, 'up) AppState" where
  "ruleless_state cfg =
     \<lparr>st_config = cfg, st_mmdb = None, st_force_direct_v4 = [], st_force_direct_v6 = [],
      st_force_socks5_v4 = [], st_force_socks5_v6 = [],
      st_force_direct_domains = domain_set_compile [], st_force_socks5_domains = domain_set_compile [],
      st_compiled_geosite = None, st_proxy_mode = proxy_mode_as_u8 (c_proxy_mode cfg),
      st_client_routes = ccr_new, st_client_domain_routes = ccr_new, st_client_dst_ip_routes = ccr_new,
      st_route_cache_ttl = c_route_cache_ttl_secs cfg, st_direct_cache = [], st_upstream_cache = []\<rparr>"

text \<open>
  The upstream cache is sticky for exactly the time to live: after \<open>cache_upstream\<close>, a lookup
  for the same client, target and domain (up to the canonical form of the domain) gives the stored
  upstream while less than \<open>route_cache_ttl\<close> has passed and nothing from then on, and after
  \<open>remove_cached_upstream\<close> it gives nothing at all.
\<close>

theorem upstream_cache_roundtrip:
  assumes "st_route_cache_ttl st \<noteq> 0" and "normalize_domain d' = normalize_domain d"
  shows "fst (get_cached_upstream later (cache_upstream now st cip tip d up) cip tip d') =
       (if later - now < st_route_cache_ttl st then Some up else None) \<and>
     fst (get_cached_upstream later (remove_cached_upstream st cip tip d) cip tip d') = None"
  using assms
  by (simp add: get_cached_upstream_def cache_upstream_def remove_cached_upstream_def
      case_prod_unfold cache_get_put_same cache_get_delete)

theorem upstream_cache_roundtrip_witness:
  "fst (get_cached_upstream 13 (cache_upstream 10 (ruleless_state (default_config []) ::
       (unit, unit, nat) AppState) (V4 1) (V4 2) (Some ''A.b.'') 7) (V4 1) (V4 2) (Some ''a.B'')) = Some 7"
proof -
  let ?st = "ruleless_state (default_config []) :: (unit, unit, nat) AppState"
  have ttl: "st_route_cache_ttl ?st = 5"
    by (simp add: ruleless_state_def default_config_def)
  have "normalize_domain (Some ''a.B'') = normalize_domain (Some ''A.b.'')"
    by code_simp
  from upstream_cache_roundtrip [of ?st, OF _ this, of 13 10 "V4 1" "V4 2" 7] ttl show ?thesis
    by simp
qed

text \<open>
  \<open>route_cache_max\<close> does not bound the caches: when the map has reached it and no entry is
  stale, storing an upstream under a new key still adds an entry.
\<close>

theorem upstream_cache_exceeds_max:
  assumes "st_route_cache_ttl st \<noteq> 0"
    and "c_route_cache_max (st_config st) \<le> length (st_upstream_cache st)"
    and "(cip, tip, normalize_domain d) \<notin> fst ` set (st_upstream_cache st)"
    and "\<forall>e \<in> set (st_upstream_cache st). now - snd (snd e) < st_route_cache_ttl st"
  shows "c_route_cache_max (st_config st) < length (st_upstream_cache (cache_upstream now st cip tip d up))"
  using assms length_cache_put_fresh [OF assms(3,4)]
  by (simp add: cache_upstream_def)

theorem upstream_cache_exceeds_max_witness:
  "length (st_upstream_cache (cache_upstream 1 (cache_upstream 0
      (ruleless_state (default_config []\<lparr>c_route_cache_max := 1\<rparr>) :: (unit, unit, nat) AppState)
      (V4 1) (V4 2) None 7) (V4 1) (V4 3) None 8)) > 1"
proof -
  define st :: "(unit, unit, nat) AppState" where
    "st = cache_upstream 0 (ruleless_state (default_config []\<lparr>c_route_cache_max := 1\<rparr>)) (V4 1) (V4 2) None 7"
  have c: "st_upstream_cache st = [((V4 1, V4 2, None), (7, 0))]" "st_route_cache_ttl st = 5"
      "c_route_cache_max (st_config st) = 1"
    by (simp_all add: st_def cache_upstream_def ruleless_state_def default_config_def cache_put_def
        normalize_domain_def)
  have "1 < length (st_upstream_cache (cache_upstream 1 st (V4 1) (V4 3) None 8))"
    using upstream_cache_exceeds_max [of st "V4 1" "V4 3" None 1 8] by (simp add: c normalize_domain_def)
  then show ?thesis by (simp only: st_def)
qed

text \<open>
  The force lists. When \<open>force_socks5_ips\<close> and \<open>force_direct_ips\<close> parse, an address is
  covered by the compiled trie exactly when some listed network of positive prefix length contains
  it; a network of length 0, the whole address space, is never seen, because \<open>lookup\<close> answers with
  the same root prefix when nothing matches.
\<close>

theorem force_list_covers:
  assumes "trie_laws N" and "parse_ip_net_list N raws = Inr nets"
  shows "trie_hit N (fst (build_ip_tries nets)) (snd (build_ip_tries nets)) ip \<longleftrightarrow>
     (\<exists>raw \<in> set raws. \<exists>net. parse_ip_or_cidr N (trim raw) = Some net \<and>
        ip_net_contains N net ip \<and> 0 < ip_net_prefix_len N net)"
  unfolding trie_hit_listed [OF assms] net_listed_def ..

theorem force_list_covers_witness:
  "let nets = [NetV4 (0x0A000001, 32)]; (v4, v6) = build_ip_tries nets
   in parse_ip_net_list word_net_ops ['' 10.0.0.1''] = Inr nets \<and>
      trie_hit word_net_ops v4 v6 (V4 0x0A000001) \<and> \<not> trie_hit word_net_ops v4 v6 (V4 0x0A000002)"
proof -
  let ?nets = "[NetV4 (0x0A000001, 32 :: nat)] :: (ipv4 \<times> nat, ipv6 \<times> nat) IpNet list"
  have tr: "trim '' 10.0.0.1'' = ''10.0.0.1''" by code_simp
  then have p: "parse_ip_net_list word_net_ops ['' 10.0.0.1''] = Inr ?nets" by (simp add: word_net_ops_def)
  have hit: "trie_hit word_net_ops (fst (build_ip_tries ?nets)) (snd (build_ip_tries ?nets)) (V4 0x0A000001)"
    unfolding force_list_covers [OF word_net_ops_laws p]
    by (simp add: tr parse_ip_or_cidr_def ip_net_defs word_net_ops_def word_net_contains_def)
  have "\<not> trie_hit word_net_ops (fst (build_ip_tries ?nets)) (snd (build_ip_tries ?nets)) (V4 0x0A000002)"
    unfolding force_list_covers [OF word_net_ops_laws p]
    by (simp add: tr parse_ip_or_cidr_def ip_net_defs word_net_ops_def word_net_contains_def)
  with p hit show ?thesis unfolding Let_def case_prod_unfold by blast
qed

end
