(* ===== verification/Sniff_Types.thy ===== *)
theory Sniff_Types
  imports Rust_Str
begin

text \<open>
  The vocabulary the sniffers share (\<open>sniff/mod.rs\<close>): the outcome of one classification of a
  peeked prefix and the hostname check that every sniffed name has to pass.
\<close>

datatype SniffError = PeekEmpty | ProtocolNotMatched | NoTarget | ParseError | InvalidHostname | TooLarge

datatype SniffAttempt = Matched rstr | NeedMore | Abort SniffError

fun sni_labels_ok :: "rstr list \<Rightarrow> bool \<Rightarrow> bool" where
  "sni_labels_ok [] has_alpha = has_alpha"
| "sni_labels_ok (label # rest) has_alpha =
     (if label = [] \<or> 63 < length label then False
      else if hd label = CHR ''-'' \<or> last label = CHR ''-'' then False
      else if \<not> list_all (\<lambda>c. is_ascii_alphanumeric c \<or> c = CHR ''-'') label then False
      else sni_labels_ok rest (has_alpha \<or> list_ex is_ascii_alphabetic label))"

definition is_valid_sni_hostname :: "rstr \<Rightarrow> bool" where
  "is_valid_sni_hostname host =
     (if host = [] \<or> 253 < length host then False
      else if last host = CHR ''.'' then False
      else sni_labels_ok (split_char (CHR ''.'') host) False)"

text \<open>The rule the loop implements, label by label.\<close>

definition ldh_label :: "rstr \<Rightarrow> bool" where
  "ldh_label l \<longleftrightarrow> l \<noteq> [] \<and> length l \<le> 63 \<and> hd l \<noteq> CHR ''-'' \<and> last l \<noteq> CHR ''-'' \<and>
     (\<forall>c \<in> set l. is_ascii_alphanumeric c \<or> c = CHR ''-'')"

lemma sni_labels_ok_iff:
  "sni_labels_ok ls b \<longleftrightarrow>
     (\<forall>l \<in> set ls. ldh_label l) \<and> (b \<or> (\<exists>l \<in> set ls. \<exists>c \<in> set l. is_ascii_alphabetic c))"
  by (induction ls arbitrary: b) (auto simp: ldh_label_def list_all_iff list_ex_iff)

lemma chars_split_char: "(\<Union>l \<in> set (split_char d s). set l) = set s - {d}"
proof (induction s)
  case (Cons c s)
  then show ?case
    by (cases "split_char d s") auto
qed simp

lemma split_char_snoc: "split_char d (s @ [d]) = split_char d s @ [[]]"
proof (induction s)
  case (Cons c s)
  then show ?case
    by (cases "split_char d s") auto
qed simp

lemma split_char_last: "s \<noteq> [] \<Longrightarrow> last s = d \<Longrightarrow> [] \<in> set (split_char d s)"
  by (metis append_butlast_last_id in_set_conv_decomp split_char_snoc)

lemma valid_sni_hostname_iff:
  "is_valid_sni_hostname host \<longleftrightarrow>
     host \<noteq> [] \<and> length host \<le> 253 \<and> (\<forall>l \<in> set (split_char (CHR ''.'') host). ldh_label l) \<and>
     (\<exists>c \<in> set host. is_ascii_alphabetic c)"
proof -
  let ?ls = "set (split_char (CHR ''.'') host)"
  have "(\<exists>l \<in> ?ls. \<exists>c \<in> set l. is_ascii_alphabetic c) \<longleftrightarrow>
      (\<exists>c \<in> (\<Union>l \<in> ?ls. set l). is_ascii_alphabetic c)"
    by blast
  also have "\<dots> \<longleftrightarrow> (\<exists>c \<in> set host. is_ascii_alphabetic c)"
    unfolding chars_split_char by (auto simp: ascii_defs)
  finally have alpha: "(\<exists>l \<in> ?ls. \<exists>c \<in> set l. is_ascii_alphabetic c) \<longleftrightarrow>
      (\<exists>c \<in> set host. is_ascii_alphabetic c)" .
  have "last host \<noteq> CHR ''.''" if "host \<noteq> []" "\<forall>l \<in> ?ls. ldh_label l"
    using that split_char_last [of host "CHR ''.''"] unfolding ldh_label_def by blast
  then show ?thesis
    unfolding is_valid_sni_hostname_def sni_labels_ok_iff alpha by (simp add: not_less) blast
qed

lemma valid_sni_hostname_chars:
  assumes "is_valid_sni_hostname host" and "c \<in> set host"
  shows "is_ascii_alphanumeric c \<or> c = CHR ''-'' \<or> c = CHR ''.''"
proof (cases "c = CHR ''.''")
  case False
  with assms(2) obtain l where "l \<in> set (split_char (CHR ''.'') host)" "c \<in> set l"
    using chars_split_char [of "CHR ''.''" host] by blast
  with assms(1) show ?thesis
    unfolding valid_sni_hostname_iff ldh_label_def by blast
qed simp

end
