(* ===== verification/Tls_Sniff.thy ===== *)
theory Tls_Sniff
  imports Sniff_Types
begin

text \<open>
  The TLS sniffer (\<open>sniff/tls_common.rs\<close>, \<open>sniff/tls.rs\<close>): the SNI parser over a
  ClientHello body and the reassembly of the handshake message from TLS records. Every index and
  slice of the source is an index or slice of the model, which panics out of range; the loops are
  functions with their termination proofs.
\<close>

datatype TlsSniffError =
  TlsPeekEmpty | TlsInsufficientPrefix | TlsProtocolNotMatched | TlsNoSni | TlsParseError |
  TlsInvalidHostname | TooLargeClientHello

definition be_u16 :: "bytes \<Rightarrow> (TlsSniffError, nat) rres" where
  "be_u16 b =
     (if length b < 2 then Inl (Fail TlsParseError)
      else bindR (idx b 0) (\<lambda>x. bindR (idx b 1) (\<lambda>y. Inr (unat x * 256 + unat y))))"

definition be_u24 :: "bytes \<Rightarrow> (TlsSniffError, nat) rres" where
  "be_u24 b =
     (if length b < 3 then Inl (Fail TlsParseError)
      else bindR (idx b 0) (\<lambda>x. bindR (idx b 1) (\<lambda>y. bindR (idx b 2) (\<lambda>z.
             Inr ((unat x * 256 + unat y) * 256 + unat z)))))"

definition is_filtered_ech_outer_name :: "rstr \<Rightarrow> bool" where
  "is_filtered_ech_outer_name host \<longleftrightarrow> host = ''cloudflare-ech.com''"

text \<open>The loop over the entries of one server-name extension: the final offset and the name.\<close>

function sni_names :: "bytes \<Rightarrow> nat \<Rightarrow> rstr option \<Rightarrow> (TlsSniffError, nat \<times> rstr option) rres" where
  "sni_names ext p found_sni =
     (if p + 3 \<le> length ext then
        bindR (idx ext p) (\<lambda>name_type.
        bindR (rng ext (p + 1) (p + 3)) (\<lambda>nl.
        bindR (be_u16 nl) (\<lambda>name_len.
          if p + 3 + name_len > length ext then Inl (Fail TlsParseError)
          else if name_type = 0 then
            bindR (rng ext (p + 3) (p + 3 + name_len)) (\<lambda>raw.
            bindR (ok_or (from_utf8 raw) TlsInvalidHostname) (\<lambda>s.
              if \<not> is_valid_sni_hostname (to_ascii_lowercase s) then Inl (Fail TlsInvalidHostname)
              else sni_names ext (p + 3 + name_len) (Some (to_ascii_lowercase s))))
          else sni_names ext (p + 3 + name_len) found_sni)))
      else Inr (p, found_sni))"
  by pat_completeness auto
termination
  by (relation "measure (\<lambda>(ext, p, found). length ext - p)") auto

declare sni_names.simps [simp del]

definition parse_sni_extension :: "bytes \<Rightarrow> rstr option \<Rightarrow> (TlsSniffError, rstr option) rres" where
  "parse_sni_extension ext found_sni =
     (if length ext < 2 then Inl (Fail TlsParseError)
      else bindR (rng ext 0 2) (\<lambda>l. bindR (be_u16 l) (\<lambda>list_len.
             if list_len + 2 \<noteq> length ext then Inl (Fail TlsParseError)
             else bindR (sni_names ext 2 found_sni) (\<lambda>(p, found).
                    if p \<noteq> length ext then Inl (Fail TlsParseError) else Inr found))))"

text \<open>The loop over the extensions: the final offset, the name and whether ECH was seen.\<close>

function tls_extensions ::
  "bytes \<Rightarrow> nat \<Rightarrow> nat \<Rightarrow> rstr option \<Rightarrow> bool \<Rightarrow> (TlsSniffError, nat \<times> rstr option \<times> bool) rres" where
  "tls_extensions body ext_end off found_sni saw_ech =
     (if off + 4 \<le> ext_end then
        bindR (rng body off (off + 2)) (\<lambda>t. bindR (be_u16 t) (\<lambda>ext_type.
        bindR (rng body (off + 2) (off + 4)) (\<lambda>l. bindR (be_u16 l) (\<lambda>ext_len.
          if off + 4 + ext_len > ext_end then Inl (Fail TlsParseError)
          else if ext_type = 0xfe0d \<or> ext_type = 0xff07
          then tls_extensions body ext_end (off + 4 + ext_len) found_sni True
          else if ext_type = 0
          then bindR (rng body (off + 4) (off + 4 + ext_len)) (\<lambda>ext.
               bindR (parse_sni_extension ext found_sni) (\<lambda>found.
                 tls_extensions body ext_end (off + 4 + ext_len) found saw_ech))
          else tls_extensions body ext_end (off + 4 + ext_len) found_sni saw_ech))))
      else Inr (off, found_sni, saw_ech))"
  by pat_completeness auto
termination
  by (relation "measure (\<lambda>(body, ext_end, off, found, ech). ext_end - off)") auto

declare tls_extensions.simps [simp del]

definition parse_sni_from_client_hello_body :: "bytes \<Rightarrow> (TlsSniffError, rstr) rres" where
  "parse_sni_from_client_hello_body body =
     (if length body < 2 + 32 + 1 then Inl (Fail TlsParseError)
      else
        let off = 2 + 32 in
        bindR (ok_or (get_idx body off) TlsParseError) (\<lambda>sl.
        let session_id_len = unat sl; off = off + 1 in
        if off + session_id_len > length body then Inl (Fail TlsParseError)
        else
        let off = off + session_id_len in
        bindR (ok_or (get_rng body off (off + 2)) TlsParseError) (\<lambda>cl.
        bindR (be_u16 cl) (\<lambda>cipher_suites_len.
        let off = off + 2 in
        if cipher_suites_len = 0 \<or> \<not> even cipher_suites_len \<or> off + cipher_suites_len > length body
        then Inl (Fail TlsParseError)
        else
        let off = off + cipher_suites_len in
        bindR (ok_or (get_idx body off) TlsParseError) (\<lambda>ml.
        let compression_methods_len = unat ml; off = off + 1 in
        if compression_methods_len = 0 \<or> off + compression_methods_len > length body
        then Inl (Fail TlsParseError)
        else
        let off = off + compression_methods_len in
        if off = length body then Inl (Fail TlsNoSni)
        else
        bindR (ok_or (get_rng body off (off + 2)) TlsParseError) (\<lambda>el.
        bindR (be_u16 el) (\<lambda>extensions_len.
        let off = off + 2 in
        if off + extensions_len > length body then Inl (Fail TlsParseError)
        else
        let ext_end = off + extensions_len in
        bindR (tls_extensions body ext_end off None False) (\<lambda>(off, found_sni, saw_ech).
        if off \<noteq> ext_end then Inl (Fail TlsParseError)
        else case found_sni of
               Some host \<Rightarrow> if \<not> is_filtered_ech_outer_name host then Inr host else Inl (Fail TlsNoSni)
             | None \<Rightarrow> Inl (Fail TlsNoSni)))))))))"

section \<open>Records\<close>

definition MAX_TLS_RECORD_PAYLOAD :: nat where
  "MAX_TLS_RECORD_PAYLOAD = 18 * 1024"

text \<open>The total length of the handshake message, once its four header bytes are there.\<close>

definition client_hello_total :: "nat \<Rightarrow> bytes \<Rightarrow> nat option \<Rightarrow> (TlsSniffError, nat option) rres" where
  "client_hello_total max_client_hello_size handshake needed_total =
     (if needed_total = None \<and> 4 \<le> length handshake then
        bindR (idx handshake 0) (\<lambda>h0.
        if h0 \<noteq> 1 then Inl (Fail TlsProtocolNotMatched)
        else bindR (rng handshake 1 4) (\<lambda>hl. bindR (be_u24 hl) (\<lambda>hs_len.
               if 4 + hs_len > max_client_hello_size then Inl (Fail TooLargeClientHello)
               else Inr (Some (4 + hs_len)))))
      else Inr needed_total)"

function tls_records ::
  "bytes \<Rightarrow> nat \<Rightarrow> nat \<Rightarrow> bytes \<Rightarrow> nat option \<Rightarrow> bool \<Rightarrow> (TlsSniffError, rstr) rres" where
  "tls_records buf max_client_hello_size off handshake needed_total saw_handshake_record =
     (if off < length buf then
        if length buf - off < 5 then
          if off = 0 \<and> buf \<noteq> [] then
            bindR (idx buf 0) (\<lambda>b0.
              if b0 \<noteq> 0x16 then Inl (Fail TlsProtocolNotMatched)
              else if 2 \<le> length buf then
                bindR (idx buf 1) (\<lambda>b1.
                  if b1 \<noteq> 3 then Inl (Fail TlsProtocolNotMatched) else Inl (Fail TlsInsufficientPrefix))
              else Inl (Fail TlsInsufficientPrefix))
          else if saw_handshake_record then Inl (Fail TlsInsufficientPrefix)
          else Inl (Fail TlsProtocolNotMatched)
        else
          bindR (idx buf off) (\<lambda>content_type.
          if content_type \<noteq> 22 then Inl (Fail TlsProtocolNotMatched)
          else
          bindR (idx buf (off + 1)) (\<lambda>version_major.
          if version_major \<noteq> 3 then Inl (Fail TlsProtocolNotMatched)
          else
          bindR (rng buf (off + 3) (off + 5)) (\<lambda>rl. bindR (be_u16 rl) (\<lambda>record_len.
          if record_len = 0 \<or> record_len > MAX_TLS_RECORD_PAYLOAD then Inl (Fail TlsProtocolNotMatched)
          else
          let record_end = off + 5 + record_len in
          if record_end > length buf then Inl (Fail TlsInsufficientPrefix)
          else
          bindR (rng buf (off + 5) record_end) (\<lambda>payload.
          let handshake' = handshake @ payload in
          bindR (client_hello_total max_client_hello_size handshake' needed_total) (\<lambda>needed_total'.
          case needed_total' of
            Some tot \<Rightarrow>
              if tot \<le> length handshake' then
                bindR (rng handshake' 4 tot) (\<lambda>body. parse_sni_from_client_hello_body body)
              else tls_records buf max_client_hello_size record_end handshake' needed_total' True
          | None \<Rightarrow> tls_records buf max_client_hello_size record_end handshake' needed_total' True))))))
      else if saw_handshake_record then Inl (Fail TlsInsufficientPrefix)
      else Inl (Fail TlsProtocolNotMatched))"
  by pat_completeness auto
termination
  by (relation "measure (\<lambda>(buf, m, off, hs, n, saw). length buf - off)") auto

declare tls_records.simps [simp del]

definition sniff_tls_sni_from_prefix :: "bytes \<Rightarrow> nat \<Rightarrow> (TlsSniffError, rstr) rres" where
  "sniff_tls_sni_from_prefix buf max_client_hello_size =
     (if buf = [] then Inl (Fail TlsPeekEmpty)
      else tls_records buf max_client_hello_size 0 [] None False)"

text \<open>\<open>TlsSniffer::classify\<close>; a panic of the parser is a panic of the task.\<close>

definition tls_classify :: "bytes \<Rightarrow> nat \<Rightarrow> (unit, SniffAttempt) rres" where
  "tls_classify buf max_len =
     (case sniff_tls_sni_from_prefix buf max_len of
        Inr host \<Rightarrow> Inr (Matched host)
      | Inl Panic \<Rightarrow> Inl Panic
      | Inl (Fail TlsInsufficientPrefix) \<Rightarrow> Inr NeedMore
      | Inl (Fail TlsPeekEmpty) \<Rightarrow> Inr (Abort PeekEmpty)
      | Inl (Fail TlsProtocolNotMatched) \<Rightarrow> Inr (Abort ProtocolNotMatched)
      | Inl (Fail TlsNoSni) \<Rightarrow> Inr (Abort NoTarget)
      | Inl (Fail TlsParseError) \<Rightarrow> Inr (Abort ParseError)
      | Inl (Fail TlsInvalidHostname) \<Rightarrow> Inr (Abort InvalidHostname)
      | Inl (Fail TooLargeClientHello) \<Rightarrow> Inr (Abort TooLarge))"

section \<open>Panic freedom and the shape of results\<close>

text \<open>A name the sniffer may report: valid, in lower case.\<close>

definition sni_ok :: "rstr \<Rightarrow> bool" where
  "sni_ok h \<longleftrightarrow> is_valid_sni_hostname h \<and> to_ascii_lowercase h = h"

lemma be_u16_in [simp]: "2 \<le> length b \<Longrightarrow> be_u16 b = Inr (unat (b ! 0) * 256 + unat (b ! 1))"
  by (auto simp: be_u16_def idx_def)

lemma be_u24_in [simp]:
  "3 \<le> length b \<Longrightarrow> be_u24 b = Inr ((unat (b ! 0) * 256 + unat (b ! 1)) * 256 + unat (b ! 2))"
  by (auto simp: be_u24_def idx_def)

lemma safe_sni_names:
  "pred_option sni_ok f \<Longrightarrow> safe (\<lambda>(p', f'). pred_option sni_ok f') (sni_names ext p f)"
proof (induction ext p f rule: sni_names.induct)
  case (1 ext p f)
  show ?case
    by (subst sni_names.simps) (auto intro!: safe_bindR_any 1 simp: sni_ok_def)
qed

lemma safe_parse_sni_extension:
  "pred_option sni_ok f \<Longrightarrow> safe (pred_option sni_ok) (parse_sni_extension ext f)"
  unfolding parse_sni_extension_def
  by (auto intro!: safe_bindR [OF safe_sni_names])

lemma safe_tls_extensions:
  "ext_end \<le> length body \<Longrightarrow> pred_option sni_ok f \<Longrightarrow>
     safe (\<lambda>(off', f', ech'). pred_option sni_ok f') (tls_extensions body ext_end off f ech)"
proof (induction body ext_end off f ech rule: tls_extensions.induct)
  case (1 body ext_end off f ech)
  show ?case
    using "1.prems"
    by (subst tls_extensions.simps) (auto intro!: safe_bindR [OF safe_parse_sni_extension] "1.IH")
qed

definition tls_name_ok :: "rstr \<Rightarrow> bool" where
  "tls_name_ok h \<longleftrightarrow> sni_ok h \<and> h \<noteq> ''cloudflare-ech.com''"

lemma safe_be_u16: "safe (\<lambda>_. True) (be_u16 b)"
  by (auto simp: be_u16_def idx_def)

lemma safe_tls_extensions_tail:
  assumes "ext_end \<le> length body"
  shows "safe tls_name_ok (bindR (tls_extensions body ext_end off None False) (\<lambda>(off, found_sni, saw_ech).
           if off \<noteq> ext_end then Inl (Fail TlsParseError)
           else case found_sni of
                  Some host \<Rightarrow> if \<not> is_filtered_ech_outer_name host then Inr host else Inl (Fail TlsNoSni)
                | None \<Rightarrow> Inl (Fail TlsNoSni)))"
  using assms
  by (intro safe_bindR [OF safe_tls_extensions])
    (auto simp: tls_name_ok_def is_filtered_ech_outer_name_def split: option.split)

lemma safe_parse_sni_from_client_hello_body:
  "safe tls_name_ok (parse_sni_from_client_hello_body body)"
proof -
  have if_safe: "safe P (if c then Inl (Fail e) else m)" if "\<not> c \<Longrightarrow> safe P m"
    for P c e and m :: "('e, 'x) rres"
    using that by simp
  show ?thesis
    unfolding parse_sni_from_client_hello_body_def Let_def
    by (intro if_safe safe_bindR_any safe_be_u16 safe_tls_extensions_tail) simp_all
qed

lemma safe_client_hello_total:
  "pred_option (\<lambda>t. 4 \<le> t) n \<Longrightarrow> safe (pred_option (\<lambda>t. 4 \<le> t)) (client_hello_total m hs n)"
  by (auto simp: client_hello_total_def idx_def)

text \<open>One iteration of the record loop, with the slices that are in range resolved.\<close>

abbreviation record_len_at :: "bytes \<Rightarrow> nat \<Rightarrow> nat" where
  "record_len_at buf off \<equiv> unat (buf ! (off + 3)) * 256 + unat (buf ! (off + 4))"

abbreviation record_payload :: "bytes \<Rightarrow> nat \<Rightarrow> bytes" where
  "record_payload buf off \<equiv> sub_list (off + 5) (off + 5 + record_len_at buf off) buf"

definition record_bad :: "bytes \<Rightarrow> nat \<Rightarrow> bool" where
  "record_bad buf off \<longleftrightarrow> buf ! off \<noteq> 22 \<or> buf ! (off + 1) \<noteq> 3 \<or> record_len_at buf off = 0 \<or>
     record_len_at buf off > MAX_TLS_RECORD_PAYLOAD"

lemma tls_records_short:
  "\<not> off + 5 \<le> length buf \<Longrightarrow> off \<noteq> 0 \<Longrightarrow> tls_records buf m off hs n True = Inl (Fail TlsInsufficientPrefix)"
  by (subst tls_records.simps) auto

lemma tls_records_short_0:
  assumes "\<not> 5 \<le> length buf" and "buf \<noteq> []"
  shows "tls_records buf m 0 hs n saw =
     (if buf ! 0 \<noteq> 22 \<or> 2 \<le> length buf \<and> buf ! 1 \<noteq> 3 then Inl (Fail TlsProtocolNotMatched)
      else Inl (Fail TlsInsufficientPrefix))"
  using assms by (subst tls_records.simps) (auto simp: idx_def)

lemma tls_records_step:
  assumes "off + 5 \<le> length buf"
  shows "tls_records buf m off hs n saw =
     (if record_bad buf off then Inl (Fail TlsProtocolNotMatched)
      else if off + 5 + record_len_at buf off > length buf then Inl (Fail TlsInsufficientPrefix)
      else let hs' = hs @ record_payload buf off; off' = off + 5 + record_len_at buf off
           in bindR (client_hello_total m hs' n) (\<lambda>n'. case n' of
                Some tot \<Rightarrow>
                  if tot \<le> length hs' then bindR (rng hs' 4 tot) parse_sni_from_client_hello_body
                  else tls_records buf m off' hs' n' True
              | None \<Rightarrow> tls_records buf m off' hs' n' True))"
proof -
  have "be_u16 (sub_list (off + 3) (off + 5) buf) = Inr (record_len_at buf off)"
    using assms by (simp add: eval_nat_numeral)
  moreover have "off < length buf" "\<not> length buf - off < 5"
    using assms by auto
  ultimately show ?thesis
    using assms by (subst tls_records.simps) (simp add: record_bad_def Let_def del: be_u16_in)
qed

lemma safe_tls_records:
  "pred_option (\<lambda>t. 4 \<le> t) n \<Longrightarrow> off = 0 \<and> buf \<noteq> [] \<or> off \<noteq> 0 \<and> saw \<Longrightarrow>
     safe tls_name_ok (tls_records buf m off hs n saw)"
proof (induction "length buf - off" arbitrary: off hs n saw rule: less_induct)
  case less
  show ?case
  proof (cases "off + 5 \<le> length buf")
    case False
    then show ?thesis
      using less.prems by (auto simp: tls_records_short tls_records_short_0)
  next
    case True
    let ?hs = "hs @ record_payload buf off" and ?off = "off + 5 + record_len_at buf off"
    have rec: "safe tls_name_ok (tls_records buf m ?off ?hs n' True)"
      if "pred_option (\<lambda>t. 4 \<le> t) n'" for n'
      using True that by (intro less.hyps) auto
    have "safe tls_name_ok (bindR (rng ?hs 4 tot) parse_sni_from_client_hello_body)"
      if "4 \<le> tot" "tot \<le> length ?hs" for tot
      using that by (intro safe_bindR_any safe_parse_sni_from_client_hello_body) (simp_all only: rng_in safe_simps)
    with rec have step: "safe tls_name_ok (case n' of
          Some tot \<Rightarrow> if tot \<le> length ?hs then bindR (rng ?hs 4 tot) parse_sni_from_client_hello_body
                      else tls_records buf m ?off ?hs n' True
        | None \<Rightarrow> tls_records buf m ?off ?hs n' True)"
      if "pred_option (\<lambda>t. 4 \<le> t) n'" for n'
      using that by (cases n') simp_all
    show ?thesis
      unfolding tls_records_step [OF True] Let_def
      by simp (intro impI safe_bindR [OF safe_client_hello_total [OF less.prems(1)]] step)
  qed
qed

lemma safe_sniff_tls: "safe tls_name_ok (sniff_tls_sni_from_prefix buf m)"
  by (simp add: sniff_tls_sni_from_prefix_def safe_tls_records)

section \<open>Longer prefixes\<close>

lemma record_bad_append: "off + 5 \<le> length buf \<Longrightarrow> record_bad (buf @ q) off = record_bad buf off"
  by (simp add: record_bad_def nth_append)

lemma record_len_at_append: "off + 5 \<le> length buf \<Longrightarrow> record_len_at (buf @ q) off = record_len_at buf off"
  by (simp add: nth_append)

lemma tls_records_short_append:
  assumes "\<not> 5 \<le> length buf" and "buf \<noteq> []"
    and "tls_records buf m 0 hs n saw \<noteq> Inl (Fail TlsInsufficientPrefix)"
  shows "tls_records (buf @ q) m 0 hs n saw = tls_records buf m 0 hs n saw"
proof -
  have bad: "buf ! 0 \<noteq> 22 \<or> 2 \<le> length buf \<and> buf ! 1 \<noteq> 3"
    using assms by (auto simp: tls_records_short_0 split: if_splits)
  then have bad': "(buf @ q) ! 0 \<noteq> 22 \<or> 2 \<le> length (buf @ q) \<and> (buf @ q) ! 1 \<noteq> 3"
    using assms(2) by (auto simp: nth_append)
  show ?thesis
  proof (cases "5 \<le> length (buf @ q)")
    case True
    then have "record_bad (buf @ q) 0"
      using bad' by (auto simp: record_bad_def)
    then show ?thesis
      using True bad assms(1,2) by (simp add: tls_records_step tls_records_short_0)
  next
    case False
    have "tls_records (buf @ q) m 0 hs n saw = Inl (Fail TlsProtocolNotMatched)"
      using tls_records_short_0 [OF False] bad' assms(2) by simp
    moreover have "tls_records buf m 0 hs n saw = Inl (Fail TlsProtocolNotMatched)"
      using tls_records_short_0 [OF assms(1,2)] bad by simp
    ultimately show ?thesis by simp
  qed
qed

lemma tls_records_append:
  "tls_records buf m off hs n saw \<noteq> Inl (Fail TlsInsufficientPrefix) \<Longrightarrow>
     off = 0 \<and> buf \<noteq> [] \<or> off \<noteq> 0 \<and> saw \<Longrightarrow>
     tls_records (buf @ q) m off hs n saw = tls_records buf m off hs n saw"
proof (induction "length buf - off" arbitrary: off hs n saw rule: less_induct)
  case less
  show ?case
  proof (cases "off + 5 \<le> length buf")
    case False
    then show ?thesis
      using less.prems by (auto simp: tls_records_short tls_records_short_append)
  next
    case True
    let ?hs = "hs @ record_payload buf off" and ?off = "off + 5 + record_len_at buf off"
    have True': "off + 5 \<le> length (buf @ q)" using True by simp
    show ?thesis
    proof (cases "record_bad buf off")
      case True
      with \<open>off + 5 \<le> length buf\<close> True' show ?thesis
        by (simp add: tls_records_step record_bad_append del: length_append)
    next
      case good: False
      with less.prems(1) have fits: "?off \<le> length buf"
        using True by (auto simp: tls_records_step split: if_splits)
      then have same: "record_payload (buf @ q) off = record_payload buf off"
          "\<not> length (buf @ q) < ?off"
        using True by (simp_all only: record_len_at_append sub_list_append) simp
      have rec: "tls_records (buf @ q) m ?off ?hs n' True = tls_records buf m ?off ?hs n' True"
        if "tls_records buf m ?off ?hs n' True \<noteq> Inl (Fail TlsInsufficientPrefix)" for n'
        using True that by (intro less.hyps) auto
      note unfolded = tls_records_step [OF True] tls_records_step [OF True']
        record_bad_append [OF True] record_len_at_append [OF True] same Let_def
      show ?thesis
        using less.prems(1) good fits rec same(2)
        unfolding unfolded
        by (cases "client_hello_total m ?hs n")
          (auto simp del: length_append split: option.splits if_splits)
    qed
  qed
qed

lemma sniff_tls_append:
  "buf \<noteq> [] \<Longrightarrow> sniff_tls_sni_from_prefix buf m \<noteq> Inl (Fail TlsInsufficientPrefix) \<Longrightarrow>
     sniff_tls_sni_from_prefix (buf @ q) m = sniff_tls_sni_from_prefix buf m"
  by (simp add: sniff_tls_sni_from_prefix_def tls_records_append)

section \<open>ClientHello messages\<close>

text \<open>
  The wire format of RFC 8446, the specification the parser is checked against: extensions as type
  and data, a server-name extension with one host name, a ClientHello, its handshake message, and
  the records that carry a fragment each.
\<close>

definition enc_ext :: "nat \<times> bytes \<Rightarrow> bytes" where
  "enc_ext e = be_bytes 2 (fst e) @ be_bytes 2 (length (snd e)) @ snd e"

definition enc_exts :: "(nat \<times> bytes) list \<Rightarrow> bytes" where
  "enc_exts es = concat (map enc_ext es)"

definition server_name_ext :: "rstr \<Rightarrow> bytes" where
  "server_name_ext host =
     be_bytes 2 (length host + 3) @ [0] @ be_bytes 2 (length host) @ as_bytes host"

definition client_hello_body :: "bytes \<Rightarrow> bytes \<Rightarrow> bytes \<Rightarrow> bytes \<Rightarrow> (nat \<times> bytes) list \<Rightarrow> bytes" where
  "client_hello_body version_random session_id ciphers compression es =
     version_random @ [of_nat (length session_id)] @ session_id @
     be_bytes 2 (length ciphers) @ ciphers @ [of_nat (length compression)] @ compression @
     be_bytes 2 (length (enc_exts es)) @ enc_exts es"

definition client_hello_msg :: "bytes \<Rightarrow> bytes" where
  "client_hello_msg body = 1 # be_bytes 3 (length body) @ body"

definition tls_record :: "byte \<times> bytes \<Rightarrow> bytes" where
  "tls_record r = [22, 3, fst r] @ be_bytes 2 (length (snd r)) @ snd r"

definition ext_wf :: "nat \<times> bytes \<Rightarrow> bool" where
  "ext_wf e \<longleftrightarrow> fst e < 65536 \<and> length (snd e) < 65536"

definition client_hello_wf :: "bytes \<Rightarrow> bytes \<Rightarrow> bytes \<Rightarrow> bytes \<Rightarrow> (nat \<times> bytes) list \<Rightarrow> bool" where
  "client_hello_wf version_random session_id ciphers compression es \<longleftrightarrow>
     length version_random = 34 \<and> length session_id < 256 \<and>
     0 < length ciphers \<and> even (length ciphers) \<and> length ciphers < 65536 \<and>
     0 < length compression \<and> length compression < 256 \<and>
     list_all ext_wf es \<and> length (enc_exts es) < 65536"

text \<open>The extensions one by one, without offsets.\<close>

fun exts_result :: "(nat \<times> bytes) list \<Rightarrow> rstr option \<Rightarrow> bool \<Rightarrow> (TlsSniffError, rstr option \<times> bool) rres" where
  "exts_result [] found ech = Inr (found, ech)"
| "exts_result ((t, d) # es) found ech =
     (if t = 0xfe0d \<or> t = 0xff07 then exts_result es found True
      else if t = 0 then bindR (parse_sni_extension d found) (\<lambda>f. exts_result es f ech)
      else exts_result es found ech)"

lemma be_u16_be_bytes: "v < 65536 \<Longrightarrow> be_u16 (be_bytes 2 v) = Inr v"
  using be_nat_be_bytes [of 2 v] by (simp add: be_bytes_two be_nat_two)

lemma tls_extensions_enc:
  assumes "list_all ext_wf es"
  shows "tls_extensions (pre @ enc_exts es @ post) (length pre + length (enc_exts es)) (length pre) found ech =
     bindR (exts_result es found ech) (\<lambda>(f, e). Inr (length pre + length (enc_exts es), f, e))"
  using assms
proof (induction es arbitrary: pre found ech)
  case Nil
  show ?case by (subst tls_extensions.simps) (simp add: enc_exts_def)
next
  case (Cons x es)
  obtain t d where x: "x = (t, d)" by (cases x)
  let ?body = "pre @ enc_exts (x # es) @ post" and ?stop = "length pre + length (enc_exts (x # es))"
  have wf: "t < 65536" "length d < 65536" "list_all ext_wf es"
    using Cons.prems by (simp_all add: x) (simp_all add: ext_wf_def)
  have body: "?body = pre @ be_bytes 2 t @ be_bytes 2 (length d) @ d @ enc_exts es @ post"
    by (simp add: x enc_exts_def enc_ext_def)
  have sub: "rng ?body (length pre) (length pre + 2) = Inr (be_bytes 2 t)"
      "rng ?body (length pre + 2) (length pre + 4) = Inr (be_bytes 2 (length d))"
      "rng ?body (length pre + 4) (length pre + 4 + length d) = Inr d"
    unfolding body by (simp_all add: sub_list_def)
  have len: "?stop = length pre + 4 + length d + length (enc_exts es)"
    by (simp add: x enc_exts_def enc_ext_def)
  have rec: "tls_extensions ?body ?stop (length pre + 4 + length d) found' ech' =
      bindR (exts_result es found' ech') (\<lambda>(f, e). Inr (?stop, f, e))" for found' ech'
  proof -
    have "length (pre @ enc_ext x) = length pre + 4 + length d"
        "(pre @ enc_ext x) @ enc_exts es @ post = ?body"
      by (simp_all add: x enc_exts_def enc_ext_def)
    with Cons.IH [OF wf(3), of "pre @ enc_ext x" found' ech'] show ?thesis
      by (simp only: len)
  qed
  have guard: "length pre + 4 \<le> ?stop" "\<not> length pre + 4 + length d > ?stop"
    by (simp_all only: len)
  have res: "exts_result (x # es) found ech =
      (if t = 0xfe0d \<or> t = 0xff07 then exts_result es found True
       else if t = 0 then bindR (parse_sni_extension d found) (\<lambda>f. exts_result es f ech)
       else exts_result es found ech)"
    by (simp add: x)
  have assoc: "bindR (bindR m f) g = bindR m (\<lambda>x. bindR (f x) g)"
    for m :: "('e, 'x) rres" and f :: "'x \<Rightarrow> ('e, 'y) rres" and g :: "'y \<Rightarrow> ('e, 'z) rres"
    by (cases m) simp_all
  show ?case
    unfolding tls_extensions.simps [of ?body ?stop "length pre"] sub be_u16_be_bytes [OF wf(1)]
      be_u16_be_bytes [OF wf(2)] bindR_simps rec res
    using guard by (simp add: assoc case_prod_unfold)
qed

lemma exts_result_skip:
  "\<forall>e \<in> set es. fst e \<noteq> 0 \<Longrightarrow> exts_result (es @ fs) found ech =
     exts_result fs found (ech \<or> (\<exists>e \<in> set es. fst e = 0xfe0d \<or> fst e = 0xff07))"
  by (induction es arbitrary: ech) auto

lemma from_utf8_hostname:
  assumes "is_valid_sni_hostname host"
  shows "from_utf8 (as_bytes host) = Some host"
proof -
  have "(of_char c :: nat) < 128" if "c \<in> set host" for c
    using valid_sni_hostname_chars [OF assms that] by (auto simp: ascii_defs)
  then have "\<forall>b \<in> set (as_bytes host). unat b < 128"
    by (auto simp: as_bytes_def byte_of_char_def unat_of_nat)
  then show ?thesis
    by (simp add: from_utf8_Some_iff utf8_valid_ascii)
qed

lemma valid_hostname_lower: "is_valid_sni_hostname host \<Longrightarrow> length host < 254"
  by (simp add: is_valid_sni_hostname_def split: if_splits)

lemma parse_server_name_ext:
  assumes "is_valid_sni_hostname host" and "to_ascii_lowercase host = host"
  shows "parse_sni_extension (server_name_ext host) found = Inr (Some host)"
proof -
  let ?ext = "server_name_ext host"
  have len: "length host < 254" by (rule valid_hostname_lower [OF assms(1)])
  have ext: "length ?ext = length host + 5"
      "rng ?ext 0 2 = Inr (be_bytes 2 (length host + 3))" "idx ?ext 2 = Inr 0"
      "rng ?ext (2 + 1) (2 + 3) = Inr (be_bytes 2 (length host))"
      "rng ?ext (2 + 3) (2 + 3 + length host) = Inr (as_bytes host)"
    by (simp_all add: server_name_ext_def sub_list_def rng_def idx_def be_bytes_two)
  have stop: "sni_names ?ext (2 + 3 + length host) f = Inr (2 + 3 + length host, f)" for f
    by (subst sni_names.simps) (simp add: ext)
  have small: "length host < 65536" using len by simp
  have names: "sni_names ?ext 2 found = Inr (2 + 3 + length host, Some host)"
    unfolding sni_names.simps [of ?ext 2] ext be_u16_be_bytes [OF small] bindR_simps
      from_utf8_hostname [OF assms(1)] ok_or_simps assms(2)
    using assms(1) stop by simp
  have "length host + 3 < 65536" using len by simp
  then show ?thesis
    unfolding parse_sni_extension_def ext be_u16_be_bytes [OF \<open>length host + 3 < 65536\<close>] bindR_simps names
    by simp
qed

text \<open>The fixed part of the message, whatever its lengths.\<close>

lemma get_idx_mid: "k = length pre \<Longrightarrow> get_idx (pre @ x # post) k = Some x"
  by (simp add: get_idx_def)

lemma get_rng_mid: "k = length pre \<Longrightarrow> l = k + length xs \<Longrightarrow> get_rng (pre @ xs @ post) k l = Some xs"
  by (simp add: get_rng_def sub_list_def)

lemma parse_client_hello_body:
  assumes "client_hello_wf vr sid cs cm es"
  shows "parse_sni_from_client_hello_body (client_hello_body vr sid cs cm es) =
     bindR (exts_result es None False) (\<lambda>(found, ech). case found of
        Some host \<Rightarrow> if \<not> is_filtered_ech_outer_name host then Inr host else Inl (Fail TlsNoSni)
      | None \<Rightarrow> Inl (Fail TlsNoSni))"
proof -
  let ?b = "client_hello_body vr sid cs cm es"
  let ?p1 = "vr @ of_nat (length sid) # sid"
  let ?p2 = "?p1 @ be_bytes 2 (length cs) @ cs"
  let ?p3 = "?p2 @ of_nat (length cm) # cm"
  let ?p4 = "?p3 @ be_bytes 2 (length (enc_exts es))"
  note wf = assms [unfolded client_hello_wf_def]
  have u: "unat (of_nat (length sid) :: byte) = length sid" "unat (of_nat (length cm) :: byte) = length cm"
    using wf by (simp_all add: unat_of_nat)
  have b: "?b = vr @ of_nat (length sid) # sid @ be_bytes 2 (length cs) @ cs @ of_nat (length cm) # cm @
      be_bytes 2 (length (enc_exts es)) @ enc_exts es"
    by (simp add: client_hello_body_def)
  have parts: "?b = vr @ of_nat (length sid) # (sid @ drop (length ?p1) ?b)"
      "?b = ?p1 @ be_bytes 2 (length cs) @ (cs @ of_nat (length cm) # cm @ be_bytes 2 (length (enc_exts es)) @ enc_exts es)"
      "?b = ?p2 @ of_nat (length cm) # (cm @ be_bytes 2 (length (enc_exts es)) @ enc_exts es)"
      "?b = ?p3 @ be_bytes 2 (length (enc_exts es)) @ enc_exts es"
    by (simp_all add: b)
  have get: "get_idx ?b (2 + 32) = Some (of_nat (length sid))"
      "get_rng ?b (2 + 32 + 1 + length sid) (2 + 32 + 1 + length sid + 2) = Some (be_bytes 2 (length cs))"
      "get_idx ?b (2 + 32 + 1 + length sid + 2 + length cs) = Some (of_nat (length cm))"
      "get_rng ?b (2 + 32 + 1 + length sid + 2 + length cs + 1 + length cm)
         (2 + 32 + 1 + length sid + 2 + length cs + 1 + length cm + 2) = Some (be_bytes 2 (length (enc_exts es)))"
    by (subst parts(1), rule get_idx_mid, use wf in simp)
      (subst parts(2), rule get_rng_mid, use wf in simp, simp,
       subst parts(3), rule get_idx_mid, use wf in simp,
       subst parts(4), rule get_rng_mid, use wf in simp, simp)
  have len: "length ?b = 2 + 32 + 1 + length sid + 2 + length cs + 1 + length cm + 2 + length (enc_exts es)"
    using wf by (simp add: b)
  have exts: "tls_extensions ?b (2 + 32 + 1 + length sid + 2 + length cs + 1 + length cm + 2 + length (enc_exts es))
        (2 + 32 + 1 + length sid + 2 + length cs + 1 + length cm + 2) None False =
      bindR (exts_result es None False)
        (\<lambda>(f, e). Inr (2 + 32 + 1 + length sid + 2 + length cs + 1 + length cm + 2 + length (enc_exts es), f, e))"
  proof -
    have "length ?p4 = 2 + 32 + 1 + length sid + 2 + length cs + 1 + length cm + 2" "?p4 @ enc_exts es @ [] = ?b"
      using wf by (simp_all add: b)
    with tls_extensions_enc [of es ?p4 "[]" None False] wf show ?thesis by (simp only:)
  qed
  have lens: "length cs < 65536" "length (enc_exts es) < 65536" using wf by auto
  show ?thesis
    unfolding parse_sni_from_client_hello_body_def Let_def get ok_or_simps bindR_simps u
      be_u16_be_bytes [OF lens(1)] be_u16_be_bytes [OF lens(2)] exts
    using wf len by (cases "exts_result es None False") (auto split: option.split)
qed

section \<open>Reassembly\<close>

lemma client_hello_total_msg:
  assumes "prefix hs (client_hello_msg body)" and "length body < 2 ^ 24" and "4 + length body \<le> m"
    and "n = None \<or> n = Some (4 + length body) \<and> 4 \<le> length hs"
  shows "client_hello_total m hs n = Inr (if 4 \<le> length hs then Some (4 + length body) else None)"
proof (cases "n = None \<and> 4 \<le> length hs")
  case True
  from assms(1) obtain zs where zs: "client_hello_msg body = hs @ zs" by (auto simp: prefix_def)
  have "take 4 hs = take 4 (client_hello_msg body)"
    using True by (simp add: zs)
  also have "\<dots> = 1 # be_bytes 3 (length body)"
    by (simp add: client_hello_msg_def)
  finally have hd: "take 4 hs = 1 # be_bytes 3 (length body)" .
  then have h0: "hs ! 0 = 1" using True by (metis nth_Cons_0 nth_take zero_less_numeral)
  have hl: "sub_list 1 4 hs = be_bytes 3 (length body)"
    using arg_cong [OF hd, of "drop 1"] by (simp add: sub_list_def drop_take)
  have "be_u24 (be_bytes 3 (length body)) = Inr (length body)"
    using be_nat_be_bytes [of 3 "length body"] assms(2) by (simp add: be_bytes_three be_nat_three)
  with True h0 hl assms(3) show ?thesis
    by (auto simp: client_hello_total_def idx_def)
next
  case False
  with assms(4) show ?thesis by (auto simp: client_hello_total_def)
qed

lemma tls_record_at:
  assumes "length f \<le> MAX_TLS_RECORD_PAYLOAD"
  shows "length pre + 5 \<le> length (pre @ tls_record (v, f) @ rest)"
    and "record_len_at (pre @ tls_record (v, f) @ rest) (length pre) = length f"
    and "sub_list (length pre + 5) (length pre + 5 + length f) (pre @ tls_record (v, f) @ rest) = f"
    and "record_bad (pre @ tls_record (v, f) @ rest) (length pre) \<longleftrightarrow> f = []"
proof -
  let ?b = "pre @ tls_record (v, f) @ rest"
  show "length pre + 5 \<le> length ?b" by (simp add: tls_record_def)
  have "be_nat (be_bytes 2 (length f)) = length f"
    using assms by (simp add: be_nat_be_bytes MAX_TLS_RECORD_PAYLOAD_def)
  then show len: "record_len_at ?b (length pre) = length f"
    by (simp add: tls_record_def be_bytes_two be_nat_two nth_append)
  show "sub_list (length pre + 5) (length pre + 5 + length f) ?b = f"
    by (simp add: tls_record_def sub_list_def)
  show "record_bad ?b (length pre) \<longleftrightarrow> f = []"
    unfolding record_bad_def len using assms by (simp add: tls_record_def nth_append)
qed

lemma tls_records_fragments:
  assumes "\<forall>r \<in> set rs. snd r \<noteq> [] \<and> length (snd r) \<le> MAX_TLS_RECORD_PAYLOAD"
    and "hs @ concat (map snd rs) = client_hello_msg body" and "length hs < length (client_hello_msg body)"
    and "length body < 2 ^ 24" and "4 + length body \<le> m"
    and "n = (if 4 \<le> length hs then Some (4 + length body) else None)"
  shows "tls_records (pre @ concat (map tls_record rs) @ rest) m (length pre) hs n saw =
     parse_sni_from_client_hello_body body"
  using assms
proof (induction rs arbitrary: pre hs n saw)
  case (Cons r rs)
  obtain v f where r: "r = (v, f)" by (cases r)
  let ?rest = "concat (map tls_record rs) @ rest"
  let ?buf = "pre @ tls_record (v, f) @ ?rest"
  have f: "f \<noteq> []" "length f \<le> MAX_TLS_RECORD_PAYLOAD" using Cons.prems(1) by (auto simp: r)
  have pre: "(hs @ f) @ concat (map snd rs) = client_hello_msg body"
    using Cons.prems(2) by (simp add: r)
  then have prefix: "prefix (hs @ f) (client_hello_msg body)" by (metis prefixI)
  let ?n = "if 4 \<le> length (hs @ f) then Some (4 + length body) else None"
  have total: "client_hello_total m (hs @ f) n = Inr ?n"
    using Cons.prems(6) by (intro client_hello_total_msg [OF prefix Cons.prems(4,5)]) auto
  have msg_len: "length (client_hello_msg body) = 4 + length body"
    by (simp add: client_hello_msg_def)
  have fits: "\<not> length ?buf < length pre + 5 + length f"
    by (simp add: tls_record_def)
  note step = tls_records_step [OF tls_record_at(1) [OF f(2)], of pre v ?rest m hs n saw, unfolded
      tls_record_at(2,3,4) [OF f(2)] Let_def total bindR_simps]
  show ?case
  proof (cases "length (hs @ f) < length (client_hello_msg body)")
    case True
    have len: "length (pre @ tls_record (v, f)) = length pre + 5 + length f"
        "(pre @ tls_record (v, f)) @ ?rest = ?buf"
      by (simp_all add: tls_record_def)
    have "tls_records ?buf m (length pre + 5 + length f) (hs @ f) ?n True =
        parse_sni_from_client_hello_body body"
      using Cons.IH [OF _ pre True Cons.prems(4,5) refl, of "pre @ tls_record (v, f)" True] Cons.prems(1)
      unfolding len by simp
    moreover have "tls_records ?buf m (length pre) hs n saw =
        tls_records ?buf m (length pre + 5 + length f) (hs @ f) ?n True"
      using step f(1) fits True by (simp add: msg_len)
    ultimately show ?thesis by (simp add: r)
  next
    case False
    have "length (hs @ f) \<le> length (client_hello_msg body)"
      using prefix by (rule prefix_length_le)
    with False have "hs @ f = client_hello_msg body"
      using prefix by (metis append_Nil2 append_eq_conv_conj le_antisym not_less prefix_def take_all)
    moreover have "rng (client_hello_msg body) 4 (4 + length body) = Inr body"
      by (simp add: client_hello_msg_def sub_list_def)
    ultimately have "tls_records ?buf m (length pre) hs n saw = parse_sni_from_client_hello_body body"
      using step f(1) fits by (simp add: msg_len del: append_assoc)
    then show ?thesis by (simp add: r)
  qed
qed simp

section \<open>Properties\<close>

text \<open>
  C24: The TLS sniffer never panics, whatever bytes a client sends and whatever the size limit: no
  index or slice of the record loop, the ClientHello parser or the extension parsers is out of
  range. A name it reports is a valid hostname in lower case and never the ECH cover name.
\<close>

theorem tls_sniff_safe: "safe tls_name_ok (sniff_tls_sni_from_prefix buf max_client_hello_size)"
  by (rule safe_sniff_tls)

text \<open>
  C25: A verdict of the TLS sniffer other than "need more data" is final: more bytes after a
  non-empty prefix never change it. The retry loop of the sniffing engine, which classifies longer
  and longer prefixes of the same stream, therefore cannot contradict an earlier answer.
\<close>

theorem tls_sniff_prefix_stable:
  assumes "buf \<noteq> []" and "sniff_tls_sni_from_prefix buf m \<noteq> Inl (Fail TlsInsufficientPrefix)"
  shows "sniff_tls_sni_from_prefix (buf @ more) m = sniff_tls_sni_from_prefix buf m"
  using assms by (rule sniff_tls_append)

theorem tls_sniff_prefix_stable_witness:
  "sniff_tls_sni_from_prefix ([22, 4] @ [1, 0, 0]) 100 = Inl (Fail TlsProtocolNotMatched)"
proof -
  have v: "sniff_tls_sni_from_prefix [22, 4] 100 = Inl (Fail TlsProtocolNotMatched)"
    by (simp add: sniff_tls_sni_from_prefix_def tls_records_short_0)
  show ?thesis
    using tls_sniff_prefix_stable [of "[22, 4]" 100 "[1, 0, 0]"] by (simp add: v)
qed

text \<open>
  C23: Completeness. A well-formed ClientHello with one server-name extension that carries a valid
  lower-case host name other than the ECH cover name is recognised however its handshake message
  is fragmented over TLS records, whatever other extensions surround the name and whatever bytes
  follow, as long as the message is within the size limit: the sniffer returns that name.
\<close>

theorem tls_sniff_finds_name:
  assumes "is_valid_sni_hostname host" and "to_ascii_lowercase host = host" and "host \<noteq> ''cloudflare-ech.com''"
    and "body = client_hello_body vr sid cs cm (es @ (0, server_name_ext host) # fs)"
    and "client_hello_wf vr sid cs cm (es @ (0, server_name_ext host) # fs)"
    and "\<forall>e \<in> set (es @ fs). fst e \<noteq> 0"
    and "concat (map snd rs) = client_hello_msg body" and "length body < 2 ^ 24" and "4 + length body \<le> m"
    and "\<forall>r \<in> set rs. snd r \<noteq> [] \<and> length (snd r) \<le> MAX_TLS_RECORD_PAYLOAD"
  shows "sniff_tls_sni_from_prefix (concat (map tls_record rs) @ more) m = Inr host"
proof -
  have "exts_result (es @ (0, server_name_ext host) # fs) None False = Inr (Some host, e)"
    if "e = (\<exists>x \<in> set (es @ fs). fst x = 0xfe0d \<or> fst x = 0xff07)" for e
    using that assms(6) exts_result_skip [of fs "[]"]
    by (auto simp: exts_result_skip parse_server_name_ext [OF assms(1,2)])
  then have "parse_sni_from_client_hello_body body = Inr host"
    using assms(3) by (simp add: assms(4) parse_client_hello_body [OF assms(5)] is_filtered_ech_outer_name_def)
  moreover have "tls_records (concat (map tls_record rs) @ more) m 0 [] None False =
      parse_sni_from_client_hello_body body"
    using tls_records_fragments [of rs "[]" body m None "[]" more False] assms(7-10)
    by (simp add: client_hello_msg_def)
  moreover have "concat (map tls_record rs) @ more \<noteq> []"
    using assms(7) by (cases rs) (auto simp: client_hello_msg_def tls_record_def)
  ultimately show ?thesis
    by (simp add: sniff_tls_sni_from_prefix_def)
qed

theorem tls_sniff_finds_name_witness:
  "let host = ''a.example''; es = [(10, [0, 2, 0, 23])]; fs = [(0xfe0d, [7])];
       body = client_hello_body (replicate 34 0) [1, 2] [0x13, 1] [0] (es @ (0, server_name_ext host) # fs);
       msg = client_hello_msg body
   in sniff_tls_sni_from_prefix
        (concat (map tls_record [(1, take 3 msg), (3, take 20 (drop 3 msg)), (3, drop 23 msg)]) @ [23, 3]) 4096 =
      Inr host"
proof -
  define host :: rstr where "host = ''a.example''"
  define es :: "(nat \<times> bytes) list" where "es = [(10, [0, 2, 0, 23])]"
  define fs :: "(nat \<times> bytes) list" where "fs = [(0xfe0d, [7])]"
  define body where
    "body = client_hello_body (replicate 34 0) [1, 2] [0x13, 1] [0] (es @ (0, server_name_ext host) # fs)"
  let ?msg = "client_hello_msg body"
  let ?rs = "[(1, take 3 ?msg), (3, take 20 (drop 3 ?msg)), (3, drop 23 ?msg)] :: (byte \<times> bytes) list"
  have host: "is_valid_sni_hostname host" "to_ascii_lowercase host = host" "host \<noteq> ''cloudflare-ech.com''"
    unfolding host_def by code_simp+
  have exts: "length (enc_exts (es @ (0, server_name_ext host) # fs)) = 31"
    by (simp add: es_def fs_def host_def enc_exts_def enc_ext_def server_name_ext_def)
  have wf: "client_hello_wf (replicate 34 0) [1, 2] [0x13, 1] [0] (es @ (0, server_name_ext host) # fs)"
    unfolding client_hello_wf_def exts
    by (simp add: es_def fs_def host_def ext_wf_def server_name_ext_def)
  have len: "length body = 76"
    by (simp add: body_def client_hello_body_def exts)
  then have msg: "length ?msg = 80" by (simp add: client_hello_msg_def)
  have frag: "concat (map snd ?rs) = ?msg"
    by (simp add: append_assoc [symmetric] take_add [symmetric] flip: drop_drop)
  have ok: "\<forall>r \<in> set ?rs. snd r \<noteq> [] \<and> length (snd r) \<le> MAX_TLS_RECORD_PAYLOAD"
    using msg by (auto simp: MAX_TLS_RECORD_PAYLOAD_def)
  have "sniff_tls_sni_from_prefix (concat (map tls_record ?rs) @ [23, 3]) 4096 = Inr host"
    by (rule tls_sniff_finds_name [OF host body_def wf _ frag _ _ ok]) (simp_all add: es_def fs_def len)
  then show ?thesis
    unfolding Let_def body_def es_def fs_def host_def .
qed

end
