(* ===== verification/Http_Sniff.thy ===== *)
theory Http_Sniff
  imports Sniff_Types
begin

text \<open>
  The HTTP/1.x sniffer (\<open>sniff/http.rs\<close>): the request line test, the search for the end of the
  header block and the extraction of the \<open>Host\<close> value.
\<close>

datatype HttpSniffError =
  HttpPeekEmpty | HttpInsufficientPrefix | HttpProtocolNotMatched | HttpNoHost | HttpParseError |
  HttpInvalidHostname | TooLargeHeader

definition find_http_header_end :: "bytes \<Rightarrow> nat option" where
  "find_http_header_end buf = map_option (\<lambda>p. p + 4) (find_window [13, 10, 13, 10] buf)"

definition looks_like_http_1x_request_line :: "rstr \<Rightarrow> bool" where
  "looks_like_http_1x_request_line line =
     (case split_char (CHR '' '') line of
        [] \<Rightarrow> False
      | m # parts \<Rightarrow>
          if \<not> (m \<noteq> [] \<and> list_all is_ascii_uppercase m) then False
          else case parts of
            [] \<Rightarrow> False
          | target # parts \<Rightarrow>
              if target = [] then False
              else case parts of
                [] \<Rightarrow> False
              | version # parts \<Rightarrow>
                  if parts \<noteq> [] then False
                  else version = ''HTTP/1.0'' \<or> version = ''HTTP/1.1'')"

definition parse_http_host_header_value :: "rstr \<Rightarrow> (HttpSniffError, rstr) rres" where
  "parse_http_host_header_value value0 =
     (let value = trim value0 in
      if value = [] then Inl (Fail HttpParseError)
      else if hd value = CHR ''['' then Inl (Fail HttpInvalidHostname)
      else
        let host = (case rsplit_once (CHR '':'') value of
                      Some (name, port) \<Rightarrow>
                        if name \<noteq> [] \<and> port \<noteq> [] \<and> list_all is_ascii_digit port then name else value
                    | None \<Rightarrow> value);
            host = to_ascii_lowercase (trim host)
        in if \<not> is_valid_sni_hostname host then Inl (Fail HttpInvalidHostname) else Inr host)"

definition definitely_not_http_1x_prefix :: "bytes \<Rightarrow> (HttpSniffError, bool) rres" where
  "definitely_not_http_1x_prefix buf =
     (case find_window [13, 10] buf of
        None \<Rightarrow> Inr False
      | Some line_end \<Rightarrow>
          bindR (rng buf 0 line_end) (\<lambda>l.
            case from_utf8 l of
              None \<Rightarrow> Inr True
            | Some line \<Rightarrow> Inr (\<not> looks_like_http_1x_request_line line)))"

fun http_host_lines :: "rstr list \<Rightarrow> (HttpSniffError, rstr) rres" where
  "http_host_lines [] = Inl (Fail HttpNoHost)"
| "http_host_lines (line # rest) =
     (if line = [] then Inl (Fail HttpNoHost)
      else bindR (ok_or (split_once (CHR '':'') line) HttpParseError) (\<lambda>(name, value).
             if eq_ignore_ascii_case name ''host'' then parse_http_host_header_value value
             else http_host_lines rest))"

definition sniff_http_host_from_prefix :: "bytes \<Rightarrow> nat \<Rightarrow> (HttpSniffError, rstr) rres" where
  "sniff_http_host_from_prefix buf max_header_size =
     (if buf = [] then Inl (Fail HttpPeekEmpty)
      else bindR (idx buf 0) (\<lambda>b0.
        if \<not> is_ascii_uppercase (char_of_byte b0) then Inl (Fail HttpProtocolNotMatched)
        else bindR (definitely_not_http_1x_prefix buf) (\<lambda>not_http.
          if not_http then Inl (Fail HttpProtocolNotMatched)
          else case find_http_header_end buf of
            None \<Rightarrow>
              if max_header_size \<le> length buf then Inl (Fail TooLargeHeader)
              else Inl (Fail HttpInsufficientPrefix)
          | Some header_end \<Rightarrow>
              bindR (rng buf 0 header_end) (\<lambda>h.
              bindR (ok_or (from_utf8 h) HttpProtocolNotMatched) (\<lambda>header.
                case split_crlf header of
                  [] \<Rightarrow> Inl (Fail HttpParseError)
                | request_line # lines \<Rightarrow>
                    if \<not> looks_like_http_1x_request_line request_line then Inl (Fail HttpProtocolNotMatched)
                    else http_host_lines lines)))))"

text \<open>\<open>HttpSniffer::classify\<close>.\<close>

definition http_classify :: "bytes \<Rightarrow> nat \<Rightarrow> (unit, SniffAttempt) rres" where
  "http_classify buf max_len =
     (case sniff_http_host_from_prefix buf max_len of
        Inr host \<Rightarrow> Inr (Matched host)
      | Inl Panic \<Rightarrow> Inl Panic
      | Inl (Fail HttpInsufficientPrefix) \<Rightarrow> Inr NeedMore
      | Inl (Fail HttpPeekEmpty) \<Rightarrow> Inr (Abort PeekEmpty)
      | Inl (Fail HttpProtocolNotMatched) \<Rightarrow> Inr (Abort ProtocolNotMatched)
      | Inl (Fail HttpNoHost) \<Rightarrow> Inr (Abort NoTarget)
      | Inl (Fail HttpParseError) \<Rightarrow> Inr (Abort ParseError)
      | Inl (Fail HttpInvalidHostname) \<Rightarrow> Inr (Abort InvalidHostname)
      | Inl (Fail TooLargeHeader) \<Rightarrow> Inr (Abort TooLarge))"

section \<open>Panic freedom and the shape of results\<close>

definition http_name_ok :: "rstr \<Rightarrow> bool" where
  "http_name_ok h \<longleftrightarrow> is_valid_sni_hostname h \<and> to_ascii_lowercase h = h"

lemma find_window_Some_le:
  assumes "find_window pat xs = Some i"
  shows "i + length pat \<le> length xs"
proof -
  have "length pat = length (take (length pat) (drop i xs))"
    using find_window_Some [OF assms] by simp
  also have "\<dots> \<le> length xs - i" by simp
  finally show ?thesis using find_window_Some [OF assms] by linarith
qed

lemma rng_window:
  "find_window pat xs = Some i \<Longrightarrow> j \<le> i + length pat \<Longrightarrow> rng xs 0 j = Inr (take j xs)"
  using find_window_Some_le [of pat xs i] by (simp add: sub_list_def)

lemma safe_parse_http_host_header_value: "safe http_name_ok (parse_http_host_header_value v)"
  by (simp add: parse_http_host_header_value_def http_name_ok_def Let_def)

lemma safe_http_host_lines: "safe http_name_ok (http_host_lines ls)"
  by (induction ls) (auto intro!: safe_bindR_any safe_parse_http_host_header_value)

lemma definitely_not_http_eq:
  "definitely_not_http_1x_prefix buf =
     Inr (case find_window [13, 10] buf of
            None \<Rightarrow> False
          | Some e \<Rightarrow> (case from_utf8 (take e buf) of
                         None \<Rightarrow> True | Some line \<Rightarrow> \<not> looks_like_http_1x_request_line line))"
proof (cases "find_window [13, 10] buf")
  case (Some e)
  then show ?thesis
    unfolding definitely_not_http_1x_prefix_def by (simp add: rng_window [OF Some] split: option.split)
qed (simp add: definitely_not_http_1x_prefix_def)

text \<open>The verdict on a complete header block, with the slices resolved.\<close>

definition http_header_verdict :: "bytes \<Rightarrow> (HttpSniffError, rstr) rres" where
  "http_header_verdict h =
     bindR (ok_or (from_utf8 h) HttpProtocolNotMatched) (\<lambda>header.
       case split_crlf header of
         [] \<Rightarrow> Inl (Fail HttpParseError)
       | request_line # lines \<Rightarrow>
           if \<not> looks_like_http_1x_request_line request_line then Inl (Fail HttpProtocolNotMatched)
           else http_host_lines lines)"

lemma sniff_http_eq:
  assumes "buf \<noteq> []"
  shows "sniff_http_host_from_prefix buf m =
     (if \<not> is_ascii_uppercase (char_of_byte (hd buf)) \<or> definitely_not_http_1x_prefix buf = Inr True
      then Inl (Fail HttpProtocolNotMatched)
      else case find_http_header_end buf of
        None \<Rightarrow> if m \<le> length buf then Inl (Fail TooLargeHeader) else Inl (Fail HttpInsufficientPrefix)
      | Some e \<Rightarrow> http_header_verdict (take e buf))"
proof (cases "find_window [13, 10, 13, 10] buf")
  case None
  then show ?thesis
    using assms unfolding sniff_http_host_from_prefix_def definitely_not_http_eq
    by (simp add: find_http_header_end_def hd_conv_nth)
next
  case (Some p)
  have r: "rng buf 0 (p + 4) = Inr (take (p + 4) buf)"
    by (rule rng_window [OF Some]) simp
  show ?thesis
    using assms unfolding sniff_http_host_from_prefix_def definitely_not_http_eq
    by (simp add: find_http_header_end_def hd_conv_nth Some r http_header_verdict_def)
qed

lemma safe_http_header_verdict: "safe http_name_ok (http_header_verdict h)"
  unfolding http_header_verdict_def
  by (intro safe_bindR_any) (auto intro: safe_http_host_lines split: list.split)

lemma safe_sniff_http: "safe http_name_ok (sniff_http_host_from_prefix buf m)"
proof (cases "buf = []")
  case False
  then show ?thesis
    by (auto simp: sniff_http_eq intro: safe_http_header_verdict split: option.split)
qed (simp add: sniff_http_host_from_prefix_def)

section \<open>Longer prefixes\<close>

lemma find_window_weaken: "find_window (a @ b) xs = Some p \<Longrightarrow> find_window a xs \<noteq> None"
proof (induction xs arbitrary: p)
  case (Cons x xs)
  show ?case
  proof (cases "take (length (a @ b)) (x # xs) = a @ b")
    case True
    then have "take (length a) (take (length (a @ b)) (x # xs)) = a" by simp
    then have "take (length a) (x # xs) = a"
      by (simp add: min_def)
    then show ?thesis by simp
  next
    case False
    with Cons show ?thesis by auto
  qed
qed simp

lemma sniff_http_append:
  assumes "buf \<noteq> []" and "sniff_http_host_from_prefix buf m \<noteq> Inl (Fail HttpInsufficientPrefix)"
    and "sniff_http_host_from_prefix buf m \<noteq> Inl (Fail TooLargeHeader)"
  shows "sniff_http_host_from_prefix (buf @ more) m = sniff_http_host_from_prefix buf m"
proof -
  have not_http: "definitely_not_http_1x_prefix (buf @ more) = definitely_not_http_1x_prefix buf"
    if "find_window [13, 10] buf = Some e" for e
    using find_window_append [OF that, of more] find_window_Some_le [OF that]
    by (simp add: definitely_not_http_eq that)
  show ?thesis
  proof (cases "find_http_header_end buf")
    case None
    with assms have bad: "\<not> is_ascii_uppercase (char_of_byte (hd buf)) \<or> definitely_not_http_1x_prefix buf = Inr True"
      by (auto simp: sniff_http_eq split: if_splits)
    then have "\<not> is_ascii_uppercase (char_of_byte (hd buf)) \<or> definitely_not_http_1x_prefix (buf @ more) = Inr True"
      using not_http by (auto simp: definitely_not_http_eq [of buf] split: option.splits)
    with bad assms(1) show ?thesis
      by (simp add: sniff_http_eq)
  next
    case (Some e)
    then obtain p where p: "find_window [13, 10, 13, 10] buf = Some p" "e = p + 4"
      by (auto simp: find_http_header_end_def)
    from find_window_weaken [of "[13, 10]" "[13, 10]" buf p] p(1)
    obtain l where l: "find_window [13, 10] buf = Some l" by auto
    have "find_http_header_end (buf @ more) = Some e"
      using find_window_append [OF p(1)] by (simp add: find_http_header_end_def p(2))
    moreover have "take e (buf @ more) = take e buf"
      using find_window_Some_le [OF p(1)] by (simp add: p(2))
    ultimately show ?thesis
      using assms(1) Some by (simp add: sniff_http_eq not_http [OF l] del: take_append)
  qed
qed

section \<open>Requests\<close>

text \<open>A request head as its lines, the request line first.\<close>

definition crlf_join :: "rstr list \<Rightarrow> rstr" where
  "crlf_join ls = concat (map (\<lambda>l. l @ [CHR 0x0D, CHR 0x0A]) ls)"

definition http_request :: "rstr list \<Rightarrow> bytes" where
  "http_request ls = as_bytes (crlf_join ls @ [CHR 0x0D, CHR 0x0A])"

definition line_ok :: "rstr \<Rightarrow> bool" where
  "line_ok l \<longleftrightarrow> l \<noteq> [] \<and> CHR 0x0D \<notin> set l"

lemma split_crlf_line:
  "CHR 0x0D \<notin> set l \<Longrightarrow> split_crlf (l @ CHR 0x0D # CHR 0x0A # rest) = l # split_crlf rest"
proof (induction l)
  case (Cons c l)
  then show ?case
    by (cases l) auto
qed simp

lemma split_crlf_join:
  "list_all line_ok ls \<Longrightarrow> split_crlf (crlf_join ls @ rest) = ls @ split_crlf rest"
  by (induction ls) (auto simp: crlf_join_def line_ok_def split_crlf_line)

lemma find_window_skip:
  "x \<notin> set l \<Longrightarrow> find_window (x # p) (l @ rest) = map_option (\<lambda>i. length l + i) (find_window (x # p) rest)"
  by (cases "find_window (x # p) rest"; induction l) auto

lemma find_window_crlf:
  "c \<noteq> 13 \<Longrightarrow> find_window [13, 10, 13, 10] (13 # 10 # c # rest) =
     map_option (\<lambda>i. i + 2) (find_window [13, 10, 13, 10] (c # rest))" for c :: byte
  by (simp add: option.map_comp comp_def)

lemma byte_of_char_crlf [simp]: "byte_of_char (CHR 0x0D) = 13" "byte_of_char (CHR 0x0A) = 10"
  by (simp_all add: byte_of_char_def)

lemma byte_of_char_eq_13 [simp]: "13 = byte_of_char c \<longleftrightarrow> c = CHR 0x0D"
  by (metis byte_of_char_crlf(1) byte_of_char_inverse)

lemma cr_notin_as_bytes: "CHR 0x0D \<notin> set l \<Longrightarrow> 13 \<notin> set (as_bytes l)"
  by (auto simp: as_bytes_def)

lemma header_end_lines:
  "list_all line_ok ls \<Longrightarrow> ls \<noteq> [] \<Longrightarrow>
     find_window [13, 10, 13, 10] (http_request ls @ more) = Some (length (crlf_join ls) - 2)"
proof (induction ls)
  case (Cons l ls)
  have l: "13 \<notin> set (as_bytes l)" using Cons.prems by (simp add: line_ok_def cr_notin_as_bytes)
  have eq: "http_request (l # ls) @ more = as_bytes l @ 13 # 10 # (http_request ls @ more)"
    by (simp add: http_request_def crlf_join_def as_bytes_def)
  show ?case
  proof (cases ls)
    case Nil
    then show ?thesis
      unfolding eq find_window_skip [OF l] by (simp add: http_request_def crlf_join_def as_bytes_def)
  next
    case (Cons k ks)
    then obtain c k' where k: "k = c # k'" "c \<noteq> CHR 0x0D"
      using \<open>list_all line_ok (l # ls)\<close> by (cases k) (auto simp: line_ok_def)
    have hd: "http_request ls @ more = byte_of_char c # tl (http_request ls @ more)"
      by (simp add: Cons k http_request_def crlf_join_def as_bytes_def)
    have "2 \<le> length (crlf_join ls)" by (simp add: Cons crlf_join_def)
    moreover have "find_window [13, 10, 13, 10] (13 # 10 # (http_request ls @ more)) =
        map_option (\<lambda>i. i + 2) (find_window [13, 10, 13, 10] (http_request ls @ more))"
      using k(2) find_window_crlf [of "byte_of_char c" "tl (http_request ls @ more)"]
      unfolding hd [symmetric] by (metis byte_of_char_eq_13)
    ultimately show ?thesis
      unfolding eq find_window_skip [OF l] using Cons.IH Cons.prems(1) local.Cons
      by (simp add: crlf_join_def)
  qed
qed simp

section \<open>Host values\<close>

text \<open>No white space starts or ends with a printable ASCII character.\<close>

definition graphic :: "char \<Rightarrow> bool" where
  "graphic c \<longleftrightarrow> 33 \<le> (of_char c :: nat) \<and> (of_char c :: nat) < 127"

lemma trim_with_id: "\<forall>w \<in> set ws. w = [] \<or> hd w \<noteq> hd s \<Longrightarrow> s \<noteq> [] \<Longrightarrow> trim_with ws s = s"
proof -
  assume *: "\<forall>w \<in> set ws. w = [] \<or> hd w \<noteq> hd s" "s \<noteq> []"
  have "find (\<lambda>w. w \<noteq> [] \<and> prefix w s) ws = None"
    unfolding find_None_iff
  proof (intro notI, elim exE conjE bexE)
    fix w assume w: "w \<in> set ws" "w \<noteq> []" "prefix w s"
    then have "hd w = hd s" by (auto simp: prefix_def)
    with *(1) w show False by blast
  qed
  then show ?thesis by (subst trim_with.simps) simp
qed

lemma white_space_ends:
  "\<forall>w \<in> set white_space. \<not> graphic (hd w)" "\<forall>w \<in> set (map rev white_space). \<not> graphic (hd w)"
  unfolding graphic_def white_space_def by code_simp+

lemma trim_graphic: "s \<noteq> [] \<Longrightarrow> graphic (hd s) \<Longrightarrow> graphic (last s) \<Longrightarrow> trim s = s"
proof -
  assume s: "s \<noteq> []" "graphic (hd s)" "graphic (last s)"
  have "trim_with white_space s = s"
    using s white_space_ends(1) by (intro trim_with_id) auto
  moreover have "trim_with (map rev white_space) (rev s) = rev s"
    using s white_space_ends(2) by (intro trim_with_id) (auto simp: hd_rev)
  ultimately show ?thesis by (simp add: trim_def)
qed

lemma trim_space: "trim (CHR '' '' # s) = trim s"
proof -
  let ?P = "\<lambda>w. w \<noteq> [] \<and> prefix w (CHR '' '' # s)"
  have mem: "'' '' \<in> set white_space" "list_all (\<lambda>w. hd w = CHR '' '' \<longrightarrow> w = '' '') white_space"
    unfolding white_space_def by code_simp+
  have only: "w = '' ''" if "?P w" "w \<in> set white_space" for w
  proof -
    have "hd w = CHR '' ''" using that(1) by (cases w) auto
    with mem(2) that(2) show ?thesis unfolding list_all_iff by blast
  qed
  have "?P '' ''" by simp
  with find_not_None [of "'' ''" white_space ?P] mem(1)
  obtain w where w: "find ?P white_space = Some w" by blast
  with only find_SomeD [OF w] have "find ?P white_space = Some '' ''" by simp
  then have "trim_with white_space (CHR '' '' # s) = trim_with white_space s"
    by (subst trim_with.simps) simp
  then show ?thesis by (simp add: trim_def)
qed

lemma hostname_graphic: "is_valid_sni_hostname h \<Longrightarrow> c \<in> set h \<Longrightarrow> graphic c \<and> c \<noteq> CHR '':'' \<and> c \<noteq> CHR ''[''"
  by (drule (1) valid_sni_hostname_chars) (auto simp: ascii_defs graphic_def)

lemma parse_host_value:
  assumes "is_valid_sni_hostname h" and "to_ascii_lowercase h = h" and "list_all is_ascii_digit port"
  shows "parse_http_host_header_value (CHR '' '' # h) = Inr h"
    and "port \<noteq> [] \<Longrightarrow> parse_http_host_header_value (CHR '' '' # h @ CHR '':'' # port) = Inr h"
proof -
  have ne: "h \<noteq> []" using assms(1) by (auto simp: is_valid_sni_hostname_def)
  have g: "graphic c \<and> c \<noteq> CHR '':'' \<and> c \<noteq> CHR ''[''" if "c \<in> set h" for c
    using that by (rule hostname_graphic [OF assms(1)])
  have t: "trim h = h" using ne g by (intro trim_graphic) auto
  have "rsplit_once (CHR '':'') h = None"
    using g by (auto simp: rsplit_once_def split_once_None_iff)
  then show "parse_http_host_header_value (CHR '' '' # h) = Inr h"
    using ne g [of "hd h"] by (simp add: parse_http_host_header_value_def trim_space t assms)
  assume p: "port \<noteq> []"
  have dg: "graphic c \<and> c \<noteq> CHR '':''" if "c \<in> set port" for c
    using assms(3) that by (auto simp: list_all_iff ascii_defs graphic_def)
  let ?v = "h @ CHR '':'' # port"
  have tv: "trim ?v = ?v"
    using ne p g dg by (intro trim_graphic) auto
  have "rsplit_once (CHR '':'') ?v = Some (h, port)"
    using dg by (auto simp: rsplit_once_Some_iff)
  then show "parse_http_host_header_value (CHR '' '' # ?v) = Inr h"
    using ne p g [of "hd h"] assms(3) by (simp add: parse_http_host_header_value_def trim_space tv t assms)
qed

section \<open>Properties\<close>

text \<open>
  The HTTP sniffer never panics on any bytes, and a name it reports is a valid hostname in lower
  case.
\<close>

theorem http_sniff_safe: "safe http_name_ok (sniff_http_host_from_prefix buf max_header_size)"
  by (rule safe_sniff_http)

text \<open>
  A verdict of the HTTP sniffer on a non-empty prefix is final unless it asks for more data or
  found the header too large: more bytes never change it.
\<close>

theorem http_sniff_prefix_stable:
  assumes "buf \<noteq> []" and "sniff_http_host_from_prefix buf m \<noteq> Inl (Fail HttpInsufficientPrefix)"
    and "sniff_http_host_from_prefix buf m \<noteq> Inl (Fail TooLargeHeader)"
  shows "sniff_http_host_from_prefix (buf @ more) m = sniff_http_host_from_prefix buf m"
  using assms by (rule sniff_http_append)

theorem http_sniff_prefix_stable_witness:
  "sniff_http_host_from_prefix (as_bytes ''get'' @ [13, 10]) 100 = Inl (Fail HttpProtocolNotMatched)"
proof -
  have ne: "as_bytes ''get'' \<noteq> []" by (simp add: as_bytes_def)
  have "sniff_http_host_from_prefix (as_bytes ''get'') 100 = Inl (Fail HttpProtocolNotMatched)"
    by code_simp
  with http_sniff_prefix_stable [OF ne, of 100 "[13, 10]"] show ?thesis by simp
qed

text \<open>
  C33: Completeness. In a request head whose request line is of HTTP/1.0 or 1.1, the first line named
  \<open>Host\<close> in any case, after any number of other header lines, decides: with a valid lower-case
  host name, with or without a port, that name is the result, whatever follows.
\<close>

theorem http_sniff_finds_host:
  assumes "looks_like_http_1x_request_line req" and "is_ascii_uppercase (hd req)"
    and "list_all line_ok (req # before @ (hname @ CHR '':'' # CHR '' '' # value) # after)"
    and "list_all (\<lambda>l. \<exists>n v. split_once (CHR '':'') l = Some (n, v) \<and> \<not> eq_ignore_ascii_case n ''host'') before"
    and "eq_ignore_ascii_case hname ''host''" and "CHR '':'' \<notin> set hname"
    and "utf8_valid (http_request (req # before @ (hname @ CHR '':'' # CHR '' '' # value) # after))"
    and "is_valid_sni_hostname host" and "to_ascii_lowercase host = host"
    and "value = host \<or> (\<exists>port. port \<noteq> [] \<and> list_all is_ascii_digit port \<and> value = host @ CHR '':'' # port)"
  shows "sniff_http_host_from_prefix
     (http_request (req # before @ (hname @ CHR '':'' # CHR '' '' # value) # after) @ more) m = Inr host"
proof -
  let ?hs = "before @ (hname @ CHR '':'' # CHR '' '' # value) # after"
  let ?ls = "req # ?hs"
  let ?buf = "http_request ?ls @ more"
  have "split_once (CHR '':'') (hname @ CHR '':'' # CHR '' '' # value) = Some (hname, CHR '' '' # value)"
    using assms(6) by (simp add: split_once_Some_iff)
  moreover have "parse_http_host_header_value (CHR '' '' # value) = Inr host"
    using assms(10) parse_host_value [OF assms(8,9)] parse_host_value(1) [OF assms(8,9), of "[]"] by auto
  ultimately have here: "http_host_lines ((hname @ CHR '':'' # CHR '' '' # value) # rest) = Inr host" for rest
    using assms(5) by simp
  have "http_host_lines (before @ (hname @ CHR '':'' # CHR '' '' # value) # after @ [[], []]) = Inr host"
    using assms(4)
  proof (induction before)
    case (Cons b bs)
    then show ?case by (auto simp: split_once_Some_iff)
  qed (use here in simp)
  moreover have "split_crlf (crlf_join ?ls @ [CHR 0x0D, CHR 0x0A]) = ?ls @ [[], []]"
    using split_crlf_join [OF assms(3), of "[CHR 0x0D, CHR 0x0A]"] by simp
  ultimately have verdict: "http_header_verdict (http_request ?ls) = Inr host"
    using assms(1,7) by (simp add: http_header_verdict_def from_utf8_def http_request_def)
  have len: "2 \<le> length (crlf_join ?ls)" by (simp add: crlf_join_def)
  have head_end: "find_http_header_end ?buf = Some (length (http_request ?ls))"
    using header_end_lines [OF assms(3), of more] len by (simp add: find_http_header_end_def http_request_def)
  have req: "req \<noteq> []" "CHR 0x0D \<notin> set req"
    using assms(3) by (simp_all add: line_ok_def)
  have eq: "?buf = as_bytes req @ 13 # 10 # (http_request ?hs @ more)"
    by (simp add: http_request_def crlf_join_def as_bytes_def)
  have "find_window [13, 10] ?buf = Some (length req)"
    unfolding eq find_window_skip [OF cr_notin_as_bytes [OF req(2)]] by simp
  moreover have "utf8_valid (as_bytes req)"
    using assms(7) utf8_valid_before_ascii [of "as_bytes req" 13 "10 # http_request ?hs"]
    by (simp add: http_request_def crlf_join_def as_bytes_def)
  ultimately have "definitely_not_http_1x_prefix ?buf = Inr False"
    using assms(1) unfolding definitely_not_http_eq eq by (simp add: from_utf8_def)
  moreover have "hd ?buf = byte_of_char (hd req)" "?buf \<noteq> []"
    unfolding eq using req(1) by (simp_all add: as_bytes_def hd_append hd_map)
  ultimately show ?thesis
    using assms(2) head_end verdict by (simp add: sniff_http_eq)
qed

theorem http_sniff_finds_host_witness:
  "sniff_http_host_from_prefix
     (http_request [''GET / HTTP/1.1'', ''Accept: a:b'', ''hOSt: x.example:8080'', ''Host: y''] @ [1, 2]) 10 =
   Inr ''x.example''"
proof -
  have pre: "looks_like_http_1x_request_line ''GET / HTTP/1.1''" "is_ascii_uppercase (hd ''GET / HTTP/1.1'')"
      "eq_ignore_ascii_case ''hOSt'' ''host''" "CHR '':'' \<notin> set ''hOSt''"
      "is_valid_sni_hostname ''x.example''" "to_ascii_lowercase ''x.example'' = ''x.example''"
      "list_all is_ascii_digit ''8080''"
      "split_once (CHR '':'') ''Accept: a:b'' = Some (''Accept'', '' a:b'')"
      "\<not> eq_ignore_ascii_case ''Accept'' ''host''"
    by code_simp+
  have lines: "list_all line_ok (''GET / HTTP/1.1'' # [''Accept: a:b''] @
      (''hOSt'' @ CHR '':'' # CHR '' '' # ''x.example:8080'') # [''Host: y''])"
    by (simp add: line_ok_def)
  have utf8: "utf8_valid (http_request (''GET / HTTP/1.1'' # [''Accept: a:b''] @
      (''hOSt'' @ CHR '':'' # CHR '' '' # ''x.example:8080'') # [''Host: y'']))"
    by code_simp
  have val: "''x.example:8080'' = ''x.example'' \<or> (\<exists>port. port \<noteq> [] \<and> list_all is_ascii_digit port \<and>
      ''x.example:8080'' = ''x.example'' @ CHR '':'' # port)"
    by (intro disjI2 exI [of _ "''8080''"] conjI pre(7)) simp_all
  have others: "list_all (\<lambda>l. \<exists>n v. split_once (CHR '':'') l = Some (n, v) \<and>
      \<not> eq_ignore_ascii_case n ''host'') [''Accept: a:b'']"
    using pre(8,9) by simp
  show ?thesis
    using http_sniff_finds_host [OF pre(1,2) lines others pre(3,4) utf8 pre(5,6) val, of "[1, 2]" 10]
    by simp
qed

end
