(* ===== verification/Sniff_Engine.thy ===== *)
theory Sniff_Engine
  imports Tls_Sniff Http_Sniff Config_Data
begin

text \<open>
  The sniffing engine (\<open>sniff/mod.rs\<close>): peeking at longer and longer prefixes of a client stream
  and classifying them, one sniffer after the other. A run is driven by the list of what the
  socket does at each peek: \<open>Queued q\<close> when the bytes \<open>q\<close> are queued, \<open>PeekFail\<close> when the peek
  fails, \<open>WaitExpired\<close> when the deadline of the wait for more data passes instead. When the list
  is used up, the timeout of the engine fires. The locale \<open>sniffer\<close> is the contract of the trait
  \<open>Sniffer\<close> that the engine relies on; the TLS and HTTP sniffers are its interpretations.
\<close>

datatype PeekEvent = Queued bytes | PeekFail | WaitExpired

record Sniffer =
  sn_name :: rstr
  sn_initial_peek_len :: nat
  sn_max_peek_len :: nat
  sn_max_retries :: nat
  sn_wait_more :: nat
  sn_timeout :: nat
  sn_classify :: "bytes \<Rightarrow> nat \<Rightarrow> (unit, SniffAttempt) rres"

definition tls_sniffer_new :: "nat \<Rightarrow> nat \<Rightarrow> nat \<Rightarrow> nat \<Rightarrow> nat \<Rightarrow> Sniffer" where
  "tls_sniffer_new peek_len max_len max_retries wait_more_ms timeout_ms =
     \<lparr>sn_name = ''tls'', sn_initial_peek_len = peek_len, sn_max_peek_len = max_len,
      sn_max_retries = max_retries, sn_wait_more = max wait_more_ms 1, sn_timeout = max timeout_ms 1,
      sn_classify = tls_classify\<rparr>"

definition http_sniffer_new :: "nat \<Rightarrow> nat \<Rightarrow> nat \<Rightarrow> nat \<Rightarrow> nat \<Rightarrow> Sniffer" where
  "http_sniffer_new peek_len max_len max_retries wait_more_ms timeout_ms =
     \<lparr>sn_name = ''http'', sn_initial_peek_len = peek_len, sn_max_peek_len = max_len,
      sn_max_retries = max_retries, sn_wait_more = max wait_more_ms 1, sn_timeout = max timeout_ms 1,
      sn_classify = http_classify\<rparr>"

definition build_sniffers :: "('a ConfigSniff_scheme) \<Rightarrow> Sniffer list" where
  "build_sniffers config =
     (if c_sniff_tls_sni config
      then [tls_sniffer_new (c_tls_sniff_peek_len config) (c_tls_sniff_max_len config)
              (c_tls_sniff_max_retries config) (c_tls_sniff_wait_more_ms config) (c_tls_sniff_timeout_ms config)]
      else []) @
     (if c_sniff_http_host config
      then [http_sniffer_new (c_http_sniff_peek_len config) (c_http_sniff_max_len config)
              (c_http_sniff_max_retries config) (c_http_sniff_wait_more_ms config) (c_http_sniff_timeout_ms config)]
      else [])"

section \<open>Peeking\<close>

text \<open>The outer \<open>None\<close> is the timeout of the engine, the inner one an I/O error.\<close>

fun peek_client_prefix :: "nat \<Rightarrow> PeekEvent list \<Rightarrow> (bytes option \<times> PeekEvent list) option" where
  "peek_client_prefix max_len [] = None"
| "peek_client_prefix max_len (Queued q # es) = Some (Some (take max_len q), es)"
| "peek_client_prefix max_len (PeekFail # es) = Some (None, es)"
| "peek_client_prefix max_len (WaitExpired # es) = peek_client_prefix max_len es"

datatype WaitResult = MoreData bytes | NoMoreData | WaitFailed

fun wait_for_more_peek_data ::
  "nat \<Rightarrow> nat \<Rightarrow> PeekEvent list \<Rightarrow> (WaitResult \<times> PeekEvent list) option" where
  "wait_for_more_peek_data max_len last_len [] = None"
| "wait_for_more_peek_data max_len last_len (WaitExpired # es) = Some (NoMoreData, es)"
| "wait_for_more_peek_data max_len last_len (PeekFail # es) = Some (WaitFailed, es)"
| "wait_for_more_peek_data max_len last_len (Queued q # es) =
     (let buf = take max_len q
      in if last_len < length buf then Some (MoreData buf, es)
         else wait_for_more_peek_data max_len last_len es)"

definition should_retry_sniff :: "nat \<Rightarrow> nat \<Rightarrow> nat \<Rightarrow> nat \<Rightarrow> bool" where
  "should_retry_sniff attempt max_retries cur_len last_peek_len =
     (if max_retries \<le> attempt then False
      else if cur_len = 0 then False
      else if cur_len \<le> last_peek_len then False
      else True)"

section \<open>The engine\<close>

function sniff_loop ::
  "Sniffer \<Rightarrow> nat \<Rightarrow> nat \<Rightarrow> nat \<Rightarrow> nat \<Rightarrow> PeekEvent list \<Rightarrow> (unit, rstr option) rres" where
  "sniff_loop engine max_len peek_len attempt last_peek_len es =
     (case peek_client_prefix peek_len es of
        None \<Rightarrow> Inr None
      | Some (None, _) \<Rightarrow> Inr None
      | Some (Some buf, es) \<Rightarrow>
          bindR (sn_classify engine buf max_len) (\<lambda>a.
            case a of
              Matched host \<Rightarrow> Inr (Some host)
            | Abort err \<Rightarrow> Inr None
            | NeedMore \<Rightarrow>
                if \<not> should_retry_sniff attempt (sn_max_retries engine) (length buf) last_peek_len then Inr None
                else
                  let next_len = min (saturating_mul_usize peek_len 2) max_len in
                  if next_len \<le> peek_len then Inr None
                  else case wait_for_more_peek_data next_len (length buf) es of
                    None \<Rightarrow> Inr None
                  | Some (MoreData _, es) \<Rightarrow> sniff_loop engine max_len next_len (attempt + 1) (length buf) es
                  | Some (NoMoreData, _) \<Rightarrow> Inr None
                  | Some (WaitFailed, _) \<Rightarrow> Inr None))"
  by pat_completeness auto
termination
  by (relation "measure (\<lambda>(engine, max_len, peek_len, attempt, last, es). max_len - peek_len)") auto

declare sniff_loop.simps [simp del]

definition sniff_with_engine :: "Sniffer \<Rightarrow> nat \<Rightarrow> PeekEvent list \<Rightarrow> (unit, rstr option) rres" where
  "sniff_with_engine engine tcp_peek_buffer_size es =
     (let hard_cap = max tcp_peek_buffer_size 1;
          max_len = min (max (sn_max_peek_len engine) 1) hard_cap;
          peek_len = min (max (sn_initial_peek_len engine) 1) max_len
      in sniff_loop engine max_len peek_len 0 0 es)"

fun sniff_domain ::
  "(Sniffer \<times> PeekEvent list) list \<Rightarrow> nat \<Rightarrow> (unit, rstr option) rres" where
  "sniff_domain [] cfg = Inr None"
| "sniff_domain ((sniffer, es) # rest) cfg =
     bindR (sniff_with_engine sniffer cfg es) (\<lambda>r.
       case r of Some host \<Rightarrow> Inr (Some host) | None \<Rightarrow> sniff_domain rest cfg)"

section \<open>The contract of a sniffer\<close>

text \<open>Every name is well formed, and a match stays the answer when more bytes are seen.\<close>

definition name_ok :: "rstr \<Rightarrow> bool" where
  "name_ok h \<longleftrightarrow> is_valid_sni_hostname h \<and> to_ascii_lowercase h = h"

definition attempt_ok :: "SniffAttempt \<Rightarrow> bool" where
  "attempt_ok a = (case a of Matched h \<Rightarrow> name_ok h | _ \<Rightarrow> True)"

text \<open>The peeks of a run see prefixes of one byte stream.\<close>

definition reads_from :: "bytes \<Rightarrow> PeekEvent list \<Rightarrow> bool" where
  "reads_from stream es \<longleftrightarrow> (\<forall>q. Queued q \<in> set es \<longrightarrow> prefix q stream)"

text \<open>A name an engine reports is well formed and is the sniffer's answer on the whole stream.\<close>

definition outcome_ok ::
  "(bytes \<Rightarrow> nat \<Rightarrow> (unit, SniffAttempt) rres) \<Rightarrow> bytes \<Rightarrow> nat \<Rightarrow> rstr option \<Rightarrow> bool" where
  "outcome_ok classify stream max_len r =
     (case r of None \<Rightarrow> True | Some h \<Rightarrow> name_ok h \<and> classify stream max_len = Inr (Matched h))"

definition engine_max_len :: "Sniffer \<Rightarrow> nat \<Rightarrow> nat" where
  "engine_max_len engine cap = min (max (sn_max_peek_len engine) 1) (max cap 1)"

lemma peek_client_prefixD:
  "peek_client_prefix n es = Some (Some buf, es') \<Longrightarrow>
     (\<exists>q. Queued q \<in> set es \<and> buf = take n q) \<and> set es' \<subseteq> set es"
  by (induction n es rule: peek_client_prefix.induct) auto

lemma wait_for_more_peek_dataD:
  "wait_for_more_peek_data n l es = Some (r, es') \<Longrightarrow> set es' \<subseteq> set es"
  by (induction n l es rule: wait_for_more_peek_data.induct) (auto simp: Let_def split: if_splits)

locale sniffer =
  fixes classify :: "bytes \<Rightarrow> nat \<Rightarrow> (unit, SniffAttempt) rres"
  assumes classify_safe: "safe attempt_ok (classify buf m)"
    and match_stable: "classify buf m = Inr (Matched h) \<Longrightarrow> classify (buf @ q) m = Inr (Matched h)"
begin

lemma match_on_stream:
  "classify (take n q) m = Inr (Matched h) \<Longrightarrow> prefix q stream \<Longrightarrow> classify stream m = Inr (Matched h)"
  by (metis append_take_drop_id match_stable prefix_def)

lemma loop_safe:
  "sn_classify engine = classify \<Longrightarrow> reads_from stream es \<Longrightarrow>
     safe (outcome_ok classify stream max_len) (sniff_loop engine max_len peek_len attempt last_len es)"
proof (induction engine max_len peek_len attempt last_len es rule: sniff_loop.induct)
  case (1 engine max_len peek_len attempt last_len es)
  show ?case
  proof (cases "\<exists>buf es'. peek_client_prefix peek_len es = Some (Some buf, es')")
    case False
    then show ?thesis
      by (subst sniff_loop.simps) (auto simp: outcome_ok_def split: option.split)
  next
    case True
    then obtain buf es1 where p: "peek_client_prefix peek_len es = Some (Some buf, es1)" by blast
    from peek_client_prefixD [OF p] obtain q where q: "Queued q \<in> set es" "buf = take peek_len q"
        "set es1 \<subseteq> set es" by blast
    have stream: "prefix q stream" using "1.prems"(2) q(1) by (simp add: reads_from_def)
    have matched: "outcome_ok classify stream max_len (Some h)"
      if "classify buf max_len = Inr (Matched h)" for h
      using that classify_safe [of buf max_len] match_on_stream [OF _ stream] q(2)
      by (simp add: outcome_ok_def attempt_ok_def)
    have rec: "safe (outcome_ok classify stream max_len) (sniff_loop engine max_len n (attempt + 1) (length buf) es2)"
      if "classify buf max_len = Inr NeedMore" "should_retry_sniff attempt (sn_max_retries engine) (length buf) last_len"
        "n = min (saturating_mul_usize peek_len 2) max_len" "\<not> n \<le> peek_len"
        "wait_for_more_peek_data n (length buf) es1 = Some (MoreData d, es2)" for n es2 d
    proof -
      have "reads_from stream es2"
        using wait_for_more_peek_dataD [OF that(5)] q(3) "1.prems"(2) by (auto simp: reads_from_def)
      with "1.IH" [OF p refl refl _ _ _ that(3) that(4) that(5) refl refl] "1.prems"(1) that(1,2)
      show ?thesis by simp
    qed
    show ?thesis
      unfolding sniff_loop.simps [of engine max_len peek_len attempt last_len es] p "1.prems"(1)
      using matched rec classify_safe [of buf max_len]
      by (cases "classify buf max_len")
        (auto simp: outcome_ok_def Let_def safe_def split: SniffAttempt.split option.split WaitResult.split fault.splits)
  qed
qed

lemma engine_safe:
  "sn_classify engine = classify \<Longrightarrow> reads_from stream es \<Longrightarrow>
     safe (outcome_ok classify stream (engine_max_len engine cap)) (sniff_with_engine engine cap es)"
  unfolding sniff_with_engine_def engine_max_len_def Let_def by (rule loop_safe)

end

lemma tls_classify_Matched_iff: "tls_classify buf m = Inr (Matched h) \<longleftrightarrow> sniff_tls_sni_from_prefix buf m = Inr h"
  by (auto simp: tls_classify_def split: sum.splits fault.splits TlsSniffError.splits)

lemma http_classify_Matched_iff: "http_classify buf m = Inr (Matched h) \<longleftrightarrow> sniff_http_host_from_prefix buf m = Inr h"
  by (auto simp: http_classify_def split: sum.splits fault.splits HttpSniffError.splits)

interpretation tls: sniffer tls_classify
proof unfold_locales
  fix buf m
  show "safe attempt_ok (tls_classify buf m)"
    using safe_sniff_tls [of buf m]
    by (auto simp: tls_classify_def attempt_ok_def name_ok_def safe_def tls_name_ok_def sni_ok_def
        split: sum.splits fault.splits TlsSniffError.splits)
next
  fix buf m h q
  assume "tls_classify buf m = Inr (Matched h)"
  then have v: "sniff_tls_sni_from_prefix buf m = Inr h" by (simp only: tls_classify_Matched_iff)
  then have "buf \<noteq> []" by (auto simp: sniff_tls_sni_from_prefix_def)
  with v sniff_tls_append [of buf m q] show "tls_classify (buf @ q) m = Inr (Matched h)"
    by (simp add: tls_classify_Matched_iff)
qed

interpretation http: sniffer http_classify
proof unfold_locales
  fix buf m
  show "safe attempt_ok (http_classify buf m)"
    using safe_sniff_http [of buf m]
    by (auto simp: http_classify_def attempt_ok_def name_ok_def safe_def http_name_ok_def
        split: sum.splits fault.splits HttpSniffError.splits)
next
  fix buf m h q
  assume "http_classify buf m = Inr (Matched h)"
  then have v: "sniff_http_host_from_prefix buf m = Inr h" by (simp only: http_classify_Matched_iff)
  then have "buf \<noteq> []" by (auto simp: sniff_http_host_from_prefix_def)
  with v sniff_http_append [of buf m q] show "http_classify (buf @ q) m = Inr (Matched h)"
    by (simp add: http_classify_Matched_iff)
qed

lemma build_sniffers_classify:
  "s \<in> set (build_sniffers config) \<Longrightarrow> sn_classify s = tls_classify \<or> sn_classify s = http_classify"
  by (auto simp: build_sniffers_def tls_sniffer_new_def http_sniffer_new_def split: if_splits)

lemma built_engine_safe:
  assumes "s \<in> set (build_sniffers config)" and "reads_from stream es"
  shows "safe (outcome_ok (sn_classify s) stream (engine_max_len s cap)) (sniff_with_engine s cap es)"
  using build_sniffers_classify [OF assms(1)] tls.engine_safe [OF _ assms(2)] http.engine_safe [OF _ assms(2)]
  by auto

definition sniffed_ok :: "Sniffer list \<Rightarrow> bytes \<Rightarrow> nat \<Rightarrow> rstr option \<Rightarrow> bool" where
  "sniffed_ok sniffers stream cap r =
     (case r of None \<Rightarrow> True
      | Some h \<Rightarrow> name_ok h \<and> (\<exists>s \<in> set sniffers. sn_classify s stream (engine_max_len s cap) = Inr (Matched h)))"

lemma sniffed_ok_outcome:
  "outcome_ok (sn_classify s) stream (engine_max_len s cap) r \<Longrightarrow> s \<in> set sniffers \<Longrightarrow>
     sniffed_ok sniffers stream cap r"
  by (auto simp: outcome_ok_def sniffed_ok_def split: option.splits)

lemma sniff_domain_safe:
  assumes "set (map fst runs) \<subseteq> set (build_sniffers config)"
    and "\<forall>(s, es) \<in> set runs. reads_from stream es"
  shows "safe (sniffed_ok (build_sniffers config) stream cap) (sniff_domain runs cap)"
  using assms
proof (induction runs)
  case (Cons x runs)
  obtain s es where x: "x = (s, es)" by (cases x)
  have s: "s \<in> set (build_sniffers config)" "reads_from stream es"
    using Cons.prems by (auto simp: x)
  have rec: "safe (sniffed_ok (build_sniffers config) stream cap) (sniff_domain runs cap)"
    using Cons by simp
  show ?case
    unfolding x sniff_domain.simps
  proof (rule safe_bindR [OF built_engine_safe [OF s]])
    fix r
    assume "outcome_ok (sn_classify s) stream (engine_max_len s cap) r"
    from sniffed_ok_outcome [OF this s(1)] rec
    show "safe (sniffed_ok (build_sniffers config) stream cap)
        (case r of Some host \<Rightarrow> Inr (Some host) | None \<Rightarrow> sniff_domain runs cap)"
      by (cases r) simp_all
  qed
qed (simp add: sniffed_ok_def)

text \<open>Errors of a sniffer end as no domain: with the absence of panics, sniffing always returns.\<close>

lemma loop_no_error:
  "(\<And>buf m. sn_classify engine buf m \<noteq> Inl (Fail ())) \<Longrightarrow>
   sniff_loop engine max_len peek_len attempt last_len es \<noteq> Inl (Fail ())"
proof (induction engine max_len peek_len attempt last_len es rule: sniff_loop.induct)
  case (1 engine max_len peek_len attempt last_len es)
  show ?case
  proof (cases "\<exists>buf es'. peek_client_prefix peek_len es = Some (Some buf, es')")
    case False
    then show ?thesis by (subst sniff_loop.simps) (auto split: option.split)
  next
    case True
    then obtain buf es1 where p: "peek_client_prefix peek_len es = Some (Some buf, es1)" by blast
    have rec: "sniff_loop engine max_len n (attempt + 1) (length buf) es2 \<noteq> Inl (Fail ())"
      if "sn_classify engine buf max_len = Inr NeedMore" "should_retry_sniff attempt (sn_max_retries engine) (length buf) last_len"
        "n = min (saturating_mul_usize peek_len 2) max_len" "\<not> n \<le> peek_len"
        "wait_for_more_peek_data n (length buf) es1 = Some (MoreData d, es2)" for n es2 d
      using "1.IH" [OF p refl refl _ _ _ that(3) that(4) that(5) refl refl] "1.prems" that(1,2) by simp
    show ?thesis
      unfolding sniff_loop.simps [of engine max_len peek_len attempt last_len es] p
      using rec "1.prems" by (auto simp: bindR_eq_Inl_iff Let_def split: SniffAttempt.splits option.splits WaitResult.splits if_splits)
  qed
qed

lemma sniff_domain_returns:
  assumes "set (map fst runs) \<subseteq> set (build_sniffers config)" and "\<forall>(s, es) \<in> set runs. reads_from stream es"
  shows "\<exists>d. sniff_domain runs cap = Inr d"
proof -
  have "sn_classify s buf m \<noteq> Inl (Fail ())" if "s \<in> set (build_sniffers config)" for s buf m
    using build_sniffers_classify [OF that]
    by (auto simp: tls_classify_def http_classify_def split: sum.splits fault.splits TlsSniffError.splits HttpSniffError.splits)
  then have "sniff_domain runs cap \<noteq> Inl (Fail ())"
    using assms(1) by (induction runs)
      (auto simp: sniff_with_engine_def Let_def bindR_eq_Inl_iff loop_no_error split: option.splits)
  moreover have "sniff_domain runs cap \<noteq> Inl Panic" using sniff_domain_safe [OF assms, of cap] by (auto simp: safe_def)
  ultimately show ?thesis
    by (cases "sniff_domain runs cap") (metis (full_types) fault.exhaust old.unit.exhaust, blast)
qed

section \<open>Properties\<close>

text \<open>
  C22: Sniffing a TCP connection with the configured sniffers never panics, and a domain it returns
  is a valid lower-case hostname which one of these sniffers assigns to the whole client stream,
  whatever the timing and the sizes of the peeks, the retries and the failures: the decision of the
  engine does not depend on how the stream arrived.
\<close>

theorem sniff_domain_correct:
  assumes "set (map fst runs) \<subseteq> set (build_sniffers config)"
    and "\<forall>(s, es) \<in> set runs. reads_from stream es"
  shows "safe (sniffed_ok (build_sniffers config) stream cap) (sniff_domain runs cap)"
  using assms by (rule sniff_domain_safe)

theorem sniff_domain_correct_witness:
  "let cfg = default_config []\<lparr>c_sniff_tls_sni := True, c_sniff_http_host := True\<rparr>;
       runs = zip (build_sniffers cfg) [[Queued [71]], [Queued [71], WaitExpired]]
   in safe (sniffed_ok (build_sniffers cfg) [71, 69] 4096) (sniff_domain runs 4096) \<and>
      length runs = 2"
proof -
  define cfg where "cfg = default_config []\<lparr>c_sniff_tls_sni := True, c_sniff_http_host := True\<rparr>"
  define runs where "runs = zip (build_sniffers cfg) [[Queued [71]], [Queued [71 :: byte], WaitExpired]]"
  have two: "length (build_sniffers cfg) = 2"
    by (simp add: cfg_def default_config_def build_sniffers_def)
  have "set (map fst runs) \<subseteq> set (build_sniffers cfg)"
    unfolding runs_def by (auto dest: set_zip_leftD)
  moreover have "\<forall>(s, es) \<in> set runs. reads_from [71, 69] es"
    by (auto simp: runs_def reads_from_def dest!: set_zip_rightD)
  ultimately have "safe (sniffed_ok (build_sniffers cfg) [71, 69] 4096) (sniff_domain runs 4096)"
    by (rule sniff_domain_correct)
  then show ?thesis
    using two unfolding Let_def cfg_def [symmetric] runs_def [symmetric] by (simp add: runs_def)
qed

end
