(* ===== verification/Quic_Sniff.thy ===== *)
theory Quic_Sniff
  imports Tls_Sniff
begin

text \<open>
  The QUIC sniffer (\<open>sniff/quic.rs\<close>, \<open>sniff/udp.rs\<close>): variable-length integers, the
  reassembly of the CRYPTO stream, header protection removal, frames, Initial packets and
  datagrams. HKDF, AES and AES-GCM come from crates outside the repository: they are the fields of
  the record \<open>quic_crates\<close>, an argument of every definition that uses them. An operation that
  mutates the reassembly state returns it, also next to an error.
\<close>

unbundle bit_operations_syntax

section \<open>Outcomes (udp.rs)\<close>

datatype UdpSniffError =
  UProtocolNotMatched | UInsufficientPrefix | UNoTarget | UParseError | UInvalidHostname | UTooLarge

datatype UdpSniffProtocol = QuicSni

datatype UdpSniffOutcome =
  UMatched (um_protocol: UdpSniffProtocol) (um_host: rstr)
| UNotMatched
| UNeedMore UdpSniffProtocol
| UFailed UdpSniffProtocol UdpSniffError

definition udp_sniff_protocol_name :: "UdpSniffProtocol \<Rightarrow> rstr" where
  "udp_sniff_protocol_name p = (case p of QuicSni \<Rightarrow> ''quic_sni'')"

definition udp_sniff_error_reason :: "UdpSniffError \<Rightarrow> rstr" where
  "udp_sniff_error_reason e =
     (case e of
        UProtocolNotMatched \<Rightarrow> ''protocol_not_matched''
      | UInsufficientPrefix \<Rightarrow> ''insufficient_prefix''
      | UNoTarget \<Rightarrow> ''no_target''
      | UParseError \<Rightarrow> ''parse_error''
      | UInvalidHostname \<Rightarrow> ''invalid_hostname''
      | UTooLarge \<Rightarrow> ''too_large'')"

definition udp_error_of_tls :: "TlsSniffError \<Rightarrow> UdpSniffError" where
  "udp_error_of_tls err =
     (case err of
        TlsPeekEmpty \<Rightarrow> UInsufficientPrefix
      | TlsInsufficientPrefix \<Rightarrow> UInsufficientPrefix
      | TlsProtocolNotMatched \<Rightarrow> UProtocolNotMatched
      | TlsNoSni \<Rightarrow> UNoTarget
      | TlsParseError \<Rightarrow> UParseError
      | TlsInvalidHostname \<Rightarrow> UInvalidHostname
      | TooLargeClientHello \<Rightarrow> UTooLarge)"

section \<open>Keys\<close>

definition QUIC_SNI_INPUT_CAP :: nat where "QUIC_SNI_INPUT_CAP = 16 * 1024"
definition QUIC_CRYPTO_REASSEMBLY_CAP :: nat where "QUIC_CRYPTO_REASSEMBLY_CAP = 32 * 1024"

definition QUIC_VERSION_V1 :: u32 where "QUIC_VERSION_V1 = 1"
definition QUIC_VERSION_V2 :: u32 where "QUIC_VERSION_V2 = 0x6b3343cf"
definition QUIC_VERSION_DRAFT29 :: u32 where "QUIC_VERSION_DRAFT29 = 0xff00001d"

definition quic_initial_salt :: "u32 \<Rightarrow> bytes option" where
  "quic_initial_salt version =
     (if version = QUIC_VERSION_V1 then
        Some [0x38, 0x76, 0x2c, 0xf7, 0xf5, 0x59, 0x34, 0xb3, 0x4d, 0x17, 0x9a, 0xe6, 0xa4, 0xc8, 0x0c,
              0xad, 0xcc, 0xbb, 0x7f, 0x0a]
      else if version = QUIC_VERSION_V2 then
        Some [0x0d, 0xed, 0xe3, 0xde, 0xf7, 0x00, 0xa6, 0xdb, 0x81, 0x93, 0x81, 0xbe, 0x6e, 0x26, 0x9d,
              0xcb, 0xf9, 0xbd, 0x2e, 0xd9]
      else if version = QUIC_VERSION_DRAFT29 then
        Some [0xaf, 0xbf, 0xec, 0x28, 0x99, 0x93, 0xd2, 0x4c, 0x9e, 0x97, 0x86, 0xf1, 0x9c, 0x61, 0x11,
              0xe0, 0x43, 0x90, 0xa8, 0x99]
      else None)"

text \<open>The functions of \<open>hkdf\<close>, \<open>aes\<close> and \<open>aes_gcm\<close>; a pseudo-random key stands for an \<open>Hkdf\<close>.\<close>

record quic_crates =
  hkdf_extract :: "bytes \<Rightarrow> bytes \<Rightarrow> bytes"
  hkdf_from_prk :: "bytes \<Rightarrow> bytes option"
  hkdf_expand :: "bytes \<Rightarrow> bytes \<Rightarrow> nat \<Rightarrow> bytes option"
  aes_encrypt_block :: "bytes \<Rightarrow> bytes \<Rightarrow> bytes"
  gcm_decrypt :: "bytes \<Rightarrow> bytes \<Rightarrow> bytes \<Rightarrow> bytes \<Rightarrow> bytes option"

text \<open>What the code relies on: the lengths of the outputs.\<close>

definition quic_crates_ok :: "quic_crates \<Rightarrow> bool" where
  "quic_crates_ok C \<longleftrightarrow>
     (\<forall>prk info n out. hkdf_expand C prk info n = Some out \<longrightarrow> length out = n) \<and>
     (\<forall>key block. length block = 16 \<longrightarrow> length (aes_encrypt_block C key block) = 16)"

record QuicInitialKeys =
  qk_hp_key :: bytes
  qk_key :: bytes
  qk_iv :: bytes

definition hkdf_expand_label_from_hkdf ::
  "quic_crates \<Rightarrow> bytes \<Rightarrow> rstr \<Rightarrow> bytes \<Rightarrow> nat \<Rightarrow> (UdpSniffError, bytes) rres" where
  "hkdf_expand_label_from_hkdf C hk label context out_len =
     (let full_label = as_bytes ''tls13 '' @ as_bytes label
      in if length full_label > 255 \<or> length context > 255 then Inl (Fail UParseError)
         else let info = be_bytes 2 out_len @ [of_nat (length full_label)] @ full_label
                         @ [of_nat (length context)] @ context
              in ok_or (hkdf_expand C hk info out_len) UParseError)"

definition hkdf_expand_label ::
  "quic_crates \<Rightarrow> bytes \<Rightarrow> rstr \<Rightarrow> bytes \<Rightarrow> nat \<Rightarrow> (UdpSniffError, bytes) rres" where
  "hkdf_expand_label C secret label context out_len =
     bindR (ok_or (hkdf_from_prk C secret) UParseError) (\<lambda>hk.
       hkdf_expand_label_from_hkdf C hk label context out_len)"

definition derive_quic_initial_keys ::
  "quic_crates \<Rightarrow> u32 \<Rightarrow> bytes \<Rightarrow> (UdpSniffError, QuicInitialKeys) rres" where
  "derive_quic_initial_keys C version dcid =
     bindR (ok_or (quic_initial_salt version) UProtocolNotMatched) (\<lambda>salt.
     let initial_hk = hkdf_extract C salt dcid in
     bindR (hkdf_expand_label_from_hkdf C initial_hk ''client in'' [] 32) (\<lambda>initial_secret.
     bindR (hkdf_expand_label C initial_secret ''quic hp'' [] 16) (\<lambda>hp_key.
     bindR (hkdf_expand_label C initial_secret ''quic key'' [] 16) (\<lambda>key.
     bindR (hkdf_expand_label C initial_secret ''quic iv'' [] 12) (\<lambda>iv.
     Inr \<lparr>qk_hp_key = hp_key, qk_key = key, qk_iv = iv\<rparr>)))))"

section \<open>Integers\<close>

definition quic_read_u32 :: "bytes \<Rightarrow> nat \<Rightarrow> (UdpSniffError, u32) rres" where
  "quic_read_u32 buf off =
     (if off + 4 > length buf then Inl (Fail UInsufficientPrefix)
      else bindR (idx buf off) (\<lambda>a. bindR (idx buf (off + 1)) (\<lambda>b.
           bindR (idx buf (off + 2)) (\<lambda>c. bindR (idx buf (off + 3)) (\<lambda>d.
           Inr (of_nat (be_nat [a, b, c, d])))))))"

definition quic_varint_len :: "byte \<Rightarrow> nat" where
  "quic_varint_len first =
     (let t = drop_bit 6 first in if t = 0 then 1 else if t = 1 then 2 else if t = 2 then 4 else 8)"

text \<open>The value and the new offset. The value is a \<open>u64\<close>; its two top bits are never set.\<close>

definition quic_read_varint :: "bytes \<Rightarrow> nat \<Rightarrow> (UdpSniffError, nat \<times> nat) rres" where
  "quic_read_varint buf off =
     bindR (ok_or (get_idx buf off) UInsufficientPrefix) (\<lambda>first.
     let len = quic_varint_len first in
     if off + len > length buf then Inl (Fail UInsufficientPrefix)
     else bindR (rng buf (off + 1) (off + len)) (\<lambda>bs.
          Inr (foldl (\<lambda>value b. value * 256 + unat b) (unat (first AND 0x3f)) bs, off + len)))"

section \<open>The CRYPTO stream\<close>

record QuicCryptoReassembly =
  qr_buf :: bytes
  qr_present :: "bool list"
  qr_contiguous_len :: nat
  qr_last_dcid :: "bytes option"

definition reassembly_new :: QuicCryptoReassembly where
  "reassembly_new = \<lparr>qr_buf = [], qr_present = [], qr_contiguous_len = 0, qr_last_dcid = None\<rparr>"

definition resize :: "nat \<Rightarrow> 'a \<Rightarrow> 'a list \<Rightarrow> 'a list" where
  "resize n x xs = take n xs @ replicate (n - length xs) x"

text \<open>\<open>dst[i..j].copy_from_slice(src)\<close> for \<open>src\<close> of length \<open>j - i\<close>.\<close>

definition copy_into :: "nat \<Rightarrow> 'a list \<Rightarrow> 'a list \<Rightarrow> 'a list" where
  "copy_into i src dst = take i dst @ src @ drop (i + length src) dst"

function advance_contiguous :: "bool list \<Rightarrow> nat \<Rightarrow> nat" where
  "advance_contiguous present n =
     (if n < length present \<and> present ! n then advance_contiguous present (n + 1) else n)"
  by pat_completeness auto
termination
  by (relation "measure (\<lambda>(present, n). length present - n)") auto

declare advance_contiguous.simps [simp del]

definition reassembly_write ::
  "nat \<Rightarrow> bytes \<Rightarrow> QuicCryptoReassembly \<Rightarrow> (UdpSniffError, unit) rres \<times> QuicCryptoReassembly" where
  "reassembly_write offset data r =
     (case checked_add_usize offset (length data) of
        None \<Rightarrow> (Inl (Fail UTooLarge), r)
      | Some end_off \<Rightarrow>
          if end_off > QUIC_CRYPTO_REASSEMBLY_CAP then (Inl (Fail UTooLarge), r)
          else
            let (buf, present) =
                  (if length (qr_buf r) < end_off
                   then (resize end_off 0 (qr_buf r), resize end_off False (qr_present r))
                   else (qr_buf r, qr_present r))
            in if end_off > length buf \<or> end_off > length present then (Inl Panic, r)
               else
                 let buf = copy_into offset data buf;
                     present = copy_into offset (replicate (end_off - offset) True) present
                 in (Inr (), r\<lparr>qr_buf := buf, qr_present := present,
                               qr_contiguous_len := advance_contiguous present (qr_contiguous_len r)\<rparr>))"

definition reassembly_reset :: "QuicCryptoReassembly \<Rightarrow> QuicCryptoReassembly" where
  "reassembly_reset r = \<lparr>qr_buf = [], qr_present = [], qr_contiguous_len = 0, qr_last_dcid = None\<rparr>"

definition contiguous :: "QuicCryptoReassembly \<Rightarrow> (UdpSniffError, bytes) rres" where
  "contiguous r = rng (qr_buf r) 0 (qr_contiguous_len r)"

section \<open>Packets\<close>

definition quic_build_nonce :: "bytes \<Rightarrow> nat \<Rightarrow> bytes" where
  "quic_build_nonce iv packet_number =
     take 4 iv @ map2 (XOR) (drop 4 iv) (be_bytes 8 packet_number)"

definition quic_parse_tls_client_hello_from_crypto :: "bytes \<Rightarrow> (UdpSniffError, rstr) rres" where
  "quic_parse_tls_client_hello_from_crypto crypto =
     (if length crypto < 4 then Inl (Fail UInsufficientPrefix)
      else bindR (idx crypto 0) (\<lambda>c0.
      if c0 \<noteq> 1 then Inl (Fail UProtocolNotMatched)
      else bindR (rng crypto 1 4) (\<lambda>l.
      bindR (map_err (\<lambda>_. UParseError) (be_u24 l)) (\<lambda>hs_len.
      bindR (ok_or (checked_add_usize 4 hs_len) UTooLarge) (\<lambda>tot.
      if tot > QUIC_CRYPTO_REASSEMBLY_CAP then Inl (Fail UTooLarge)
      else if length crypto < tot then Inl (Fail UInsufficientPrefix)
      else bindR (rng crypto 4 tot) (\<lambda>body.
           map_err udp_error_of_tls (parse_sni_from_client_hello_body body)))))))"

definition quic_remove_header_protection_and_decrypt ::
  "quic_crates \<Rightarrow> bytes \<Rightarrow> nat \<Rightarrow> nat \<Rightarrow> nat \<Rightarrow> QuicInitialKeys \<Rightarrow> (UdpSniffError, bytes) rres" where
  "quic_remove_header_protection_and_decrypt C packet packet_start pn_offset packet_end keys =
     (if packet_end > length packet \<or> packet_end \<le> pn_offset then Inl (Fail UInsufficientPrefix)
      else bindR (ok_or (Option.bind (checked_add_usize pn_offset 4) (\<lambda>v. checked_add_usize v 16)) UTooLarge) (\<lambda>sample_end.
      if sample_end > packet_end then Inl (Fail UInsufficientPrefix)
      else bindR (rng packet (pn_offset + 4) (pn_offset + 4 + 16)) (\<lambda>sample.
      let mask = aes_encrypt_block C (qk_hp_key keys) sample in
      bindR (idx packet packet_start) (\<lambda>p0.
      bindR (idx mask 0) (\<lambda>m0.
      let first_unprotected = p0 XOR (m0 AND 0x0f);
          pn_len = unat (first_unprotected AND 3) + 1 in
      if pn_len = 0 \<or> pn_len > 4 then Inl (Fail UProtocolNotMatched)
      else if pn_offset + pn_len > packet_end then Inl (Fail UInsufficientPrefix)
      else bindR (rng packet pn_offset (pn_offset + pn_len)) (\<lambda>pn.
      bindR (rng mask 1 (1 + pn_len)) (\<lambda>m.
      let pn_bytes = map2 (XOR) pn m; packet_number = be_nat pn_bytes in
      bindR (rng packet packet_start pn_offset) (\<lambda>head.
      bindR (if head = [] then Inl Panic else Inr (first_unprotected # tl head)) (\<lambda>head.
      let header = head @ pn_bytes in
      bindR (rng packet (pn_offset + pn_len) packet_end) (\<lambda>ciphertext.
      if length ciphertext < 16 then Inl (Fail UInsufficientPrefix)
      else ok_or (gcm_decrypt C (qk_key keys) (quic_build_nonce (qk_iv keys) packet_number) header ciphertext)
             UProtocolNotMatched))))))))))"

section \<open>Frames\<close>

lemma quic_varint_len_bounds: "1 \<le> quic_varint_len b" "quic_varint_len b \<le> 8"
  by (simp_all add: quic_varint_len_def Let_def)

lemma safe_quic_read_varint:
  "safe (\<lambda>(v, off'). off < off' \<and> off' \<le> length buf) (quic_read_varint buf off)"
  using quic_varint_len_bounds
  by (auto simp: quic_read_varint_def Let_def get_idx_def Suc_le_eq rng_def)

lemma quic_read_varint_off:
  "quic_read_varint buf off = Inr (v, off') \<Longrightarrow> off < off' \<and> off' \<le> length buf"
  using safe_quic_read_varint [of off buf] by (simp add: safe_def)

text \<open>The ranges of an ACK frame: two integers each.\<close>

fun quic_skip_ack_ranges :: "nat \<Rightarrow> bytes \<Rightarrow> nat \<Rightarrow> (UdpSniffError, nat) rres" where
  "quic_skip_ack_ranges 0 frames off = Inr off"
| "quic_skip_ack_ranges (Suc n) frames off =
     bindR (quic_read_varint frames off) (\<lambda>(gap, off).
     bindR (quic_read_varint frames off) (\<lambda>(len, off).
     quic_skip_ack_ranges n frames off))"

definition quic_skip_ack_frame :: "nat \<Rightarrow> bytes \<Rightarrow> nat \<Rightarrow> (UdpSniffError, nat) rres" where
  "quic_skip_ack_frame frame_type frames off =
     bindR (quic_read_varint frames off) (\<lambda>(largest_acknowledged, off).
     bindR (quic_read_varint frames off) (\<lambda>(ack_delay, off).
     bindR (quic_read_varint frames off) (\<lambda>(ack_range_count, off).
     bindR (quic_read_varint frames off) (\<lambda>(first_ack_range, off).
     bindR (quic_skip_ack_ranges ack_range_count frames off) (\<lambda>off.
     if frame_type = 3 then
       bindR (quic_read_varint frames off) (\<lambda>(ect0, off).
       bindR (quic_read_varint frames off) (\<lambda>(ect1, off).
       bindR (quic_read_varint frames off) (\<lambda>(ce, off). Inr off)))
     else Inr off)))))"

definition quic_skip_connection_close_frame :: "bytes \<Rightarrow> nat \<Rightarrow> (UdpSniffError, nat) rres" where
  "quic_skip_connection_close_frame frames off =
     bindR (quic_read_varint frames off) (\<lambda>(error_code, off).
     bindR (quic_read_varint frames off) (\<lambda>(frame_type, off).
     bindR (quic_read_varint frames off) (\<lambda>(reason_len, off).
     bindR (ok_or (checked_add_usize off reason_len) UTooLarge) (\<lambda>end_off.
     if end_off > length frames then Inl (Fail UInsufficientPrefix) else Inr end_off))))"

lemma safe_quic_skip_ack_ranges:
  "off \<le> length frames \<Longrightarrow> safe (\<lambda>off'. off \<le> off' \<and> off' \<le> length frames) (quic_skip_ack_ranges n frames off)"
proof (induction n arbitrary: off)
  case (Suc n)
  show ?case
    unfolding quic_skip_ack_ranges.simps
  proof (rule safe_bindR [OF safe_quic_read_varint], clarsimp)
    fix o1 assume o1: "off < o1" "o1 \<le> length frames"
    show "safe (\<lambda>off'. off \<le> off' \<and> off' \<le> length frames)
        (bindR (quic_read_varint frames o1) (\<lambda>(len, off). quic_skip_ack_ranges n frames off))"
    proof (rule safe_bindR [OF safe_quic_read_varint], clarsimp)
      fix o2 assume o2: "o1 < o2" "o2 \<le> length frames"
      show "safe (\<lambda>off'. off \<le> off' \<and> off' \<le> length frames) (quic_skip_ack_ranges n frames o2)"
        using Suc.IH [OF o2(2)] o1 o2 by (auto simp: safe_def)
    qed
  qed
qed simp

lemma safe_varint_then:
  assumes "\<And>v o'. off < o' \<Longrightarrow> o' \<le> length buf \<Longrightarrow> safe P (f (v, o'))"
  shows "safe P (bindR (quic_read_varint buf off) f)"
  by (rule safe_bindR [OF safe_quic_read_varint]) (use assms in auto)

lemma safe_quic_skip_ack_frame:
  "safe (\<lambda>off'. off \<le> off' \<and> off' \<le> length frames) (quic_skip_ack_frame t frames off)"
  unfolding quic_skip_ack_frame_def
  by (intro safe_varint_then, simp only: prod.case)+
    (rule safe_bindR [OF safe_quic_skip_ack_ranges], assumption,
     auto intro!: safe_varint_then)

lemma safe_quic_skip_connection_close_frame:
  "safe (\<lambda>off'. off \<le> off' \<and> off' \<le> length frames) (quic_skip_connection_close_frame frames off)"
  unfolding quic_skip_connection_close_frame_def
  by (intro safe_varint_then, simp only: prod.case)+
    (auto intro!: safe_bindR_any)

text \<open>The body of a CRYPTO frame: stream offset, data, and the offset after the frame.\<close>

definition quic_crypto_frame :: "bytes \<Rightarrow> nat \<Rightarrow> (UdpSniffError, nat \<times> bytes \<times> nat) rres" where
  "quic_crypto_frame frames off =
     bindR (quic_read_varint frames off) (\<lambda>(crypto_offset, off).
     bindR (quic_read_varint frames off) (\<lambda>(crypto_len, off).
     bindR (ok_or (checked_add_usize off crypto_len) UTooLarge) (\<lambda>crypto_end.
     if crypto_end > length frames then Inl (Fail UInsufficientPrefix)
     else bindR (rng frames off crypto_end) (\<lambda>data. Inr (crypto_offset, data, crypto_end)))))"

lemma safe_quic_crypto_frame:
  "safe (\<lambda>(co, data, off'). off \<le> off' \<and> off' \<le> length frames) (quic_crypto_frame frames off)"
  unfolding quic_crypto_frame_def
  by (intro safe_varint_then, simp only: prod.case)+
    (auto intro!: safe_bindR_any)

function quic_frames ::
  "bytes \<Rightarrow> nat \<Rightarrow> QuicCryptoReassembly \<Rightarrow> (UdpSniffError, unit) rres \<times> QuicCryptoReassembly" where
  "quic_frames frames off crypto =
     (if off < length frames then
        case quic_read_varint frames off of
          Inl e \<Rightarrow> (Inl e, crypto)
        | Inr (frame_type, off1) \<Rightarrow>
            if frame_type = 0 \<or> frame_type = 1 then quic_frames frames off1 crypto
            else if frame_type = 2 \<or> frame_type = 3 then
              (case quic_skip_ack_frame frame_type frames off1 of
                 Inl e \<Rightarrow> (Inl e, crypto)
               | Inr off2 \<Rightarrow> quic_frames frames off2 crypto)
            else if frame_type = 6 then
              (case quic_crypto_frame frames off1 of
                 Inl e \<Rightarrow> (Inl e, crypto)
               | Inr (crypto_offset, data, crypto_end) \<Rightarrow>
                   (case reassembly_write crypto_offset data crypto of
                      (Inl e, crypto') \<Rightarrow> (Inl e, crypto')
                    | (Inr _, crypto') \<Rightarrow> quic_frames frames crypto_end crypto'))
            else if frame_type = 0x1c then
              (case quic_skip_connection_close_frame frames off1 of
                 Inl e \<Rightarrow> (Inl e, crypto)
               | Inr off2 \<Rightarrow> quic_frames frames off2 crypto)
            else (Inl (Fail UProtocolNotMatched), crypto)
      else (Inr (), crypto))"
  by pat_completeness auto
termination
proof (relation "measure (\<lambda>(frames, off, crypto). length frames - off)", goal_cases)
  case 1 then show ?case by simp
next
  case (2 frames off crypto x v off1)
  then show ?case using quic_read_varint_off [of frames off v off1] by auto
next
  case (3 frames off crypto x v off1 off2)
  then show ?case
    using quic_read_varint_off [of frames off v off1] safe_result [OF safe_quic_skip_ack_frame 3(6)] by auto
next
  case (4 frames off crypto x v off1 y co z data cend)
  then have "quic_crypto_frame frames off1 = Inr (co, data, cend)" by simp
  from safe_result [OF safe_quic_crypto_frame this] 4 show ?case
    using quic_read_varint_off [of frames off v off1] by auto
next
  case (5 frames off crypto x v off1 off2)
  then show ?case
    using quic_read_varint_off [of frames off v off1]
      safe_result [OF safe_quic_skip_connection_close_frame [of off1 frames]] by fastforce
qed

declare quic_frames.simps [simp del]

definition quic_parse_initial_frames ::
  "bytes \<Rightarrow> QuicCryptoReassembly \<Rightarrow> (UdpSniffError, unit) rres \<times> QuicCryptoReassembly" where
  "quic_parse_initial_frames frames crypto = quic_frames frames 0 crypto"

section \<open>Initial packets\<close>

text \<open>Version, destination connection id and the offset after it.\<close>

definition quic_initial_head :: "bytes \<Rightarrow> nat \<Rightarrow> (UdpSniffError, u32 \<times> bytes \<times> nat) rres" where
  "quic_initial_head datagram packet_start =
     (if packet_start \<ge> length datagram then Inl (Fail UInsufficientPrefix)
      else bindR (idx datagram packet_start) (\<lambda>first.
      if first AND 0x80 = 0 \<or> first AND 0x40 = 0 then Inl (Fail UProtocolNotMatched)
      else
      let off = packet_start + 1 in
      bindR (quic_read_u32 datagram off) (\<lambda>version.
      let off = off + 4 in
      if quic_initial_salt version = None then Inl (Fail UProtocolNotMatched)
      else
      let packet_type = drop_bit 4 (first AND 0x30);
          is_initial = (if version = QUIC_VERSION_V1 \<or> version = QUIC_VERSION_DRAFT29 then packet_type = 0
                        else if version = QUIC_VERSION_V2 then packet_type = 1 else False) in
      if \<not> is_initial then Inl (Fail UProtocolNotMatched)
      else
      bindR (ok_or (get_idx datagram off) UInsufficientPrefix) (\<lambda>dl.
      let dcid_len = unat dl; off = off + 1 in
      if dcid_len > 20 then Inl (Fail UProtocolNotMatched)
      else if off + dcid_len > length datagram then Inl (Fail UInsufficientPrefix)
      else bindR (rng datagram off (off + dcid_len)) (\<lambda>dcid. Inr (version, dcid, off + dcid_len))))))"

text \<open>Source connection id, token and length: the offset of the packet number and the end of the packet.\<close>

definition quic_initial_tail :: "bytes \<Rightarrow> nat \<Rightarrow> (UdpSniffError, nat \<times> nat) rres" where
  "quic_initial_tail datagram off =
     bindR (ok_or (get_idx datagram off) UInsufficientPrefix) (\<lambda>sl.
     let scid_len = unat sl; off = off + 1 in
     if scid_len > 20 then Inl (Fail UProtocolNotMatched)
     else if off + scid_len > length datagram then Inl (Fail UInsufficientPrefix)
     else
     let off = off + scid_len in
     bindR (quic_read_varint datagram off) (\<lambda>(token_len, off).
     bindR (ok_or (checked_add_usize off token_len) UTooLarge) (\<lambda>token_end.
     if token_end > length datagram then Inl (Fail UInsufficientPrefix)
     else
     bindR (quic_read_varint datagram token_end) (\<lambda>(protected_len, off).
     if protected_len = 0 then Inl (Fail UProtocolNotMatched)
     else
     bindR (ok_or (checked_add_usize off protected_len) UTooLarge) (\<lambda>packet_end.
     if packet_end > length datagram then Inl (Fail UInsufficientPrefix)
     else Inr (off, packet_end))))))"

definition note_dcid :: "bytes \<Rightarrow> QuicCryptoReassembly \<Rightarrow> QuicCryptoReassembly" where
  "note_dcid dcid crypto =
     (let crypto = (case qr_last_dcid crypto of
                      Some l \<Rightarrow> if l \<noteq> dcid then reassembly_reset crypto else crypto
                    | None \<Rightarrow> crypto)
      in crypto\<lparr>qr_last_dcid := Some dcid\<rparr>)"

definition quic_parse_one_initial_packet ::
  "quic_crates \<Rightarrow> bytes \<Rightarrow> nat \<Rightarrow> QuicCryptoReassembly \<Rightarrow> (UdpSniffError, nat) rres \<times> QuicCryptoReassembly" where
  "quic_parse_one_initial_packet C datagram packet_start crypto =
     (case quic_initial_head datagram packet_start of
        Inl e \<Rightarrow> (Inl e, crypto)
      | Inr (version, dcid, off) \<Rightarrow>
          let crypto = note_dcid dcid crypto in
          case quic_initial_tail datagram off of
            Inl e \<Rightarrow> (Inl e, crypto)
          | Inr (pn_offset, packet_end) \<Rightarrow>
              (case bindR (derive_quic_initial_keys C version dcid) (\<lambda>keys.
                      quic_remove_header_protection_and_decrypt C datagram packet_start pn_offset packet_end keys) of
                 Inl e \<Rightarrow> (Inl e, crypto)
               | Inr plaintext \<Rightarrow>
                   (case quic_parse_initial_frames plaintext crypto of
                      (Inl e, crypto') \<Rightarrow> (Inl e, crypto')
                    | (Inr _, crypto') \<Rightarrow> (Inr packet_end, crypto'))))"

lemma safe_quic_initial_head:
  "safe (\<lambda>(version, dcid, off). packet_start < off \<and> off \<le> length datagram) (quic_initial_head datagram packet_start)"
proof -
  have u32: "safe (\<lambda>_. True) (quic_read_u32 datagram (packet_start + 1))"
    by (auto simp: quic_read_u32_def)
  show ?thesis
    using u32 unfolding quic_initial_head_def Let_def
    by (auto intro!: safe_bindR [OF u32] safe_bindR_any simp: get_idx_def)
qed

lemma safe_quic_initial_tail:
  "safe (\<lambda>(pn_offset, packet_end). off < pn_offset \<and> pn_offset < packet_end \<and> packet_end \<le> length datagram)
     (quic_initial_tail datagram off)"
  unfolding quic_initial_tail_def Let_def
  by (auto intro!: safe_bindR_any safe_varint_then simp: get_idx_def)

lemma quic_parse_one_initial_packet_next:
  assumes "quic_parse_one_initial_packet C datagram start crypto = (Inr next, crypto')"
  shows "start < next \<and> next \<le> length datagram"
proof -
  from assms obtain version dcid off pn plain where
      "quic_initial_head datagram start = Inr (version, dcid, off)"
      "quic_initial_tail datagram off = Inr (pn, next)"
    by (auto simp: quic_parse_one_initial_packet_def Let_def split: sum.splits prod.splits)
  from safe_result [OF safe_quic_initial_head this(1)] safe_result [OF safe_quic_initial_tail this(2)]
  show ?thesis by auto
qed

section \<open>Datagrams\<close>

function quic_datagram_loop ::
  "quic_crates \<Rightarrow> bytes \<Rightarrow> nat \<Rightarrow> bool \<Rightarrow> QuicCryptoReassembly \<Rightarrow>
   (UdpSniffError, rstr) rres \<times> QuicCryptoReassembly" where
  "quic_datagram_loop C datagram off saw_initial crypto =
     (if off < length datagram then
        case quic_parse_one_initial_packet C datagram off crypto of
          (Inr next_off, crypto') \<Rightarrow>
            (case bindR (contiguous crypto') quic_parse_tls_client_hello_from_crypto of
               Inr host \<Rightarrow> (Inr host, crypto')
             | Inl e \<Rightarrow>
                 if e = Fail UInsufficientPrefix then quic_datagram_loop C datagram next_off True crypto'
                 else (Inl e, crypto'))
        | (Inl e, crypto') \<Rightarrow>
            if e = Fail UProtocolNotMatched \<and> saw_initial then (Inl (Fail UInsufficientPrefix), crypto')
            else (Inl e, crypto')
      else (Inl (Fail (if saw_initial then UInsufficientPrefix else UProtocolNotMatched)), crypto))"
  by pat_completeness auto
termination
  by (relation "measure (\<lambda>(C, datagram, off, saw, crypto). length datagram - off)")
    (auto dest!: sym [of "(Inr _, _)"] quic_parse_one_initial_packet_next)

declare quic_datagram_loop.simps [simp del]

definition sniff_quic_sni_from_datagram_with_reassembly ::
  "quic_crates \<Rightarrow> bytes \<Rightarrow> QuicCryptoReassembly \<Rightarrow> (UdpSniffError, rstr) rres \<times> QuicCryptoReassembly" where
  "sniff_quic_sni_from_datagram_with_reassembly C datagram0 crypto =
     (if datagram0 = [] then (Inl (Fail UInsufficientPrefix), crypto)
      else case bindR (rng datagram0 0 (min (length datagram0) QUIC_SNI_INPUT_CAP)) (\<lambda>datagram.
                  bindR (idx datagram 0) (\<lambda>first. Inr (datagram, first))) of
             Inl e \<Rightarrow> (Inl e, crypto)
           | Inr (datagram, first) \<Rightarrow>
               if first AND 0x80 = 0 \<or> first AND 0x40 = 0 then (Inl (Fail UProtocolNotMatched), crypto)
               else quic_datagram_loop C datagram 0 False crypto)"

text \<open>\<open>QuicSniUdpSnifferSession::feed\<close>; a panic is a panic of the task.\<close>

definition quic_feed ::
  "quic_crates \<Rightarrow> bytes \<Rightarrow> QuicCryptoReassembly \<Rightarrow> (unit, UdpSniffOutcome) rres \<times> QuicCryptoReassembly" where
  "quic_feed C payload crypto =
     (case sniff_quic_sni_from_datagram_with_reassembly C payload crypto of
        (r, crypto') \<Rightarrow>
          ((case r of
              Inr host \<Rightarrow> Inr (UMatched QuicSni host)
            | Inl Panic \<Rightarrow> Inl Panic
            | Inl (Fail UProtocolNotMatched) \<Rightarrow> Inr UNotMatched
            | Inl (Fail UInsufficientPrefix) \<Rightarrow> Inr (UNeedMore QuicSni)
            | Inl (Fail e) \<Rightarrow> Inr (UFailed QuicSni e)), crypto'))"

section \<open>The reassembly invariant\<close>

definition reassembly_ok :: "QuicCryptoReassembly \<Rightarrow> bool" where
  "reassembly_ok r \<longleftrightarrow>
     length (qr_present r) = length (qr_buf r) \<and> length (qr_buf r) \<le> QUIC_CRYPTO_REASSEMBLY_CAP \<and>
     qr_contiguous_len r \<le> length (qr_buf r) \<and> (\<forall>i < qr_contiguous_len r. qr_present r ! i) \<and>
     (qr_contiguous_len r < length (qr_buf r) \<longrightarrow> \<not> qr_present r ! qr_contiguous_len r)"

text \<open>The bytes received, as a partial function of the stream offset.\<close>

definition reassembly_view :: "QuicCryptoReassembly \<Rightarrow> nat \<Rightarrow> byte option" where
  "reassembly_view r i = (if i < length (qr_buf r) \<and> qr_present r ! i then Some (qr_buf r ! i) else None)"

lemma advance_contiguous_spec:
  assumes "n \<le> length present" and "\<forall>i < n. present ! i"
  shows "advance_contiguous present n \<le> length present \<and> (\<forall>i < advance_contiguous present n. present ! i) \<and>
     (advance_contiguous present n < length present \<longrightarrow> \<not> present ! advance_contiguous present n)"
  using assms
proof (induction present n rule: advance_contiguous.induct)
  case (1 present n)
  show ?case
  proof (cases "n < length present \<and> present ! n")
    case True
    with 1 have "\<forall>i < n + 1. present ! i" by (simp add: less_Suc_eq)
    moreover have "advance_contiguous present n = advance_contiguous present (n + 1)"
      by (subst advance_contiguous.simps) (simp only: True if_True simp_thms)
    ultimately show ?thesis
      using 1(1) [OF True] True by (simp only:) simp
  next
    case False
    then have "advance_contiguous present n = n"
      by (subst advance_contiguous.simps) auto
    with False 1 show ?thesis by auto
  qed
qed

lemma reassembly_ok_new: "reassembly_ok reassembly_new"
  by (simp add: reassembly_ok_def reassembly_new_def)

lemma reassembly_ok_note_dcid: "reassembly_ok r \<Longrightarrow> reassembly_ok (note_dcid dcid r)"
  by (auto simp: note_dcid_def reassembly_ok_def reassembly_reset_def Let_def split: option.split)

lemma nth_copy_into:
  "i + length src \<le> length dst \<Longrightarrow> k < length dst \<Longrightarrow>
     copy_into i src dst ! k = (if i \<le> k \<and> k < i + length src then src ! (k - i) else dst ! k)"
  by (auto simp: copy_into_def nth_append)

lemma length_copy_into: "i + length src \<le> length dst \<Longrightarrow> length (copy_into i src dst) = length dst"
  by (simp add: copy_into_def)

lemma length_resize: "length (resize n x xs) = n"
  by (simp add: resize_def)

lemma nth_resize: "k < n \<Longrightarrow> resize n x xs ! k = (if k < length xs then xs ! k else x)"
  by (simp add: resize_def nth_append)

lemma reassembly_write_spec:
  assumes ok: "reassembly_ok r" and w: "reassembly_write off d r = (res, r')"
  shows "reassembly_ok r' \<and>
     (res = Inr () \<and> off + length d \<le> QUIC_CRYPTO_REASSEMBLY_CAP \<and>
        reassembly_view r' = (\<lambda>i. if off \<le> i \<and> i < off + length d then Some (d ! (i - off)) else reassembly_view r i) \<or>
      res = Inl (Fail UTooLarge) \<and> r' = r \<and> QUIC_CRYPTO_REASSEMBLY_CAP < off + length d)"
proof (cases "off + length d > QUIC_CRYPTO_REASSEMBLY_CAP")
  case True
  with w ok show ?thesis
    by (auto simp: reassembly_write_def checked_add_usize_def split: if_splits)
next
  case False
  let ?e = "off + length d"
  have add: "checked_add_usize off (length d) = Some ?e"
    using False by (simp add: QUIC_CRYPTO_REASSEMBLY_CAP_def usize_max_def)
  define buf present where "buf = (if length (qr_buf r) < ?e then resize ?e 0 (qr_buf r) else qr_buf r)"
    and "present = (if length (qr_buf r) < ?e then resize ?e False (qr_present r) else qr_present r)"
  have len: "length present = length buf" "?e \<le> length buf" "length buf \<le> QUIC_CRYPTO_REASSEMBLY_CAP"
      "length (qr_buf r) \<le> length buf"
    using ok False by (auto simp: reassembly_ok_def buf_def present_def length_resize)
  have old: "present ! i = (i < length (qr_buf r) \<and> qr_present r ! i)"
      "i < length (qr_buf r) \<Longrightarrow> buf ! i = qr_buf r ! i" if "i < length buf" for i
    using ok that by (auto simp: reassembly_ok_def buf_def present_def length_resize nth_resize split: if_splits)
  let ?buf = "copy_into off d buf" and ?present = "copy_into off (replicate (length d) True) present"
  have res: "res = Inr ()" and r': "r' = r\<lparr>qr_buf := ?buf, qr_present := ?present,
      qr_contiguous_len := advance_contiguous ?present (qr_contiguous_len r)\<rparr>"
    using w add False len(2) len(1) by (auto simp: reassembly_write_def buf_def present_def Let_def split: if_splits)
  have nthp: "?present ! i = ((off \<le> i \<and> i < ?e) \<or> present ! i)" if "i < length buf" for i
    using that len by (auto simp: nth_copy_into)
  have lenp: "length ?present = length buf" "length ?buf = length buf"
    using len by (simp_all add: length_copy_into)
  have c: "qr_contiguous_len r \<le> length ?present" "\<forall>i < qr_contiguous_len r. ?present ! i"
    using ok len old by (auto simp: reassembly_ok_def lenp nthp)
  have "reassembly_ok r'"
    using advance_contiguous_spec [OF c] len(3) lenp by (simp add: reassembly_ok_def r')
  moreover have "reassembly_view r' =
      (\<lambda>i. if off \<le> i \<and> i < ?e then Some (d ! (i - off)) else reassembly_view r i)"
  proof
    fix i
    show "reassembly_view r' i = (if off \<le> i \<and> i < ?e then Some (d ! (i - off)) else reassembly_view r i)"
      using len old [of i] nthp [of i] by (auto simp: reassembly_view_def r' lenp nth_copy_into)
  qed
  ultimately show ?thesis using res False by auto
qed

lemma contiguous_spec:
  assumes "reassembly_ok r"
  shows "\<exists>bs. contiguous r = Inr bs \<and> (\<forall>i < length bs. reassembly_view r i = Some (bs ! i)) \<and>
     reassembly_view r (length bs) = None"
proof -
  let ?n = "qr_contiguous_len r"
  have "contiguous r = Inr (take ?n (qr_buf r))" "length (take ?n (qr_buf r)) = ?n"
    using assms by (auto simp: contiguous_def reassembly_ok_def sub_list_def)
  then show ?thesis
    using assms by (intro exI [of _ "take ?n (qr_buf r)"]) (auto simp: reassembly_ok_def reassembly_view_def)
qed

section \<open>Panic freedom\<close>

text \<open>Computations over the reassembly state: no panic, and the invariant is kept.\<close>

definition safe_st :: "('a \<Rightarrow> bool) \<Rightarrow> (UdpSniffError, 'a) rres \<times> QuicCryptoReassembly \<Rightarrow> bool" where
  "safe_st P x \<longleftrightarrow> safe P (fst x) \<and> reassembly_ok (snd x)"

lemma safe_st_simps [simp]:
  "safe_st P (Inl (Fail e), r) \<longleftrightarrow> reassembly_ok r"
  "safe_st P (Inr v, r) \<longleftrightarrow> P v \<and> reassembly_ok r"
  by (simp_all add: safe_st_def)

lemma safe_st_Inl: "safe Q m \<Longrightarrow> m = Inl e \<Longrightarrow> reassembly_ok r \<Longrightarrow> safe_st P (Inl e, r)"
  by (cases e) (auto simp: safe_st_def safe_def)

lemma safe_st_quic_frames: "reassembly_ok r \<Longrightarrow> safe_st (\<lambda>_. True) (quic_frames frames off r)"
proof (induction frames off r rule: quic_frames.induct)
  case (1 frames off r)
  show ?case
  proof (cases "off < length frames")
    case False
    then show ?thesis using "1.prems" by (subst quic_frames.simps) simp
  next
    case True
    show ?thesis
    proof (cases "quic_read_varint frames off")
      case (Inl e)
      then show ?thesis
        using True "1.prems" safe_st_Inl [OF safe_quic_read_varint Inl]
        by (subst quic_frames.simps) simp
    next
      case (Inr x)
      obtain t o1 where x: "x = (t, o1)" by (cases x)
      note v = Inr [unfolded x]
      have crypto: "safe_st (\<lambda>_. True) (case reassembly_write co d r of
            (Inl e, r') \<Rightarrow> (Inl e, r') | (Inr _, r') \<Rightarrow> quic_frames frames ce r')"
        if "quic_crypto_frame frames o1 = Inr (co, d, ce)" "t = 6" for co d ce
      proof -
        obtain res r' where w: "reassembly_write co d r = (res, r')" by fastforce
        from reassembly_write_spec [OF "1.prems" w]
        have r': "reassembly_ok r'" "res = Inr () \<or> res = Inl (Fail UTooLarge)" by auto
        then show ?thesis
          using "1.IH"(3) [OF True Inr x [symmetric] _ _ _ that(1) refl refl w [symmetric]] that(2)
          by (auto simp: w)
      qed
      show ?thesis
        unfolding quic_frames.simps [of frames off r] v sum.case prod.case
        using True "1.prems" crypto
          "1.IH"(1) [OF True Inr x [symmetric]] "1.IH"(2) [OF True Inr x [symmetric]]
          "1.IH"(4) [OF True Inr x [symmetric]]
          safe_st_Inl [OF safe_quic_skip_ack_frame] safe_st_Inl [OF safe_quic_crypto_frame]
          safe_st_Inl [OF safe_quic_skip_connection_close_frame]
        by (auto split: sum.split)
    qed
  qed
qed

lemma safe_derive_quic_initial_keys: "safe (\<lambda>_. True) (derive_quic_initial_keys C version dcid)"
  unfolding derive_quic_initial_keys_def hkdf_expand_label_def hkdf_expand_label_from_hkdf_def Let_def
  by (auto intro!: safe_bindR_any)

lemma safe_quic_decrypt:
  assumes "quic_crates_ok C" and "packet_start < pn_offset"
  shows "safe (\<lambda>_. True)
     (quic_remove_header_protection_and_decrypt C packet packet_start pn_offset packet_end keys)"
proof -
  have mask: "length (aes_encrypt_block C key (sub_list (pn_offset + 4) (pn_offset + 4 + 16) packet)) = 16"
    if "pn_offset + 4 + 16 \<le> length packet" for key
    using assms(1) that by (simp add: quic_crates_ok_def)
  have pn: "unat (w AND 3) \<le> 3" for w :: byte
    using word_and_le1 [of w 3] by (simp add: word_le_nat_alt)
  show ?thesis
  proof (cases "packet_end > length packet \<or> packet_end \<le> pn_offset")
    case True
    then show ?thesis by (simp add: quic_remove_header_protection_and_decrypt_def)
  next
    case False
    note bounds = False [unfolded de_Morgan_disj not_less not_le] assms(2)
    have if_safe: "safe P (if c then Inl (Fail e) else m)" if "\<not> c \<Longrightarrow> safe P m"
      for P c e and m :: "('e, 'x) rres"
      using that by simp
    have "head \<noteq> []" if "rng packet packet_start pn_offset = Inr head" for head :: bytes
      using that bounds by (auto simp: rng_def sub_list_def split: if_splits)
    then show ?thesis
      unfolding quic_remove_header_protection_and_decrypt_def Let_def
      using bounds pn mask
      by (intro if_safe safe_bindR_any)
        (auto simp: bind_eq_Some_conv rng_eq_Inr_iff intro!: safe_idx)
  qed
qed

lemma safe_st_one_packet:
  assumes C: "quic_crates_ok C" and r: "reassembly_ok r"
  shows "safe_st (\<lambda>_. True) (quic_parse_one_initial_packet C datagram start r)"
proof (cases "quic_initial_head datagram start")
  case (Inl e)
  then show ?thesis
    using safe_st_Inl [OF safe_quic_initial_head Inl r] by (simp add: quic_parse_one_initial_packet_def)
next
  case (Inr x)
  obtain version dcid off where x: "x = (version, dcid, off)" by (cases x)
  have start: "start < off" using safe_result [OF safe_quic_initial_head Inr [unfolded x]] by simp
  let ?r = "note_dcid dcid r"
  have r1: "reassembly_ok ?r" by (rule reassembly_ok_note_dcid [OF r])
  show ?thesis
  proof (cases "quic_initial_tail datagram off")
    case (Inl e)
    then show ?thesis
      using safe_st_Inl [OF safe_quic_initial_tail Inl r1]
      by (simp add: quic_parse_one_initial_packet_def Inr x Let_def)
  next
    case tail: (Inr y)
    obtain pn ee where y: "y = (pn, ee)" by (cases y)
    have "start < pn" using safe_result [OF safe_quic_initial_tail tail [unfolded y]] start by simp
    then have plain: "safe (\<lambda>_. True) (bindR (derive_quic_initial_keys C version dcid) (\<lambda>keys.
        quic_remove_header_protection_and_decrypt C datagram start pn ee keys))"
      by (intro safe_bindR_any safe_derive_quic_initial_keys safe_quic_decrypt [OF C])
    have "safe_st (\<lambda>_. True) (case quic_parse_initial_frames p ?r of
        (Inl e, r') \<Rightarrow> (Inl e, r') | (Inr _, r') \<Rightarrow> (Inr ee, r'))" for p
      using safe_st_quic_frames [OF r1, of p 0]
      by (cases "quic_frames p 0 ?r"; cases "fst (quic_frames p 0 ?r)")
        (auto simp: quic_parse_initial_frames_def safe_st_def safe_def)
    then show ?thesis
      using safe_st_Inl [OF plain _ r1]
      by (auto simp: quic_parse_one_initial_packet_def Inr x tail y Let_def split: sum.split)
  qed
qed

lemma safe_quic_client_hello: "safe tls_name_ok (quic_parse_tls_client_hello_from_crypto crypto)"
  unfolding quic_parse_tls_client_hello_from_crypto_def
  by (auto intro!: safe_bindR_any simp: safe_parse_sni_from_client_hello_body idx_def)

lemma safe_st_datagram_loop:
  "quic_crates_ok C \<Longrightarrow> reassembly_ok r \<Longrightarrow> safe_st tls_name_ok (quic_datagram_loop C datagram off saw r)"
proof (induction C datagram off saw r rule: quic_datagram_loop.induct)
  case (1 C datagram off saw r)
  obtain res r' where p: "quic_parse_one_initial_packet C datagram off r = (res, r')" by fastforce
  have one: "safe (\<lambda>_. True) res" "reassembly_ok r'"
    using safe_st_one_packet [OF "1.prems", of datagram off] by (simp_all add: p safe_st_def)
  have hello: "safe tls_name_ok (bindR (contiguous r') quic_parse_tls_client_hello_from_crypto)"
    using contiguous_spec [OF one(2)] safe_quic_client_hello by auto
  show ?case
  proof (cases "off < length datagram")
    case True
    show ?thesis
    proof (cases res)
      case (Inl e)
      then show ?thesis
        unfolding quic_datagram_loop.simps [of C datagram off saw r] p
        using True one safe_st_Inl [OF one(1) Inl one(2), where P = tls_name_ok] by simp
    next
      case (Inr n)
      show ?thesis
      proof (cases "bindR (contiguous r') quic_parse_tls_client_hello_from_crypto")
        case h: (Inl e)
        then show ?thesis
          unfolding quic_datagram_loop.simps [of C datagram off saw r] p Inr prod.case sum.case h
          using True "1.IH" [OF True p [symmetric] Inr h _ "1.prems"(1) one(2)] safe_st_Inl [OF hello h one(2), where P = tls_name_ok]
          by simp
      next
        case h: (Inr host)
        then show ?thesis
          unfolding quic_datagram_loop.simps [of C datagram off saw r] p Inr prod.case sum.case h
          using True one(2) safe_result [OF hello h] by simp
      qed
    qed
  next
    case False
    then show ?thesis
      using "1.prems" by (subst quic_datagram_loop.simps) simp
  qed
qed

lemma safe_st_sniff_quic:
  assumes "quic_crates_ok C" and "reassembly_ok r"
  shows "safe_st tls_name_ok (sniff_quic_sni_from_datagram_with_reassembly C datagram r)"
proof (cases "datagram = []")
  case False
  then have "0 < length (take (min (length datagram) QUIC_SNI_INPUT_CAP) datagram)"
    by (simp add: QUIC_SNI_INPUT_CAP_def)
  with False show ?thesis
    using assms safe_st_datagram_loop [OF assms]
    by (simp add: sniff_quic_sni_from_datagram_with_reassembly_def sub_list_def idx_def)
qed (simp add: sniff_quic_sni_from_datagram_with_reassembly_def assms(2))

text \<open>A sniffing session: the payloads of one flow, in order.\<close>

fun quic_session ::
  "quic_crates \<Rightarrow> bytes list \<Rightarrow> QuicCryptoReassembly \<Rightarrow>
   (unit, UdpSniffOutcome) rres list \<times> QuicCryptoReassembly" where
  "quic_session C [] r = ([], r)"
| "quic_session C (p # ps) r =
     (let (o1, r1) = quic_feed C p r; (os, r2) = quic_session C ps r1 in (o1 # os, r2))"

definition outcome_name_ok :: "UdpSniffOutcome \<Rightarrow> bool" where
  "outcome_name_ok u = (case u of UMatched _ h \<Rightarrow> tls_name_ok h | _ \<Rightarrow> True)"

lemma quic_feed_safe:
  assumes "quic_crates_ok C" and "reassembly_ok r"
  shows "safe outcome_name_ok (fst (quic_feed C p r)) \<and> reassembly_ok (snd (quic_feed C p r))"
  using safe_st_sniff_quic [OF assms, of p]
  by (auto simp: quic_feed_def safe_st_def safe_def outcome_name_ok_def
      split: prod.splits sum.splits fault.splits UdpSniffError.splits)

lemma quic_session_safe:
  assumes "quic_crates_ok C"
  shows "reassembly_ok r \<Longrightarrow>
     list_all (safe outcome_name_ok) (fst (quic_session C ps r)) \<and> reassembly_ok (snd (quic_session C ps r))"
proof (induction ps arbitrary: r)
  case (Cons p ps)
  with quic_feed_safe [OF assms Cons.prems, of p] Cons.IH [of "snd (quic_feed C p r)"] show ?case
    by (simp add: Let_def case_prod_unfold)
qed simp

section \<open>Any order\<close>

fun write_chunks ::
  "bytes \<Rightarrow> (nat \<times> nat) list \<Rightarrow> QuicCryptoReassembly \<Rightarrow> (UdpSniffError, unit) rres \<times> QuicCryptoReassembly" where
  "write_chunks m [] r = (Inr (), r)"
| "write_chunks m ((i, l) # cs) r =
     (case reassembly_write i (sub_list i (i + l) m) r of
        (Inl e, r') \<Rightarrow> (Inl e, r')
      | (Inr _, r') \<Rightarrow> write_chunks m cs r')"

definition covered :: "(nat \<times> nat) list \<Rightarrow> nat \<Rightarrow> bool" where
  "covered cs k \<longleftrightarrow> (\<exists>(i, l) \<in> set cs. i \<le> k \<and> k < i + l)"

lemma write_chunks_view:
  assumes "\<forall>(i, l) \<in> set cs. i + l \<le> length m" and "length m \<le> QUIC_CRYPTO_REASSEMBLY_CAP"
    and "reassembly_ok r" and "\<forall>k b. reassembly_view r k = Some b \<longrightarrow> k < length m \<and> b = m ! k"
  shows "\<exists>r'. write_chunks m cs r = (Inr (), r') \<and> reassembly_ok r' \<and>
     (\<forall>k. reassembly_view r' k = (if covered cs k then Some (m ! k) else reassembly_view r k))"
  using assms
proof (induction cs arbitrary: r)
  case (Cons c cs)
  obtain i l where c: "c = (i, l)" by (cases c)
  let ?d = "sub_list i (i + l) m"
  have il: "i + l \<le> length m" using Cons.prems(1) by (simp add: c)
  then have len: "length ?d = l" by simp
  obtain res r1 where w: "reassembly_write i ?d r = (res, r1)" by fastforce
  from reassembly_write_spec [OF Cons.prems(3) w] il Cons.prems(2) len
  have r1: "res = Inr ()" "reassembly_ok r1"
      "reassembly_view r1 = (\<lambda>k. if i \<le> k \<and> k < i + l then Some (?d ! (k - i)) else reassembly_view r k)"
    by auto
  have d: "?d ! (k - i) = m ! k" if "i \<le> k" "k < i + l" for k
    using that il by simp
  have view: "reassembly_view r1 k = (if i \<le> k \<and> k < i + l then Some (m ! k) else reassembly_view r k)" for k
    using d by (simp add: r1(3))
  have "\<forall>k b. reassembly_view r1 k = Some b \<longrightarrow> k < length m \<and> b = m ! k"
    using Cons.prems(4) il by (auto simp: view)
  with Cons.IH [of r1] Cons.prems(1,2) r1(2)
  obtain r' where "write_chunks m cs r1 = (Inr (), r')" "reassembly_ok r'"
      "\<forall>k. reassembly_view r' k = (if covered cs k then Some (m ! k) else reassembly_view r1 k)" by auto
  then show ?case
    by (intro exI [of _ r']) (auto simp: c w r1(1) view covered_def)
qed (simp add: covered_def)

section \<open>Properties\<close>

text \<open>
  C26: A QUIC sniffing session never panics: whatever datagrams a client sends, in any number, every
  feed returns an outcome, and a name it reports is a valid lower-case hostname other than the ECH
  cover name. The only assumption on the cryptographic crates is the length of their outputs.
\<close>

theorem quic_session_never_panics:
  assumes "quic_crates_ok C"
  shows "list_all (safe outcome_name_ok) (fst (quic_session C datagrams reassembly_new))"
  using quic_session_safe [OF assms reassembly_ok_new] by blast

text \<open>
  C27: The CRYPTO stream is reassembled from its frames in whatever order they arrive, with
  duplicates and overlaps: after any chunks of a message have been written, the contiguous part is
  exactly the message up to the first byte that no chunk covers.
\<close>

theorem reassembly_any_order:
  assumes "\<forall>(i, l) \<in> set chunks. i + l \<le> length m" and "length m \<le> QUIC_CRYPTO_REASSEMBLY_CAP"
  shows "\<exists>r k. write_chunks m chunks reassembly_new = (Inr (), r) \<and> contiguous r = Inr (take k m) \<and>
     (\<forall>i < k. covered chunks i) \<and> \<not> covered chunks k \<and> k \<le> length m"
proof -
  have "reassembly_view reassembly_new k = None" for k
    by (simp add: reassembly_view_def reassembly_new_def)
  with write_chunks_view [OF assms reassembly_ok_new] obtain r where
      r: "write_chunks m chunks reassembly_new = (Inr (), r)" "reassembly_ok r"
      "\<forall>k. reassembly_view r k = (if covered chunks k then Some (m ! k) else None)"
    by auto
  from contiguous_spec [OF r(2)] obtain bs where bs: "contiguous r = Inr bs"
      "\<forall>i < length bs. reassembly_view r i = Some (bs ! i)" "reassembly_view r (length bs) = None" by blast
  let ?k = "length bs"
  have cov: "\<forall>i < ?k. covered chunks i \<and> bs ! i = m ! i" "\<not> covered chunks ?k"
    using bs r(3) by (auto split: if_splits)
  have "covered chunks i \<Longrightarrow> i < length m" for i
    using assms(1) by (force simp: covered_def)
  with cov(1) have le: "?k \<le> length m" by (metis linorder_not_le order_less_imp_le order_less_le_trans nat_neq_iff)
  have "bs = take ?k m"
    using cov(1) le by (intro nth_equalityI) auto
  with bs(1) cov le r(1) show ?thesis by metis
qed

theorem reassembly_any_order_witness:
  "\<exists>r k. write_chunks [1, 2, 3, 4] [(2, 2), (1, 2), (0, 1), (1, 1)] reassembly_new = (Inr (), r) \<and>
     contiguous r = Inr (take k [1, 2, 3, 4]) \<and> 4 \<le> k"
proof -
  let ?m = "[1, 2, 3, 4] :: bytes" and ?cs = "[(2, 2), (1, 2), (0, 1), (1, 1)] :: (nat \<times> nat) list"
  have "\<forall>(i, l) \<in> set ?cs. i + l \<le> length ?m" "length ?m \<le> QUIC_CRYPTO_REASSEMBLY_CAP"
    by (simp_all add: QUIC_CRYPTO_REASSEMBLY_CAP_def)
  from reassembly_any_order [OF this] obtain r k where
      rk: "write_chunks ?m ?cs reassembly_new = (Inr (), r)" "contiguous r = Inr (take k ?m)" "\<not> covered ?cs k"
    by blast
  from rk(3) have "4 \<le> k" by (simp add: covered_def) linarith
  with rk show ?thesis by blast
qed

text \<open>Crates that satisfy the assumption: constant keys, no encryption, decryption always fails.\<close>

definition null_crates :: quic_crates where
  "null_crates =
     \<lparr>hkdf_extract = (\<lambda>salt ikm. replicate 32 0), hkdf_from_prk = (\<lambda>prk. Some prk),
      hkdf_expand = (\<lambda>prk info n. Some (replicate n 0)), aes_encrypt_block = (\<lambda>key block. block),
      gcm_decrypt = (\<lambda>key nonce aad ct. None)\<rparr>"

theorem quic_session_never_panics_witness:
  "list_all (safe outcome_name_ok) (fst (quic_session null_crates [[0xc0, 0, 0, 0, 1], []] reassembly_new))"
proof -
  have "quic_crates_ok null_crates"
    by (simp add: quic_crates_ok_def null_crates_def)
  then show ?thesis by (rule quic_session_never_panics)
qed

section \<open>Variable-length integers\<close>

text \<open>The encoding of RFC 9000: two bits for the length, then the value in network order.\<close>

definition enc_varint :: "nat \<Rightarrow> nat \<Rightarrow> bytes" where
  "enc_varint t v = be_bytes (2 ^ t) (t * 2 ^ (8 * 2 ^ t - 2) + v)"

lemma be_bytes_Cons: "be_bytes (Suc n) x = of_nat (x div 256 ^ n mod 256) # be_bytes n x"
proof (induction n arbitrary: x)
  case (Suc n)
  have "be_bytes (Suc (Suc n)) x = be_bytes (Suc n) (x div 256) @ [of_nat (x mod 256)]" by simp
  also have "\<dots> = of_nat (x div 256 div 256 ^ n mod 256) # be_bytes n (x div 256) @ [of_nat (x mod 256)]"
    unfolding Suc.IH by simp
  also have "x div 256 div 256 ^ n = x div 256 ^ Suc n"
    by (simp add: div_mult2_eq)
  finally show ?case by simp
qed simp

lemma foldl_be: "foldl (\<lambda>value b. value * 256 + unat b) a bs = a * 256 ^ length bs + be_nat bs" for bs :: bytes
  by (induction bs rule: rev_induct) (simp_all add: algebra_simps)

lemma unat_and_63: "unat (w AND 0x3f) = unat w mod 64" for w :: byte
proof -
  have "w AND 0x3f = take_bit 6 w"
    by (simp add: take_bit_eq_mask mask_eq_exp_minus_1)
  then show ?thesis
    by (simp add: take_bit_eq_mod unat_mod_distrib)
qed

lemma quic_varint_len_tag:
  assumes "unat w div 64 = t" and "t < 4"
  shows "quic_varint_len w = 2 ^ t"
proof -
  have "unat (drop_bit 6 w) = t"
    using assms(1) by (simp add: drop_bit_eq_div unat_div_distrib)
  then have "drop_bit 6 w = of_nat t" by auto
  moreover have "t = 0 \<or> t = 1 \<or> t = 2 \<or> t = 3" using assms(2) by auto
  ultimately show ?thesis
    by (auto simp: quic_varint_len_def Let_def)
qed

text \<open>
  Reading a variable-length integer inverts its encoding in each of the four lengths, anywhere
  in a buffer, and advances the offset past it; a buffer that ends inside the integer is reported
  as an insufficient prefix.
\<close>

theorem quic_varint_roundtrip:
  assumes "t < 4" and "v < 2 ^ (8 * 2 ^ t - 2)"
  shows "quic_read_varint (pre @ enc_varint t v @ post) (length pre) = Inr (v, length pre + 2 ^ t) \<and>
     (k < 2 ^ t \<longrightarrow> quic_read_varint (pre @ take k (enc_varint t v)) (length pre) = Inl (Fail UInsufficientPrefix))"
proof -
  define n :: nat where "n = 2 ^ t - 1"
  have n: "2 ^ t = Suc n" by (simp add: n_def)
  have pow: "(2 :: nat) ^ (8 * 2 ^ t - 2) = 64 * 256 ^ n"
  proof -
    have "8 * 2 ^ t - 2 = 6 + 8 * n" by (simp add: n)
    then show ?thesis by (simp add: power_add power_mult)
  qed
  let ?x = "t * (64 * 256 ^ n) + v"
  have v: "v < 64 * 256 ^ n" using assms(2) by (simp only: pow)
  let ?f = "?x div 256 ^ n"
  have f: "?f = t * 64 + v div 256 ^ n"
  proof -
    have "?x = t * 64 * 256 ^ n + v" by simp
    then show ?thesis by (simp only: div_mult_self3 power_not_zero zero_neq_numeral not_False_eq_True)
  qed
  have vd: "v div 256 ^ n < 64" using v by (simp add: less_mult_imp_div_less)
  then have f256: "?f < 256" using assms(1) by (simp add: f)
  define w :: byte where "w = of_nat ?f"
  have uw: "unat w = t * 64 + v div 256 ^ n"
    using f256 unfolding w_def f by (simp only: unat_of_nat) simp
  have enc: "enc_varint t v = w # be_bytes n v"
  proof -
    have "?x mod 256 ^ n = v mod 256 ^ n"
      using mod_mult_self3 [of "t * 64" "256 ^ n" v] by (simp add: mult.assoc)
    then have "be_bytes n ?x = be_bytes n v"
      using be_bytes_be_nat [of "be_bytes n ?x"] be_bytes_be_nat [of "be_bytes n v"]
      by (simp add: be_nat_be_bytes)
    moreover have "enc_varint t v = be_bytes (Suc n) ?x"
      by (simp only: enc_varint_def pow) (simp only: n)
    ultimately show ?thesis
      using f256 by (simp only: be_bytes_Cons mod_less w_def)
  qed
  have len: "quic_varint_len w = 2 ^ t"
    using vd by (intro quic_varint_len_tag [OF _ assms(1)]) (simp add: uw)
  have val: "(unat (w AND 0x3f)) * 256 ^ n + v mod 256 ^ n = v"
    using vd div_mult_mod_eq [of v "256 ^ n"] by (simp add: unat_and_63 uw)
  show ?thesis
  proof (intro conjI impI)
    show "quic_read_varint (pre @ enc_varint t v @ post) (length pre) = Inr (v, length pre + 2 ^ t)"
      using val by (simp add: quic_read_varint_def enc get_idx_def len n Let_def sub_list_def foldl_be be_nat_be_bytes)
    assume k: "k < 2 ^ t"
    show "quic_read_varint (pre @ take k (enc_varint t v)) (length pre) = Inl (Fail UInsufficientPrefix)"
      using k len by (cases k) (simp_all add: quic_read_varint_def enc get_idx_def n Let_def)
  qed
qed

theorem quic_varint_roundtrip_witness:
  "quic_read_varint [9, 0x7b, 0xbd, 1] 1 = Inr (15293, 3)"
proof -
  have e: "enc_varint 1 15293 = [0x7b, 0xbd]" by (simp add: enc_varint_def be_bytes_two)
  show ?thesis
    using quic_varint_roundtrip [of 1 15293 "[9]" "[1]" 0] by (simp add: e [unfolded One_nat_def])
qed

end
