(* ===== verification/Upstream_Score.thy ===== *)
theory Upstream_Score
  imports Config_Data Socks5
begin

text \<open>
  One upstream and its scores (\<open>upstream.rs\<close>): the atomics of \<open>Upstream\<close> as the fields of a
  record, the score functions over IEEE doubles, and every operation that stores into the atomics:
  the throughput tick, probe reports, the health check, penalties and the relative rescoring. A
  \<open>u32\<close> or \<open>u64\<close> is a natural number and the wrap-around of its arithmetic is written out. An
  operation reads the clock once, as the argument \<open>now\<close>; a tracked connection is a token and a file
  descriptor, and \<open>TCP_INFO\<close> is a parameter.
\<close>

section \<open>Machine integers\<close>

definition w32 :: "nat \<Rightarrow> nat" where
  "w32 n = n mod 2 ^ 32"

definition w64 :: "nat \<Rightarrow> nat" where
  "w64 n = n mod 2 ^ 64"

definition wsub32 :: "nat \<Rightarrow> nat \<Rightarrow> nat" where
  "wsub32 a b = w32 (a + 2 ^ 32 - b)"

lemma w32_id [simp]: "n < 4294967296 \<Longrightarrow> w32 n = n"
  by (simp add: w32_def)

lemma w64_id: "n < 2 ^ 64 \<Longrightarrow> w64 n = n"
  by (simp add: w64_def)

lemma wsub32_id [simp]: "b \<le> a \<Longrightarrow> a < 4294967296 \<Longrightarrow> wsub32 a b = a - b"
  by (simp add: wsub32_def w32_def mod_if)

section \<open>State\<close>

definition DEFAULT_SCORE :: nat where "DEFAULT_SCORE = 75"
definition DEFAULT_QUIC_STALE_SECS :: nat where "DEFAULT_QUIC_STALE_SECS = 180"
definition MINIMAL_SCORE :: nat where "MINIMAL_SCORE = 10"

record Upstream =
  up_id :: rstr
  up_addr :: SocketAddr
  up_groups :: "rstr list"
  up_gain :: f64
  up_registry :: "(nat \<times> nat) list"
  up_tcp_score :: nat
  up_tcp_score_initialized :: bool
  up_last_total_recv :: nat
  up_last_total_sent :: nat
  up_last_check_secs :: nat
  up_tcp_info_initialized :: bool
  up_health_failures :: nat
  up_quic_uplink_score :: nat
  up_quic_downlink_score :: nat
  up_quic_uplink_last_update_secs :: nat
  up_quic_downlink_last_update_secs :: nat
  up_quic_weight :: nat
  up_quic_stale_secs :: nat
  up_throughput_rate_mibs :: f64
  up_throughput_updated_secs :: nat
  up_probe_quality :: f64
  up_probe_quality_updated_secs :: nat

definition upstream_new :: "rstr \<Rightarrow> SocketAddr \<Rightarrow> rstr list \<Rightarrow> f64 \<Rightarrow> Upstream" where
  "upstream_new i addr grps gain =
     \<lparr>up_id = i, up_addr = addr, up_groups = grps, up_gain = gain, up_registry = [],
      up_tcp_score = DEFAULT_SCORE, up_tcp_score_initialized = False,
      up_last_total_recv = 0, up_last_total_sent = 0, up_last_check_secs = 0,
      up_tcp_info_initialized = False, up_health_failures = 0,
      up_quic_uplink_score = DEFAULT_SCORE, up_quic_downlink_score = DEFAULT_SCORE,
      up_quic_uplink_last_update_secs = 0, up_quic_downlink_last_update_secs = 0,
      up_quic_weight = 40, up_quic_stale_secs = DEFAULT_QUIC_STALE_SECS,
      up_throughput_rate_mibs = Fin 0, up_throughput_updated_secs = 0,
      up_probe_quality = Fin 0, up_probe_quality_updated_secs = 0\<rparr>"

definition set_quic_weight :: "nat \<Rightarrow> Upstream \<Rightarrow> Upstream" where
  "set_quic_weight w up = up\<lparr>up_quic_weight := min w 100\<rparr>"

definition set_quic_stale_secs :: "nat \<Rightarrow> Upstream \<Rightarrow> Upstream" where
  "set_quic_stale_secs secs up = up\<lparr>up_quic_stale_secs := max secs 1\<rparr>"

definition track :: "nat \<Rightarrow> nat \<Rightarrow> Upstream \<Rightarrow> Upstream" where
  "track token fd up = up\<lparr>up_registry := up_registry up @ [(token, fd)]\<rparr>"

section \<open>Scores from measurements\<close>

text \<open>A duration: seconds and nanoseconds.\<close>

definition as_secs_f64 :: "nat \<times> nat \<Rightarrow> f64" where
  "as_secs_f64 d = f64_add (f64_of_nat (fst d)) (f64_div (f64_of_nat (snd d)) (Fin 1000000000))"

definition throughput_steps :: "f64 \<Rightarrow> nat" where
  "throughput_steps mib_per_sec =
     (if f64_le (Fin 50) mib_per_sec then 1000
      else if f64_le (Fin 10) mib_per_sec
      then w32 (800 + f64_as_u32 (f64_mul (f64_div (f64_sub mib_per_sec (Fin 10)) (Fin 40)) (Fin 200)))
      else if f64_le (Fin 5) mib_per_sec
      then w32 (600 + f64_as_u32 (f64_mul (f64_div (f64_sub mib_per_sec (Fin 5)) (Fin 5)) (Fin 200)))
      else if f64_le (Fin 1) mib_per_sec
      then w32 (300 + f64_as_u32 (f64_mul (f64_div (f64_sub mib_per_sec (Fin 1)) (Fin 4)) (Fin 300)))
      else if f64_le (f64_lit (1 / 10)) mib_per_sec
      then w32 (100 + f64_as_u32 (f64_mul (f64_div (f64_sub mib_per_sec (f64_lit (1 / 10))) (f64_lit (9 / 10))) (Fin 200)))
      else f64_as_u32 (f64_mul (f64_div mib_per_sec (f64_lit (1 / 10))) (Fin 100)))"

definition calc_throughput_score :: "nat \<Rightarrow> nat \<times> nat \<Rightarrow> nat option" where
  "calc_throughput_score total_bytes duration =
     (if total_bytes < 1024 * 16 then None
      else let secs = as_secs_f64 duration in
      if f64_le secs (Fin 0) then None
      else let bps = f64_div (f64_of_nat total_bytes) secs;
               mib_per_sec = f64_div (f64_div bps (Fin 1024)) (Fin 1024)
           in Some (min (throughput_steps mib_per_sec) 1000))"

definition loss_penalty :: "nat \<Rightarrow> nat" where
  "loss_penalty loss =
     (if loss = 0 then 0 else if loss \<le> 2 then 60 else if loss \<le> 5 then 200
      else if loss \<le> 10 then 500 else if loss \<le> 20 then 750 else 900)"

definition rtt_penalty :: "nat \<Rightarrow> nat" where
  "rtt_penalty rtt =
     (if rtt \<le> 80 then 0 else if rtt \<le> 150 then 40 else if rtt \<le> 250 then 100
      else if rtt \<le> 400 then 180 else 300)"

definition mtu_penalty :: "nat \<Rightarrow> nat" where
  "mtu_penalty mtu =
     (if 1400 \<le> mtu then 0 else if 1300 \<le> mtu then 60 else if 1280 \<le> mtu then 120
      else if 1200 \<le> mtu then 250 else 450)"

definition calc_quic_score :: "f64 \<Rightarrow> f64 \<Rightarrow> u16 \<Rightarrow> nat option" where
  "calc_quic_score rtt_ms loss_rate mtu =
     (if \<not> f64_is_finite rtt_ms \<or> f64_less rtt_ms (Fin 0) \<or> \<not> f64_is_finite loss_rate \<or> f64_less loss_rate (Fin 0)
      then None
      else Some (max (1000 - loss_penalty (f64_as_u32 (f64_round (f64_mul loss_rate (Fin 100))))
                       - rtt_penalty (f64_as_u32 rtt_ms) - mtu_penalty (unat mtu)) 50))"

definition probe_quality :: "(f64 \<Rightarrow> f64) \<Rightarrow> f64 \<Rightarrow> f64 \<Rightarrow> u16 \<Rightarrow> f64 option" where
  "probe_quality exp_f64 rtt_ms loss_rate mtu =
     (if \<not> f64_is_finite rtt_ms \<or> f64_less rtt_ms (Fin 0) \<or> \<not> f64_is_finite loss_rate \<or>
         \<not> (f64_le (Fin 0) loss_rate \<and> f64_le loss_rate (Fin 1))
      then None
      else
        let rtt_q = f64_div (Fin 1) (f64_add (Fin 1) (f64_div rtt_ms (Fin 50)));
            loss_q = exp_f64 (f64_mul (f64_neg loss_rate) (Fin 10));
            mtu_q = f64_div (f64_of_nat (min (unat mtu) 1400)) (Fin 1400)
        in Some (f64_clamp (f64_mul (f64_mul rtt_q loss_q) mtu_q) (Fin 0) (Fin 1)))"

definition relative_score :: "f64 \<Rightarrow> f64 \<Rightarrow> nat" where
  "relative_score val mx =
     (if f64_le mx (Fin 0) \<or> f64_le val (Fin 0) then 0
      else f64_as_u32 (f64_clamp (f64_mul (f64_div val mx) (Fin 1000)) (Fin 0) (Fin 1000)))"

section \<open>The score of an upstream\<close>

definition quic_decay :: "nat \<Rightarrow> nat \<Rightarrow> nat \<Rightarrow> nat \<Rightarrow> nat option" where
  "quic_decay now stale_secs score last_update_secs =
     (if last_update_secs = 0 then None
      else
        let elapsed = now - last_update_secs in
        if stale_secs \<le> elapsed then Some MINIMAL_SCORE
        else
          let factor = f64_div (f64_of_nat (stale_secs - elapsed)) (f64_of_nat stale_secs);
              decayed = f64_as_u32 (f64_mul (f64_of_nat score) factor)
          in Some (max decayed MINIMAL_SCORE))"

definition quic_score_effective_at :: "Upstream \<Rightarrow> nat \<Rightarrow> nat" where
  "quic_score_effective_at up now =
     (case (quic_decay now (up_quic_stale_secs up) (up_quic_uplink_score up) (up_quic_uplink_last_update_secs up),
            quic_decay now (up_quic_stale_secs up) (up_quic_downlink_score up) (up_quic_downlink_last_update_secs up)) of
        (Some u, Some d) \<Rightarrow> w32 (u + d) div 2
      | (Some u, None) \<Rightarrow> u
      | (None, Some d) \<Rightarrow> d
      | (None, None) \<Rightarrow> DEFAULT_SCORE)"

definition score_at :: "Upstream \<Rightarrow> nat \<Rightarrow> nat" where
  "score_at up now =
     (let tcp = up_tcp_score up;
          quic = quic_score_effective_at up now;
          tcp_valid = up_tcp_score_initialized up;
          quic_valid = (0 < up_quic_uplink_last_update_secs up \<or> 0 < up_quic_downlink_last_update_secs up);
          qw = up_quic_weight up;
          tw = wsub32 100 qw
      in if tcp_valid \<and> quic_valid then w32 (w32 (tcp * tw) + w32 (quic * qw)) div 100
         else if quic_valid then quic
         else if tcp_valid then tcp
         else DEFAULT_SCORE)"

definition effective_score_at :: "Upstream \<Rightarrow> nat \<Rightarrow> nat" where
  "effective_score_at up now =
     f64_as_u64 (f64_clamp (f64_mul (f64_of_nat (score_at up now)) (up_gain up)) (Fin 1) (Fin 10000000))"

section \<open>Operations\<close>

text \<open>
  The reports come from one task, so the compare-and-exchange of the last update always finds the
  value it has just read.
\<close>

definition update_link_score :: "nat option \<Rightarrow> nat \<Rightarrow> nat \<times> nat \<Rightarrow> nat \<times> nat" where
  "update_link_score raw now sl =
     (case raw of
        None \<Rightarrow> sl
      | Some r \<Rightarrow>
          (case sl of (score, last_update) \<Rightarrow>
             if now - last_update < 5 then sl
             else (w32 (w32 (score * 3) + w32 (min r 1000 * 7)) div 10, now)))"

definition update_uplink_score :: "nat option \<Rightarrow> nat \<Rightarrow> Upstream \<Rightarrow> Upstream" where
  "update_uplink_score raw now up =
     (case update_link_score raw now (up_quic_uplink_score up, up_quic_uplink_last_update_secs up) of
        (s, l) \<Rightarrow> up\<lparr>up_quic_uplink_score := s, up_quic_uplink_last_update_secs := l\<rparr>)"

definition update_downlink_score :: "nat option \<Rightarrow> nat \<Rightarrow> Upstream \<Rightarrow> Upstream" where
  "update_downlink_score raw now up =
     (case update_link_score raw now (up_quic_downlink_score up, up_quic_downlink_last_update_secs up) of
        (s, l) \<Rightarrow> up\<lparr>up_quic_downlink_score := s, up_quic_downlink_last_update_secs := l\<rparr>)"

definition set_probe_quality :: "f64 \<Rightarrow> rstr option \<Rightarrow> nat \<Rightarrow> Upstream \<Rightarrow> Upstream" where
  "set_probe_quality q link now up =
     (let up = up\<lparr>up_probe_quality := q\<rparr>;
          up = (if link = Some ''downlink'' then up\<lparr>up_quic_downlink_last_update_secs := now\<rparr>
                else up\<lparr>up_quic_uplink_last_update_secs := now\<rparr>)
      in up\<lparr>up_probe_quality_updated_secs := now\<rparr>)"

definition penalize :: "nat \<Rightarrow> Upstream \<Rightarrow> Upstream" where
  "penalize now up =
     up\<lparr>up_tcp_score := DEFAULT_SCORE, up_tcp_score_initialized := True,
        up_quic_uplink_score := DEFAULT_SCORE, up_quic_downlink_score := DEFAULT_SCORE,
        up_quic_uplink_last_update_secs := now, up_quic_downlink_last_update_secs := now\<rparr>"

text \<open>
  One tick of \<open>run_score_task\<close>: \<open>live\<close> tells which tokens are still held, \<open>tcp_info\<close> gives the
  received and acknowledged bytes of a descriptor.
\<close>

fun sum_tcp_info :: "(nat \<Rightarrow> (nat \<times> nat) option) \<Rightarrow> (nat \<times> nat) list \<Rightarrow> nat \<times> nat \<times> nat \<Rightarrow> nat \<times> nat \<times> nat" where
  "sum_tcp_info tcp_info [] acc = acc"
| "sum_tcp_info tcp_info ((token, fd) # es) (r, s, n) =
     (case tcp_info fd of
        Some (recv, acked) \<Rightarrow> sum_tcp_info tcp_info es (w64 (r + recv), w64 (s + acked), n + 1)
      | None \<Rightarrow> sum_tcp_info tcp_info es (r, s, n))"

definition store_throughput :: "bool \<Rightarrow> nat \<Rightarrow> nat \<Rightarrow> nat \<Rightarrow> Upstream \<Rightarrow> Upstream" where
  "store_throughput relative_mode now delta_bytes delta_secs up =
     (if delta_bytes < 1024 * 16 then up
      else if relative_mode then
        let mib_per_sec = f64_div (f64_div (f64_div (f64_of_nat delta_bytes) (Fin 1024)) (Fin 1024)) (f64_of_nat delta_secs);
            old_rate = up_throughput_rate_mibs up;
            new_rate = (if old_rate = Fin 0 then mib_per_sec
                        else f64_add (f64_mul old_rate (Fin (1 / 2))) (f64_mul mib_per_sec (Fin (1 / 2))))
        in up\<lparr>up_throughput_rate_mibs := new_rate, up_throughput_updated_secs := now\<rparr>
      else
        case calc_throughput_score delta_bytes (delta_secs, 0) of
          None \<Rightarrow> up
        | Some raw \<Rightarrow>
            up\<lparr>up_tcp_score := w32 (w32 (up_tcp_score up * 5) + w32 (raw * 5)) div 10,
               up_tcp_score_initialized := True\<rparr>)"

definition score_tick ::
  "bool \<Rightarrow> (nat \<Rightarrow> bool) \<Rightarrow> (nat \<Rightarrow> (nat \<times> nat) option) \<Rightarrow> nat \<Rightarrow> Upstream \<Rightarrow> Upstream" where
  "score_tick relative_mode live tcp_info now up =
     (let entries = filter (\<lambda>(token, fd). live token) (up_registry up);
          up = up\<lparr>up_registry := entries\<rparr>
      in case sum_tcp_info tcp_info entries (0, 0, 0) of
           (recv, sent, alive) \<Rightarrow>
             if alive = 0 then up
             else
               let prev_recv = up_last_total_recv up;
                   prev_sent = up_last_total_sent up;
                   prev_secs = up_last_check_secs up;
                   initialized = up_tcp_info_initialized up;
                   up = up\<lparr>up_last_total_recv := recv, up_last_total_sent := sent,
                           up_last_check_secs := now, up_tcp_info_initialized := True\<rparr>
               in if \<not> initialized then up
                  else store_throughput relative_mode now (w64 ((recv - prev_recv) + (sent - prev_sent)))
                         (max (now - prev_secs) 1) up)"

section \<open>Health check\<close>

text \<open>
  \<open>connect_timeout\<close> is whether the first timeout fires, \<open>first_read\<close> what one read of at most 1024
  bytes gives on the connected stream: nothing when it fails or times out.
\<close>

definition check_upstream_health ::
  "(SocketAddr \<Rightarrow> TcpStream option) \<Rightarrow> bool \<Rightarrow> (TcpStream \<Rightarrow> bytes option) \<Rightarrow> SocketAddr \<Rightarrow>
   (rstr \<times> rstr) option \<Rightarrow> rstr \<Rightarrow> bool" where
  "check_upstream_health connect_tcp_stream connect_timeout first_read addr creds check_url =
     (if connect_timeout then False
      else case socks5_connect connect_tcp_stream (TDomain check_url 80) addr creds of
        Inl _ \<Rightarrow> False
      | Inr stream \<Rightarrow>
          (case write_all (as_bytes (''HEAD / HTTP/1.1'' @ [CHR 0x0D, CHR 0x0A] @ ''Host: '' @ check_url @
                  [CHR 0x0D, CHR 0x0A] @ ''Connection: close'' @ [CHR 0x0D, CHR 0x0A, CHR 0x0D, CHR 0x0A])) stream of
             (Inl _, _) \<Rightarrow> False
           | (Inr _, stream') \<Rightarrow>
               (case first_read stream' of
                  None \<Rightarrow> False
                | Some buf \<Rightarrow> 8 \<le> length buf \<and> find_window (as_bytes ''HTTP/1.1'') buf \<noteq> None)))"

definition health_check_step :: "nat \<Rightarrow> bool \<Rightarrow> nat \<Rightarrow> Upstream \<Rightarrow> Upstream" where
  "health_check_step fail_threshold alive now up =
     (if alive then
        let failures = up_health_failures up; up = up\<lparr>up_health_failures := 0\<rparr>
        in if fail_threshold \<le> failures
           then up\<lparr>up_tcp_score := 300, up_tcp_score_initialized := True\<rparr>
           else up
      else
        let f = w32 (up_health_failures up + 1); up = up\<lparr>up_health_failures := f\<rparr>
        in if f = fail_threshold then penalize now up else up)"

section \<open>Probe reports\<close>

record ShadowQuicReport =
  sq_upstream_id :: rstr
  sq_peer :: rstr
  sq_rtt_ms :: f64
  sq_loss_rate :: f64
  sq_mtu :: u16
  sq_link :: "rstr option"

definition apply_report :: "(f64 \<Rightarrow> f64) \<Rightarrow> bool \<Rightarrow> ShadowQuicReport \<Rightarrow> nat \<Rightarrow> Upstream \<Rightarrow> Upstream" where
  "apply_report exp_f64 enable_relative_scoring rep now up =
     (if enable_relative_scoring then
        (case probe_quality exp_f64 (sq_rtt_ms rep) (sq_loss_rate rep) (sq_mtu rep) of
           Some q \<Rightarrow> set_probe_quality q (sq_link rep) now up
         | None \<Rightarrow> up)
      else
        let score = calc_quic_score (sq_rtt_ms rep) (sq_loss_rate rep) (sq_mtu rep)
        in if sq_link rep = Some ''downlink'' then update_downlink_score score now up
           else update_uplink_score score now up)"

section \<open>Relative rescoring\<close>

record Snap =
  sn_rate :: f64
  sn_has_rate :: bool
  sn_q :: f64
  sn_has_q :: bool

definition take_snap :: "nat \<Rightarrow> nat \<Rightarrow> Upstream \<Rightarrow> Snap" where
  "take_snap stale_secs now up =
     (let rate_last = up_throughput_updated_secs up;
          has_rate = (0 < rate_last \<and> now - rate_last < stale_secs);
          q_last = up_probe_quality_updated_secs up;
          has_q = (0 < q_last \<and> now - q_last < stale_secs)
      in \<lparr>sn_rate = (if has_rate then up_throughput_rate_mibs up else Fin 0), sn_has_rate = has_rate,
          sn_q = (if has_q then up_probe_quality up else Fin 0), sn_has_q = has_q\<rparr>)"

definition max_over :: "(Snap \<Rightarrow> bool) \<Rightarrow> (Snap \<Rightarrow> f64) \<Rightarrow> Snap list \<Rightarrow> f64" where
  "max_over has val snaps = fold (\<lambda>sn m. if has sn then f64_max m (val sn) else m) snaps (Fin 0)"

definition next_ema :: "f64 \<Rightarrow> f64 \<Rightarrow> f64" where
  "next_ema ema mx =
     (if f64_less (Fin 0) mx
      then if ema = Fin 0 then mx else f64_add (f64_mul ema (f64_lit (9 / 10))) (f64_mul mx (f64_lit (1 / 10)))
      else ema)"

definition store_relative :: "f64 \<Rightarrow> f64 \<Rightarrow> Snap \<Rightarrow> Upstream \<Rightarrow> Upstream" where
  "store_relative max_rate_ema max_q_ema snap up =
     (let up = (if f64_less (Fin 0) max_q_ema \<and> sn_has_q snap
                then let rel_quic = relative_score (sn_q snap) max_q_ema
                     in up\<lparr>up_quic_uplink_score := rel_quic, up_quic_downlink_score := rel_quic\<rparr>
                else up)
      in if sn_has_rate snap \<and> f64_less (Fin 0) max_rate_ema
         then up\<lparr>up_tcp_score := w32 (up_tcp_score up + relative_score (sn_rate snap) max_rate_ema) div 2,
                 up_tcp_score_initialized := True\<rparr>
         else if \<not> up_tcp_score_initialized up \<and> f64_less (Fin 0) max_q_ema
         then up\<lparr>up_tcp_score := (if sn_has_q snap then relative_score (sn_q snap) max_q_ema
                                   else relative_score (f64_mul max_q_ema (Fin (1 / 2))) max_q_ema),
                 up_tcp_score_initialized := True\<rparr>
         else up)"

definition relative_tick ::
  "nat \<Rightarrow> nat \<Rightarrow> f64 \<times> f64 \<Rightarrow> Upstream list \<Rightarrow> (f64 \<times> f64) \<times> Upstream list" where
  "relative_tick stale_secs now emas ups =
     (let snaps = List.map (take_snap stale_secs now) ups;
          max_rate_ema = next_ema (fst emas) (max_over sn_has_rate sn_rate snaps);
          max_q_ema = next_ema (snd emas) (max_over sn_has_q sn_q snaps)
      in ((max_rate_ema, max_q_ema),
          map2 (store_relative max_rate_ema max_q_ema) snaps ups))"

section \<open>Reachable upstreams\<close>

definition upstream_ok :: "Upstream \<Rightarrow> bool" where
  "upstream_ok up \<longleftrightarrow>
     up_tcp_score up \<le> 1000 \<and> up_quic_uplink_score up \<le> 1000 \<and> up_quic_downlink_score up \<le> 1000 \<and>
     up_quic_weight up \<le> 100 \<and> 1 \<le> up_quic_stale_secs up \<and> up_quic_stale_secs up < 2 ^ 64"

text \<open>Whatever the tasks of the process do to one upstream, in any order and at any time.\<close>

inductive upstream_step :: "Upstream \<Rightarrow> Upstream \<Rightarrow> bool" where
  weight: "upstream_step up (set_quic_weight w up)"
| stale: "secs < 2 ^ 64 \<Longrightarrow> upstream_step up (set_quic_stale_secs secs up)"
| track: "upstream_step up (track token fd up)"
| tick: "upstream_step up (score_tick relative_mode live tcp_info now up)"
| report: "upstream_step up (apply_report exp_f64 relative rep now up)"
| health: "upstream_step up (health_check_step fail_threshold alive now up)"
| penalty: "upstream_step up (penalize now up)"
| relative: "upstream_step up (store_relative max_rate_ema max_q_ema snap up)"

inductive upstream_reachable :: "Upstream \<Rightarrow> Upstream \<Rightarrow> bool" for up0 where
  start: "upstream_reachable up0 up0"
| step: "upstream_reachable up0 up \<Longrightarrow> upstream_step up up' \<Longrightarrow> upstream_reachable up0 up'"

inductive_cases upstream_stepE: "upstream_step up up'"

lemma upstream_ok_new [simp]: "upstream_ok (upstream_new i addr grps gain)"
  by (simp add: upstream_ok_def upstream_new_def DEFAULT_SCORE_def DEFAULT_QUIC_STALE_SECS_def)

lemma f64_clamp_le: "f64_le lo hi \<Longrightarrow> f64_clamp x lo hi \<noteq> NaN \<Longrightarrow> f64_le (f64_clamp x lo hi) hi"
  by (cases x; cases lo; cases hi) (auto simp: f64_clamp_def split: if_splits)

lemma relative_score_le: "relative_score v m \<le> 1000"
proof (cases "f64_clamp (f64_mul (f64_div v m) (Fin 1000)) (Fin 0) (Fin 1000) = NaN")
  case False
  then have "f64_le (f64_clamp (f64_mul (f64_div v m) (Fin 1000)) (Fin 0) (Fin 1000)) (Fin 1000)"
    by (intro f64_clamp_le) simp_all
  then show ?thesis
    using f64_as_nat_le_int [of _ 1000 "2 ^ 32 - 1"] by (simp add: relative_score_def f64_as_u32_def)
qed (simp add: relative_score_def f64_as_u32_def f64_as_nat_def)

lemma calc_throughput_score_le: "calc_throughput_score b d = Some s \<Longrightarrow> s \<le> 1000"
  by (auto simp: calc_throughput_score_def Let_def split: if_splits)

lemma calc_quic_score_range: "calc_quic_score rtt loss mtu = Some s \<Longrightarrow> 50 \<le> s \<and> s \<le> 1000"
  by (auto simp: calc_quic_score_def Let_def split: if_splits)

lemma update_link_score_le: "fst sl \<le> 1000 \<Longrightarrow> fst (update_link_score raw now sl) \<le> 1000"
  by (auto simp: update_link_score_def split: option.splits prod.splits)

lemma upstream_ok_update_uplink: "upstream_ok up \<Longrightarrow> upstream_ok (update_uplink_score raw now up)"
  using update_link_score_le [of "(up_quic_uplink_score up, up_quic_uplink_last_update_secs up)" raw now]
  by (auto simp: update_uplink_score_def upstream_ok_def split: prod.splits)

lemma upstream_ok_update_downlink: "upstream_ok up \<Longrightarrow> upstream_ok (update_downlink_score raw now up)"
  using update_link_score_le [of "(up_quic_downlink_score up, up_quic_downlink_last_update_secs up)" raw now]
  by (auto simp: update_downlink_score_def upstream_ok_def split: prod.splits)

lemma upstream_ok_frame [simp]:
  "upstream_ok (up\<lparr>up_registry := x1\<rparr>) = upstream_ok up"
  "upstream_ok (up\<lparr>up_last_total_recv := x2\<rparr>) = upstream_ok up"
  "upstream_ok (up\<lparr>up_last_total_sent := x3\<rparr>) = upstream_ok up"
  "upstream_ok (up\<lparr>up_last_check_secs := x4\<rparr>) = upstream_ok up"
  "upstream_ok (up\<lparr>up_tcp_info_initialized := x5\<rparr>) = upstream_ok up"
  "upstream_ok (up\<lparr>up_health_failures := x6\<rparr>) = upstream_ok up"
  "upstream_ok (up\<lparr>up_tcp_score_initialized := x7\<rparr>) = upstream_ok up"
  "upstream_ok (up\<lparr>up_quic_uplink_last_update_secs := x8\<rparr>) = upstream_ok up"
  "upstream_ok (up\<lparr>up_quic_downlink_last_update_secs := x9\<rparr>) = upstream_ok up"
  "upstream_ok (up\<lparr>up_throughput_rate_mibs := x10\<rparr>) = upstream_ok up"
  "upstream_ok (up\<lparr>up_throughput_updated_secs := x11\<rparr>) = upstream_ok up"
  "upstream_ok (up\<lparr>up_probe_quality := x12\<rparr>) = upstream_ok up"
  "upstream_ok (up\<lparr>up_probe_quality_updated_secs := x13\<rparr>) = upstream_ok up"
  by (simp_all add: upstream_ok_def)

lemma upstream_ok_tcp_score: "upstream_ok up \<Longrightarrow> s \<le> 1000 \<Longrightarrow> upstream_ok (up\<lparr>up_tcp_score := s\<rparr>)"
  by (simp add: upstream_ok_def)

lemma upstream_ok_quic_scores:
  "upstream_ok up \<Longrightarrow> s \<le> 1000 \<Longrightarrow> d \<le> 1000 \<Longrightarrow>
   upstream_ok (up\<lparr>up_quic_uplink_score := s, up_quic_downlink_score := d\<rparr>)"
  by (simp add: upstream_ok_def)

lemma tcp_score_le [simp]: "upstream_ok up \<Longrightarrow> up_tcp_score up \<le> 1000"
  by (simp add: upstream_ok_def)

lemma upstream_ok_store_throughput: "upstream_ok up \<Longrightarrow> upstream_ok (store_throughput rel now b s up)"
proof (cases "calc_throughput_score b (s, 0)")
  case (Some raw)
  assume ok: "upstream_ok up"
  from calc_throughput_score_le [OF Some] tcp_score_le [OF ok]
  have "w32 (w32 (up_tcp_score up * 5) + w32 (raw * 5)) div 10 \<le> 1000" by simp
  then show ?thesis using ok Some by (simp add: store_throughput_def Let_def upstream_ok_tcp_score)
qed (simp add: store_throughput_def Let_def)

lemma upstream_ok_score_tick: "upstream_ok up \<Longrightarrow> upstream_ok (score_tick rel live tcp_info now up)"
  by (cases "sum_tcp_info tcp_info (filter (\<lambda>(token, fd). live token) (up_registry up)) (0, 0, 0)")
    (simp add: score_tick_def Let_def upstream_ok_store_throughput)

lemma upstream_ok_report: "upstream_ok up \<Longrightarrow> upstream_ok (apply_report e rel rep now up)"
  by (simp add: apply_report_def Let_def set_probe_quality_def upstream_ok_update_uplink
      upstream_ok_update_downlink split: option.split)

lemma upstream_ok_store_relative:
  assumes "upstream_ok up"
  shows "upstream_ok (store_relative mr mq snap up)"
proof -
  define u where "u = (if f64_less (Fin 0) mq \<and> sn_has_q snap
     then up\<lparr>up_quic_uplink_score := relative_score (sn_q snap) mq, up_quic_downlink_score := relative_score (sn_q snap) mq\<rparr>
     else up)"
  have u: "upstream_ok u" using assms by (simp add: u_def upstream_ok_quic_scores relative_score_le)
  have "w32 (up_tcp_score u + relative_score (sn_rate snap) mr) div 2 \<le> 1000"
    using tcp_score_le [OF u] relative_score_le [of "sn_rate snap" mr] by simp
  then show ?thesis
    using u unfolding store_relative_def Let_def u_def [symmetric]
    by (simp add: upstream_ok_tcp_score relative_score_le)
qed

lemma upstream_ok_penalize: "upstream_ok up \<Longrightarrow> upstream_ok (penalize now up)"
  by (simp add: penalize_def upstream_ok_def DEFAULT_SCORE_def)

lemma upstream_ok_health: "upstream_ok up \<Longrightarrow> upstream_ok (health_check_step th alive now up)"
  by (simp add: health_check_step_def Let_def upstream_ok_tcp_score upstream_ok_penalize)

lemma upstream_step_ok: "upstream_step up up' \<Longrightarrow> upstream_ok up \<Longrightarrow> upstream_ok up'"
  by (erule upstream_stepE)
    (simp_all add: upstream_ok_score_tick upstream_ok_report upstream_ok_store_relative
       upstream_ok_health upstream_ok_penalize track_def,
     simp_all add: upstream_ok_def set_quic_weight_def set_quic_stale_secs_def)

lemma upstream_reachable_ok: "upstream_reachable up0 up \<Longrightarrow> upstream_ok up0 \<Longrightarrow> upstream_ok up"
  by (induction rule: upstream_reachable.induct) (auto intro: upstream_step_ok)

section \<open>Decay of probe scores\<close>

lemma rnd64_finite:
  assumes "1 \<le> x" and "x < 2 ^ 66"
  obtains r where "rnd64 x = Fin r" and "1 \<le> r" and "r \<le> 2 * x"
proof -
  define big :: rat where "big = 2 ^ 1024"
  have "(2 :: rat) ^ 67 \<le> big" unfolding big_def by (rule power_increasing) simp_all
  moreover have "1 \<le> rnd_rat x" using rnd_rat_ge_int [of 1 x] assms(1) by simp
  moreover have "rnd_rat x \<le> 2 * x" using rnd_rat_nearest [of x 0] assms(1) by simp
  ultimately show ?thesis
    using that assms unfolding rnd64_def Let_def big_def [symmetric] by auto
qed

lemma f64_of_nat_finite:
  assumes "n < 2 ^ 64" and "1 \<le> n"
  shows "\<exists>r. f64_of_nat n = Fin r \<and> 1 \<le> r \<and> r < 2 ^ 65"
proof -
  have "(of_nat n :: rat) < 2 ^ 64" using assms(1) by (metis of_nat_less_iff of_nat_numeral of_nat_power)
  with rnd64_finite [of "of_nat n"] assms(2) show ?thesis unfolding f64_of_nat_def by fastforce
qed

definition decay_factor :: "nat \<Rightarrow> nat \<Rightarrow> f64" where
  "decay_factor stale_secs elapsed = f64_div (f64_of_nat (stale_secs - elapsed)) (f64_of_nat stale_secs)"

lemma decay_factor_range:
  assumes "elapsed < stale" and "stale < 2 ^ 64"
  obtains r where "decay_factor stale elapsed = Fin r" and "0 \<le> r" and "r \<le> 1"
proof -
  have "stale - elapsed < 2 ^ 64" "1 \<le> stale - elapsed" using assms by simp_all
  then obtain a where a: "f64_of_nat (stale - elapsed) = Fin a" "1 \<le> a"
    using f64_of_nat_finite by blast
  obtain b where b: "f64_of_nat stale = Fin b" "1 \<le> b"
    using assms f64_of_nat_finite [of stale] by auto
  have "a \<le> b" using f64_of_nat_mono [of "stale - elapsed" stale] a b by simp
  then obtain r where "rnd64 (a / b) = Fin r" "0 \<le> r" "r \<le> 1"
    using rnd64_between [of 0 "a / b" 1] a b by auto
  then show ?thesis using that a b by (simp add: decay_factor_def f64_div_def)
qed

lemma decay_factor_antimono:
  assumes "e1 \<le> e2" and "e2 < stale" and "stale < 2 ^ 64"
  shows "f64_le (decay_factor stale e2) (decay_factor stale e1)"
proof -
  obtain b where b: "f64_of_nat stale = Fin b" "1 \<le> b"
    using assms f64_of_nat_finite [of stale] by auto
  then show ?thesis
    unfolding decay_factor_def b(1) using assms by (intro f64_div_mono f64_of_nat_mono) auto
qed

lemma quic_decay_range:
  assumes "quic_decay now stale score lst = Some s" and "score \<le> 1000" and "stale < 2 ^ 64"
  shows "MINIMAL_SCORE \<le> s \<and> s \<le> 1000"
proof (cases "stale \<le> now - lst")
  case False
  then obtain r where r: "decay_factor stale (now - lst) = Fin r" "0 \<le> r" "r \<le> 1"
    using assms(3) by (elim decay_factor_range [of "now - lst" stale, rotated 2]) auto
  have sc: "f64_of_nat score = Fin (of_nat score)" using assms(2) by (intro f64_of_nat_exact) simp
  have "of_nat score * r \<le> of_nat score" using r by (simp add: mult_left_le)
  then have "f64_le (f64_mul (f64_of_nat score) (Fin r)) (Fin (of_nat score))"
    using rnd64_between [of 0 "of_nat score * r" "int score"] r assms(2)
    by (auto simp: sc f64_mul_def)
  then have "f64_as_u32 (f64_mul (f64_of_nat score) (Fin r)) \<le> score"
    unfolding f64_as_u32_def by (rule f64_as_nat_le_int)
  then show ?thesis
    using assms False r
    by (auto simp: quic_decay_def Let_def decay_factor_def MINIMAL_SCORE_def split: if_splits)
qed (use assms in \<open>auto simp: quic_decay_def MINIMAL_SCORE_def split: if_splits\<close>)

lemma quic_decay_stale: "0 < lst \<Longrightarrow> lst + stale \<le> now \<Longrightarrow> quic_decay now stale score lst = Some MINIMAL_SCORE"
  using le_diff_conv2 [of lst now stale] by (simp add: quic_decay_def Let_def add.commute)

lemma quic_decay_antimono:
  assumes "now \<le> now'" and "score \<le> 1000" and "stale < 2 ^ 64"
    and "quic_decay now stale score lst = Some s" and "quic_decay now' stale score lst = Some s'"
  shows "s' \<le> s"
proof (cases "stale \<le> now' - lst")
  case False
  have le: "f64_le (decay_factor stale (now' - lst)) (decay_factor stale (now - lst))"
    using assms(1,3) False by (intro decay_factor_antimono) auto
  obtain r' where r': "decay_factor stale (now' - lst) = Fin r'" "0 \<le> r'" "r' \<le> 1"
    using assms(3) False by (elim decay_factor_range [of "now' - lst" stale, rotated 2]) auto
  obtain r where r: "decay_factor stale (now - lst) = Fin r" "0 \<le> r" "r \<le> 1"
    using assms(1,3) False by (elim decay_factor_range [of "now - lst" stale, rotated 2]) auto
  have sc: "f64_of_nat score = Fin (of_nat score)" using assms(2) by (intro f64_of_nat_exact) simp
  have "f64_le (f64_mul (f64_of_nat score) (Fin r')) (f64_mul (f64_of_nat score) (Fin r))"
    using le r r' by (simp add: sc f64_mul_def mult_left_mono rnd64_mono)
  then have "f64_as_u32 (f64_mul (f64_of_nat score) (Fin r')) \<le> f64_as_u32 (f64_mul (f64_of_nat score) (Fin r))"
    unfolding f64_as_u32_def by (rule f64_as_nat_mono)
  then show ?thesis
    using assms(1,4,5) False r r'
    by (auto simp: quic_decay_def Let_def decay_factor_def split: if_splits)
next
  case True
  then have "s' = MINIMAL_SCORE" using assms(5) by (auto simp: quic_decay_def split: if_splits)
  then show ?thesis using quic_decay_range [OF assms(4,2,3)] by simp
qed

section \<open>Bounds\<close>

lemma quic_score_effective_range:
  assumes "upstream_ok up"
  shows "MINIMAL_SCORE \<le> quic_score_effective_at up now \<and> quic_score_effective_at up now \<le> 1000"
proof -
  note ok = assms [unfolded upstream_ok_def]
  have "pred_option (\<lambda>s. MINIMAL_SCORE \<le> s \<and> s \<le> 1000) (quic_decay now (up_quic_stale_secs up) sc lst)"
    if "sc \<le> 1000" for sc lst
    using quic_decay_range [of now "up_quic_stale_secs up" sc lst] that ok
    by (cases "quic_decay now (up_quic_stale_secs up) sc lst") auto
  from this [of "up_quic_uplink_score up" "up_quic_uplink_last_update_secs up"]
    this [of "up_quic_downlink_score up" "up_quic_downlink_last_update_secs up"] ok
  show ?thesis
    by (auto simp: quic_score_effective_at_def MINIMAL_SCORE_def DEFAULT_SCORE_def split: option.split)
qed

lemma score_at_blend:
  assumes "upstream_ok up"
  shows "score_at up now =
    (if up_tcp_score_initialized up \<and> (0 < up_quic_uplink_last_update_secs up \<or> 0 < up_quic_downlink_last_update_secs up)
     then (up_tcp_score up * (100 - up_quic_weight up) + quic_score_effective_at up now * up_quic_weight up) div 100
     else if 0 < up_quic_uplink_last_update_secs up \<or> 0 < up_quic_downlink_last_update_secs up
     then quic_score_effective_at up now
     else if up_tcp_score_initialized up then up_tcp_score up else DEFAULT_SCORE)"
proof -
  note ok = assms [unfolded upstream_ok_def]
  have "up_tcp_score up * (100 - up_quic_weight up) \<le> 1000 * 100"
    using ok by (intro mult_mono) auto
  moreover have "quic_score_effective_at up now * up_quic_weight up \<le> 1000 * 100"
    using ok quic_score_effective_range [OF assms, of now] by (intro mult_mono) auto
  ultimately show ?thesis using ok by (simp add: score_at_def Let_def)
qed

lemma score_at_le:
  assumes "upstream_ok up"
  shows "score_at up now \<le> 1000"
proof -
  note ok = assms [unfolded upstream_ok_def]
  let ?t = "up_tcp_score up" and ?q = "quic_score_effective_at up now" and ?w = "up_quic_weight up"
  have "?t * (100 - ?w) + ?q * ?w \<le> 1000 * (100 - ?w) + 1000 * ?w"
    using ok quic_score_effective_range [OF assms, of now] by (intro add_mono mult_right_mono) auto
  also have "\<dots> = 1000 * 100" using ok by (simp flip: add_mult_distrib2)
  finally have "(?t * (100 - ?w) + ?q * ?w) div 100 \<le> 1000" by simp
  then show ?thesis
    using ok quic_score_effective_range [OF assms, of now]
    by (simp add: score_at_blend [OF assms] DEFAULT_SCORE_def)
qed

lemma upstream_step_gain: "upstream_step up up' \<Longrightarrow> up_gain up' = up_gain up"
  by (erule upstream_stepE)
    (simp_all add: set_quic_weight_def set_quic_stale_secs_def track_def score_tick_def store_throughput_def
       apply_report_def set_probe_quality_def update_uplink_score_def update_downlink_score_def
       health_check_step_def penalize_def store_relative_def Let_def split: prod.split option.split)

lemma upstream_reachable_gain: "upstream_reachable up0 up \<Longrightarrow> up_gain up = up_gain up0"
  by (induction rule: upstream_reachable.induct) (simp_all add: upstream_step_gain)

lemma f64_clamp_between:
  "x \<noteq> NaN \<Longrightarrow> lo \<le> hi \<Longrightarrow>
   f64_le (Fin lo) (f64_clamp x (Fin lo) (Fin hi)) \<and> f64_le (f64_clamp x (Fin lo) (Fin hi)) (Fin hi)"
  by (cases x) (auto simp: f64_clamp_def)

lemma rnd64_not_NaN [simp]: "rnd64 x \<noteq> NaN"
  by (simp add: rnd64_def Let_def)

lemma effective_score_range:
  assumes "upstream_ok up" and "up_gain up = Fin g"
  shows "1 \<le> effective_score_at up now \<and> effective_score_at up now \<le> 10000000"
proof -
  let ?e = "f64_clamp (f64_mul (f64_of_nat (score_at up now)) (Fin g)) (Fin 1) (Fin 10000000)"
  have "f64_of_nat (score_at up now) = Fin (of_nat (score_at up now))"
    using score_at_le [OF assms(1), of now] by (intro f64_of_nat_exact) simp
  then have "f64_mul (f64_of_nat (score_at up now)) (Fin g) \<noteq> NaN" by (simp add: f64_mul_def)
  then have e: "f64_le (Fin (of_nat 1)) ?e" "f64_le ?e (Fin (of_nat 10000000))"
    using f64_clamp_between [of _ 1 10000000] by simp_all
  show ?thesis
    unfolding effective_score_at_def f64_as_u64_def assms(2)
    using f64_as_nat_ge_int [OF e(1), of "2 ^ 64 - 1"] f64_as_nat_le_int [OF e(2), of "2 ^ 64 - 1"] by simp
qed

section \<open>Monotone scores\<close>

lemma flog2_eq:
  assumes "2 powi k \<le> x" and "x < 2 powi (k + 1)"
  shows "flog2 x = k"
proof -
  have x: "0 < x" using assms(1) by (meson order_less_le_trans zero_less_numeral zero_less_power_int)
  have "(2 :: rat) powi b \<le> 2 powi a" if "b \<le> a" for a b :: int
    using that by (intro power_int_increasing) simp_all
  then show ?thesis
    using flog2_bounds [OF x] assms
    by (metis (no_types, lifting) linorder_not_le order_le_less_trans zle_add1_eq_le order_antisym)
qed

lemma rnd_rat_tenth: "rnd_rat (1 / 10) = 7205759403792794 / 2 ^ 56"
proof -
  have "flog2 (1 / 10) = - 4" by (rule flog2_eq) (simp_all add: power_int_minus)
  then have u: "ulp64 (1 / 10) = 1 / 72057594037927936" by (simp add: ulp64_def power_int_minus field_simps)
  have "\<lfloor>36028797018963968 / 5 :: rat\<rfloor> = 7205759403792793" by (rule floor_unique) simp_all
  then show ?thesis by (simp add: rnd_rat_def round_half_even_def u Let_def)
qed

text \<open>The two decimal literals of the lowest segment.\<close>

lemma throughput_literals:
  obtains t n where "f64_lit (1 / 10) = Fin t" and "f64_lit (9 / 10) = Fin n"
    and "0 < t" and "t < 1" and "0 < n" and "rnd_rat (1 - t) \<le> n"
proof -
  let ?t = "rnd_rat (1 / 10)" and ?n = "rnd_rat (9 / 10)"
  have t: "1 / 10 \<le> ?t" "?t < 1" unfolding rnd_rat_tenth by simp_all
  have "?t \<le> ?n" by (rule rnd_rat_mono) simp_all
  moreover have "rnd_rat (1 - ?t) \<le> ?n" using t by (intro rnd_rat_mono) simp_all
  moreover have "f64_lit (1 / 10) = Fin ?t" "f64_lit (9 / 10) = Fin ?n"
    using rnd64_between [of 0 "1 / 10" 1] rnd64_between [of 0 "9 / 10" 1]
    by (auto simp: f64_lit_def rnd64_def Let_def split: if_splits)
  ultimately show ?thesis using that [of ?t ?n] t by simp
qed

lemma f64_as_u32_le: "f64_le x (Fin (of_nat n)) \<Longrightarrow> f64_as_u32 x \<le> n"
  by (simp add: f64_as_u32_def f64_as_nat_le_int)

text \<open>One linear segment of the throughput score, from the threshold \<open>c\<close> over the width \<open>d\<close>.\<close>

definition segment :: "rat \<Rightarrow> rat \<Rightarrow> nat \<Rightarrow> f64 \<Rightarrow> nat" where
  "segment c d m x = f64_as_u32 (f64_mul (f64_div (f64_sub x (Fin c)) (Fin d)) (Fin (of_nat m)))"

lemma segment_mono:
  assumes "f64_le (Fin c) x" and "f64_le x y" and "0 < d" and "0 < m"
  shows "segment c d m x \<le> segment c d m y"
  unfolding segment_def f64_as_u32_def
  using assms by (intro f64_as_nat_mono f64_mul_mono f64_div_mono f64_sub_mono f64_div_nonneg f64_sub_nonneg) auto

lemma rnd64_of_nat: "n < 2 ^ 53 \<Longrightarrow> rnd64 (of_nat n) = Fin (of_nat n)"
  using f64_of_nat_exact by (simp add: f64_of_nat_def)

lemma segment_le:
  assumes "f64_le (Fin c) x" and "f64_less x (Fin u)" and "rnd_rat (u - c) \<le> d" and "0 < d" and "d \<le> 1000"
    and "0 < m" and "m < 2 ^ 53"
  shows "segment c d m x \<le> m"
proof -
  define big :: rat where "big = 2 ^ 1024"
  have "(2 :: rat) ^ 10 \<le> big" unfolding big_def by (rule power_increasing) simp_all
  then have big: "1000 < big" by simp
  from assms(1,2) obtain a where a: "x = Fin a" "c \<le> a" "a < u" by (cases x) auto
  have "rnd_rat (a - c) \<le> d" "0 \<le> rnd_rat (a - c)"
    using rnd_rat_mono [of "a - c" "u - c"] rnd_rat_nonneg [of "a - c"] a assms(3) by auto
  then have "f64_le (f64_sub x (Fin c)) (Fin d)"
    using a assms(5) big unfolding f64_sub_def rnd64_def Let_def big_def [symmetric]
    by (auto simp: f64_sub_def rnd64_def Let_def big_def [symmetric])
  moreover have nn: "f64_nonneg (f64_sub x (Fin c))" by (rule f64_sub_nonneg) fact
  ultimately have "f64_le (f64_div (f64_sub x (Fin c)) (Fin d)) (f64_div (Fin d) (Fin d))"
    using assms(4) by (intro f64_div_mono)
  then have "f64_le (f64_div (f64_sub x (Fin c)) (Fin d)) (Fin 1)"
    using assms(4) rnd64_of_nat [of 1] by (simp add: f64_div_def [of "Fin d"])
  then have "f64_le (f64_mul (f64_div (f64_sub x (Fin c)) (Fin d)) (Fin (of_nat m))) (f64_mul (Fin 1) (Fin (of_nat m)))"
    using assms(4,6) nn by (intro f64_mul_mono f64_div_nonneg) simp_all
  then show ?thesis
    using rnd64_of_nat [OF assms(7)] by (simp add: segment_def f64_mul_def [of "Fin 1"] f64_as_u32_le)
qed

lemma rnd_rat_numeral: "n < 2 ^ 53 \<Longrightarrow> rnd_rat (of_nat n) = of_nat n"
  using rnd_rat_int [of "int n"] by (simp flip: of_nat_power)

lemma segment_range:
  assumes "f64_le (Fin (of_nat c)) x" and "\<not> f64_le (Fin (of_nat (c + d))) x" and "x \<noteq> NaN"
    and "0 < d" and "d \<le> 1000" and "0 < m" and "m < 2 ^ 53"
  shows "segment (of_nat c) (of_nat d) m x \<le> m"
  using assms rnd_rat_numeral [of d]
  by (intro segment_le [where u = "of_nat (c + d)"]) (auto simp: f64_not_le)

lemmas segment_ranges =
  segment_range [where c = 10 and d = 40 and m = 200, simplified]
  segment_range [where c = 5 and d = 5 and m = 200, simplified]
  segment_range [where c = 1 and d = 4 and m = 300, simplified]

lemma segment_intros:
  "f64_as_u32 (f64_mul (f64_div (f64_sub x (Fin c)) (Fin d)) (Fin 200)) = segment c d 200 x"
  "f64_as_u32 (f64_mul (f64_div (f64_sub x (Fin c)) (Fin d)) (Fin 300)) = segment c d 300 x"
  by (simp_all add: segment_def)

lemma w32_bounded:
  "s \<le> 200 \<Longrightarrow> k \<le> 1000 \<Longrightarrow> w32 (k + s) = k + s" "s \<le> 300 \<Longrightarrow> k \<le> 1000 \<Longrightarrow> w32 (k + s) = k + s"
  by simp_all

lemma throughput_steps_eq:
  assumes "f64_lit (1 / 10) = Fin t" and "f64_lit (9 / 10) = Fin n" and "0 < n"
    and "n \<le> 1000" and "rnd_rat (1 - t) \<le> n" and "x \<noteq> NaN"
  shows "throughput_steps x =
    (if f64_le (Fin 50) x then 1000
     else if f64_le (Fin 10) x then 800 + min (segment 10 40 200 x) 200
     else if f64_le (Fin 5) x then 600 + min (segment 5 5 200 x) 200
     else if f64_le (Fin 1) x then 300 + min (segment 1 4 300 x) 300
     else if f64_le (Fin t) x then 100 + min (segment t n 200 x) 200
     else f64_as_u32 (f64_mul (f64_div x (Fin t)) (Fin 100)))"
proof -
  have t: "segment t n 200 x \<le> 200" if "f64_le (Fin t) x" "\<not> f64_le (Fin 1) x"
    using that assms by (intro segment_le [where u = 1]) (auto simp: f64_not_le)
  show ?thesis
    unfolding throughput_steps_def assms(1,2) segment_intros
    by (intro if_cong refl) (simp_all add: segment_ranges t assms(6) w32_bounded)
qed

lemma lowest_segment:
  assumes "f64_nonneg x" and "\<not> f64_le (Fin t) x" and "0 < t"
  shows "f64_as_u32 (f64_mul (f64_div x (Fin t)) (Fin 100)) \<le> 100"
proof -
  from assms have "f64_le x (Fin t)" by (elim f64_nonneg_cases) auto
  with assms have "f64_le (f64_mul (f64_div x (Fin t)) (Fin 100)) (f64_mul (f64_div (Fin t) (Fin t)) (Fin 100))"
    by (intro f64_mul_mono f64_div_mono f64_div_nonneg) auto
  then show ?thesis
    using assms(3) rnd64_of_nat [of 1] rnd64_of_nat [of 100] f64_as_u32_le [of _ 100]
    by (simp add: f64_div_def [of "Fin t" "Fin t"] f64_mul_def [of "Fin 1"])
qed

text \<open>The case distinction of the score as a ladder of values, each step within its range.\<close>

lemma ladder_mono:
  assumes "p50 \<Longrightarrow> q50" "p10 \<Longrightarrow> q10" "p5 \<Longrightarrow> q5" "p1 \<Longrightarrow> q1" "p0 \<Longrightarrow> q0"
    and "a \<le> 200" "b \<le> 200" "c \<le> 300" "d \<le> 200" "\<not> p0 \<Longrightarrow> e \<le> 100"
    and "p10 \<Longrightarrow> a \<le> a'" "p5 \<Longrightarrow> b \<le> b'" "p1 \<Longrightarrow> c \<le> c'" "p0 \<Longrightarrow> d \<le> d'" "e \<le> e'"
  shows "(if p50 then 1000 else if p10 then 800 + a else if p5 then 600 + b else if p1 then 300 + c
      else if p0 then 100 + d else e :: nat)
    \<le> (if q50 then 1000 else if q10 then 800 + a' else if q5 then 600 + b' else if q1 then 300 + c'
      else if q0 then 100 + d' else e')"
  using assms by (auto split: if_split)

lemma throughput_steps_mono:
  assumes "f64_nonneg x" and "f64_le x y"
  shows "throughput_steps x \<le> throughput_steps y"
proof -
  obtain t n where tn: "f64_lit (1 / 10) = Fin t" "f64_lit (9 / 10) = Fin n" "0 < t" "t < 1" "0 < n"
      "rnd_rat (1 - t) \<le> n"
    by (rule throughput_literals)
  have n: "n \<le> 1000" using rnd64_between [of 0 "9 / 10" 1] tn(2) by (auto simp: f64_lit_def)
  have y: "f64_nonneg y" using assms by (rule f64_nonneg_mono)
  have nan: "x \<noteq> NaN" "y \<noteq> NaN" using assms(1) y by (auto simp: f64_nonneg_def)
  have up: "f64_le (Fin k) x \<Longrightarrow> f64_le (Fin k) y" for k using assms(2) by (meson f64_le_trans)
  note eq = throughput_steps_eq [OF tn(1,2,5) n tn(6)]
  have low: "f64_as_u32 (f64_mul (f64_div x (Fin t)) (Fin 100)) \<le> f64_as_u32 (f64_mul (f64_div y (Fin t)) (Fin 100))"
    unfolding f64_as_u32_def using assms tn(3)
    by (intro f64_as_nat_mono f64_mul_mono f64_div_mono f64_div_nonneg) auto
  have mono: "min (segment k d m x) l \<le> min (segment k d m y) l" if "f64_le (Fin k) x" "0 < d" "0 < m" for k d m l
    using segment_mono [OF that(1) assms(2) that(2,3)] by (intro min.mono) simp_all
  have bounds: "min (segment k d m x) l \<le> l" for k d m l by simp
  show ?thesis
    unfolding eq [OF nan(1)] eq [OF nan(2)]
    by (rule ladder_mono) (simp_all only: up bounds low mono tn(5) zero_less_numeral
        lowest_segment [OF assms(1) _ tn(3)] simp_thms)
qed

lemma as_secs_f64_whole:
  assumes "1 \<le> secs" and "secs < 2 ^ 64"
  obtains r where "as_secs_f64 (secs, 0) = Fin r" and "0 < r"
proof -
  obtain q where q: "f64_of_nat secs = Fin q" "1 \<le> q" "q < 2 ^ 65"
    using f64_of_nat_finite [OF assms(2,1)] by blast
  obtain r where "rnd64 q = Fin r" "1 \<le> r" using rnd64_finite [of q] q by auto
  then show ?thesis
    using that q rnd64_of_nat [of 0] by (simp add: as_secs_f64_def f64_of_nat_def [of 0] f64_div_def)
qed

section \<open>Runs of the health check\<close>

text \<open>A run: what each check found, and when.\<close>

definition health_run :: "nat \<Rightarrow> (bool \<times> nat) list \<Rightarrow> Upstream \<Rightarrow> Upstream" where
  "health_run fail_threshold obs up = fold (\<lambda>(alive, now). health_check_step fail_threshold alive now) obs up"

definition trailing_failures :: "(bool \<times> nat) list \<Rightarrow> nat" where
  "trailing_failures obs = length (takeWhile (\<lambda>(alive, now). \<not> alive) (rev obs))"

lemma trailing_failures_snoc [simp]:
  "trailing_failures (obs @ [(alive, now)]) = (if alive then 0 else Suc (trailing_failures obs))"
  by (simp add: trailing_failures_def)

lemma health_run_snoc [simp]:
  "health_run th (obs @ [(alive, now)]) up = health_check_step th alive now (health_run th obs up)"
  by (simp add: health_run_def)

lemma health_failures_step:
  "up_health_failures (health_check_step th alive now up) = (if alive then 0 else w32 (up_health_failures up + 1))"
  by (simp add: health_check_step_def Let_def penalize_def)

lemma trailing_failures_le: "trailing_failures obs \<le> length obs"
  using length_takeWhile_le [of _ "rev obs"] by (simp add: trailing_failures_def)

lemma health_run_failures:
  "length obs < 2 ^ 32 \<Longrightarrow> up_health_failures up = 0 \<Longrightarrow>
   up_health_failures (health_run th obs up) = trailing_failures obs"
proof (induction obs rule: rev_induct)
  case Nil
  then show ?case by (simp add: health_run_def trailing_failures_def)
next
  case (snoc ob obs)
  then show ?case
    using trailing_failures_le [of obs] by (cases ob) (simp add: health_failures_step)
qed

section \<open>Properties\<close>

text \<open>
  C38: Whatever the tasks do to an upstream, in any order and at any time (traffic ticks, probe
  reports, health checks, penalties, relative rescoring), its score stays within 0 and 1000, no
  \<open>u32\<close> computation of the blend wraps, and its selection weight stays within 1 and ten million, so
  that an upstream can never be starved by a weight of 0.
\<close>

theorem upstream_scores_bounded:
  assumes "upstream_reachable (upstream_new i addr grps (Fin gain)) up"
  shows "score_at up now \<le> 1000 \<and>
    1 \<le> effective_score_at up now \<and> effective_score_at up now \<le> 10000000 \<and>
    (up_tcp_score_initialized up \<and> 0 < up_quic_uplink_last_update_secs up \<longrightarrow>
     score_at up now = (up_tcp_score up * (100 - up_quic_weight up) +
                        quic_score_effective_at up now * up_quic_weight up) div 100)"
proof -
  have ok: "upstream_ok up" using upstream_reachable_ok [OF assms] by simp
  have "up_gain up = Fin gain" using upstream_reachable_gain [OF assms] by (simp add: upstream_new_def)
  then show ?thesis
    using score_at_le [OF ok, of now] effective_score_range [OF ok, of gain now] score_at_blend [OF ok, of now]
    by simp
qed

theorem upstream_scores_bounded_witness:
  "\<exists>up. upstream_reachable (upstream_new ''u'' (SocketAddr (V4 1) 1080) [''default''] (Fin 1)) up \<and>
     up_tcp_score up = 300 \<and> 1 \<le> effective_score_at up 7 \<and> score_at up 7 \<le> 1000"
proof -
  let ?new = "upstream_new ''u'' (SocketAddr (V4 1) 1080) [''default''] (Fin 1)"
  let ?up = "health_check_step 0 True 5 ?new"
  have r: "upstream_reachable ?new ?up" by (blast intro: upstream_reachable.intros upstream_step.health)
  have "up_tcp_score ?up = 300" by (simp add: health_check_step_def upstream_new_def)
  with r upstream_scores_bounded [OF r, of 7] show ?thesis by blast
qed

text \<open>
  Without new reports the probe score of an upstream only falls as time passes, and once the
  reports of both directions are older than the stale time it is the minimal score, never 0: a
  silent upstream loses its advantage and stays selectable.
\<close>

theorem quic_score_decays:
  assumes "upstream_reachable (upstream_new i addr grps gain) up"
    and "0 < up_quic_uplink_last_update_secs up" and "0 < up_quic_downlink_last_update_secs up"
    and "now \<le> later"
  shows "quic_score_effective_at up later \<le> quic_score_effective_at up now \<and>
    (up_quic_uplink_last_update_secs up + up_quic_stale_secs up \<le> later \<and>
     up_quic_downlink_last_update_secs up + up_quic_stale_secs up \<le> later \<longrightarrow>
     quic_score_effective_at up later = MINIMAL_SCORE)"
proof -
  have ok: "upstream_ok up" using upstream_reachable_ok [OF assms(1)] by simp
  note sc = ok [unfolded upstream_ok_def]
  let ?dec = "\<lambda>t. quic_decay t (up_quic_stale_secs up)"
  let ?u = "\<lambda>t. ?dec t (up_quic_uplink_score up) (up_quic_uplink_last_update_secs up)"
  let ?d = "\<lambda>t. ?dec t (up_quic_downlink_score up) (up_quic_downlink_last_update_secs up)"
  have "\<exists>s. ?dec t sco lst = Some s" if "0 < lst" for t sco lst
    using that by (simp add: quic_decay_def Let_def)
  from this [OF assms(2)] this [OF assms(3)]
  obtain u d u' d' where s: "?u now = Some u" "?d now = Some d" "?u later = Some u'" "?d later = Some d'"
    by metis
  have "u' \<le> u" "d' \<le> d"
    using quic_decay_antimono [OF assms(4) _ _ s(1,3)] quic_decay_antimono [OF assms(4) _ _ s(2,4)] sc by simp_all
  moreover have "u \<le> 1000" "d \<le> 1000"
    using quic_decay_range [OF s(1)] quic_decay_range [OF s(2)] sc by simp_all
  ultimately have "quic_score_effective_at up later \<le> quic_score_effective_at up now"
    by (simp add: quic_score_effective_at_def s div_le_mono)
  then show ?thesis
    using quic_decay_stale [OF assms(2)] quic_decay_stale [OF assms(3)]
    by (simp add: quic_score_effective_at_def MINIMAL_SCORE_def)
qed

theorem quic_score_decays_witness:
  "\<exists>up. upstream_reachable (upstream_new ''u'' (SocketAddr (V4 1) 1080) [''default''] (Fin 1)) up \<and>
     quic_score_effective_at up 300 \<le> quic_score_effective_at up 100 \<and> quic_score_effective_at up 300 = 10"
proof -
  let ?new = "upstream_new ''u'' (SocketAddr (V4 1) 1080) [''default''] (Fin 1)"
  let ?up = "penalize 5 ?new"
  have r: "upstream_reachable ?new ?up" by (blast intro: upstream_reachable.intros upstream_step.penalty)
  have "quic_score_effective_at ?up 300 \<le> quic_score_effective_at ?up 100 \<and> quic_score_effective_at ?up 300 = MINIMAL_SCORE"
    using quic_score_decays [OF r, of 100 300]
    by (simp add: penalize_def upstream_new_def DEFAULT_QUIC_STALE_SECS_def)
  with r show ?thesis by (auto simp: MINIMAL_SCORE_def)
qed

text \<open>
  The health check is a state machine over its observations. After any run from a fresh upstream
  the failure counter is the number of failures since the last success; one more failure penalises
  the upstream exactly when it completes the threshold, and not again until a success; a success
  resets the counter and lifts the TCP score to 300 exactly when the threshold had been reached.
\<close>

theorem health_check_machine:
  assumes "length obs < 2 ^ 32 - 1" and "up_health_failures up = 0"
  shows "up_health_failures (health_run th obs up) = trailing_failures obs \<and>
    health_check_step th False now (health_run th obs up) =
      (let up' = (health_run th obs up)\<lparr>up_health_failures := trailing_failures obs + 1\<rparr>
       in if trailing_failures obs + 1 = th then penalize now up' else up') \<and>
    health_check_step th True now (health_run th obs up) =
      (let up' = (health_run th obs up)\<lparr>up_health_failures := 0\<rparr>
       in if th \<le> trailing_failures obs then up'\<lparr>up_tcp_score := 300, up_tcp_score_initialized := True\<rparr> else up')"
proof -
  have f: "up_health_failures (health_run th obs up) = trailing_failures obs"
    using assms by (intro health_run_failures) simp_all
  have "trailing_failures obs + 1 < 2 ^ 32" using trailing_failures_le [of obs] assms(1) by simp
  then have "w32 (trailing_failures obs + 1) = trailing_failures obs + 1" by simp
  with f show ?thesis by (simp add: health_check_step_def Let_def)
qed

theorem health_check_machine_witness:
  "up_tcp_score (health_check_step 2 False 9
     (health_run 2 [(True, 1), (False, 5)] (upstream_new ''u'' (SocketAddr (V4 1) 1080) [] (Fin 1)))) = 75"
  using health_check_machine [of "[(True, 1), (False, 5)]"
      "upstream_new ''u'' (SocketAddr (V4 1) 1080) [] (Fin 1)" 2 9]
  by (simp add: trailing_failures_def penalize_def upstream_new_def DEFAULT_SCORE_def)

text \<open>
  The throughput score is monotone: over the same duration, more bytes never give a lower score,
  across all six segments of the piecewise function and in spite of the rounding of every operation
  on doubles.
\<close>

theorem throughput_score_mono:
  assumes "b1 \<le> b2" and "1 \<le> secs" and "secs < 2 ^ 64"
    and "calc_throughput_score b1 (secs, 0) = Some s1" and "calc_throughput_score b2 (secs, 0) = Some s2"
  shows "s1 \<le> s2"
proof -
  obtain r where r: "as_secs_f64 (secs, 0) = Fin r" "0 < r"
    using assms(2,3) by (rule as_secs_f64_whole)
  let ?m = "\<lambda>b. f64_div (f64_div (f64_div (f64_of_nat b) (Fin r)) (Fin 1024)) (Fin 1024)"
  have "throughput_steps (?m b1) \<le> throughput_steps (?m b2)"
    using r(2) assms(1)
    by (intro throughput_steps_mono f64_div_nonneg f64_div_mono f64_of_nat_mono f64_of_nat_nonneg) simp_all
  then have "min (throughput_steps (?m b1)) 1000 \<le> min (throughput_steps (?m b2)) 1000" by (intro min.mono) simp_all
  then show ?thesis
    using assms(4,5) r by (simp add: calc_throughput_score_def Let_def split: if_splits)
qed

theorem throughput_score_mono_witness:
  "\<exists>s1 s2. calc_throughput_score 20000 (2, 0) = Some s1 \<and> calc_throughput_score 90000 (2, 0) = Some s2 \<and> s1 \<le> s2"
proof -
  obtain r where "as_secs_f64 (2, 0) = Fin r" "0 < r" by (rule as_secs_f64_whole [of 2]) simp_all
  then obtain s1 s2 where "calc_throughput_score 20000 (2, 0) = Some s1" "calc_throughput_score 90000 (2, 0) = Some s2"
    by (simp add: calc_throughput_score_def Let_def)
  with throughput_score_mono [of 20000 90000 2 s1 s2] show ?thesis by simp
qed

lemma quic_penalties_mono:
  "a \<le> b \<Longrightarrow> loss_penalty a \<le> loss_penalty b" "a \<le> b \<Longrightarrow> rtt_penalty a \<le> rtt_penalty b"
  "a \<le> b \<Longrightarrow> mtu_penalty b \<le> mtu_penalty a"
  by (simp_all add: loss_penalty_def rtt_penalty_def mtu_penalty_def)

text \<open>
  The probe score is monotone in every measurement: a report with no more delay, no more loss and
  no smaller MTU never scores less; it is rejected exactly when delay or loss is negative, infinite
  or not a number; and a score is always within 50 and 1000.
\<close>

theorem quic_score_monotone:
  assumes "f64_le rtt rtt'" and "f64_le loss loss'" and "mtu' \<le> mtu"
    and "calc_quic_score rtt loss mtu = Some s" and "calc_quic_score rtt' loss' mtu' = Some s'"
  shows "s' \<le> s \<and> 50 \<le> s' \<and> s \<le> 1000"
proof -
  have nn: "f64_nonneg loss" using assms(4) by (cases loss) (auto simp: calc_quic_score_def f64_nonneg_def f64_is_finite_def split: if_splits)
  have "loss_penalty (f64_as_u32 (f64_round (f64_mul loss (Fin 100)))) \<le> loss_penalty (f64_as_u32 (f64_round (f64_mul loss' (Fin 100))))"
    unfolding f64_as_u32_def using nn assms(2)
    by (intro quic_penalties_mono f64_as_nat_mono f64_round_mono f64_mul_mono f64_mul_nonneg) simp_all
  moreover have "rtt_penalty (f64_as_u32 rtt) \<le> rtt_penalty (f64_as_u32 rtt')"
    unfolding f64_as_u32_def using assms(1) by (intro quic_penalties_mono f64_as_nat_mono)
  moreover have "mtu_penalty (unat mtu) \<le> mtu_penalty (unat mtu')"
    using assms(3) by (intro quic_penalties_mono) (simp add: word_le_nat_alt)
  ultimately have "s' \<le> s"
    using assms(4,5) by (auto simp: calc_quic_score_def split: if_splits)
  then show ?thesis using calc_quic_score_range [OF assms(4)] calc_quic_score_range [OF assms(5)] by simp
qed

theorem quic_score_monotone_witness:
  "\<exists>s s'. calc_quic_score (Fin 20) (Fin 0) 1400 = Some s \<and> calc_quic_score (Fin 300) (Fin 1) 1280 = Some s' \<and> s' \<le> s"
proof -
  obtain s s' where "calc_quic_score (Fin 20) (Fin 0) 1400 = Some s" "calc_quic_score (Fin 300) (Fin 1) 1280 = Some s'"
    by (simp add: calc_quic_score_def f64_is_finite_def)
  with quic_score_monotone [of "Fin 20" "Fin 300" "Fin 0" "Fin 1" 1280 1400 s s'] show ?thesis by simp
qed

end
