(* ===== verification/Pick_Stats.thy ===== *)
theory Pick_Stats
  imports Xtp_Prelude Specific_Match
begin

text \<open>
  The pick statistics of an upstream set (\<open>PickStats\<close> in \<open>upstream.rs\<close>): counters per upstream in
  time buckets, with running totals over a window. The specification is a list of events; the
  totals are shown to be the counts over the events of the window. Counters do not reach \<open>2^64\<close>, so
  they are natural numbers. The build is a release build: a failed \<open>debug_assert!\<close> has no effect.
\<close>

section \<open>State and operations\<close>

record PickStatsBucket =
  pb_start_secs :: nat
  pb_counts :: "nat list"

record PickStatsInner =
  pi_buckets :: "PickStatsBucket list"
  pi_totals :: "nat list"

definition PICK_STATS_BUCKET_SECS :: nat where "PICK_STATS_BUCKET_SECS = 10"

record PickStats =
  ps_window_secs :: nat
  ps_bucket_secs :: nat
  ps_indexes :: "rstr \<rightharpoonup> nat"
  ps_upstream_ids :: "rstr list"
  ps_inner :: PickStatsInner
  ps_last_log_secs :: nat

definition pick_stats_new :: "nat \<Rightarrow> rstr list \<Rightarrow> PickStats" where
  "pick_stats_new window_secs upstream_ids =
     \<lparr>ps_window_secs = window_secs,
      ps_bucket_secs = max (min PICK_STATS_BUCKET_SECS window_secs) 1,
      ps_indexes = map_of (rev (zip upstream_ids [0..<length upstream_ids])),
      ps_upstream_ids = upstream_ids,
      ps_inner = \<lparr>pi_buckets = [], pi_totals = replicate (length upstream_ids) 0\<rparr>,
      ps_last_log_secs = 0\<rparr>"

text \<open>Buckets that ended before the window leave the deque and the totals.\<close>

fun pop_expired :: "nat \<Rightarrow> nat \<Rightarrow> PickStatsBucket list \<Rightarrow> nat list \<Rightarrow> PickStatsBucket list \<times> nat list" where
  "pop_expired bucket_secs cutoff [] totals = ([], totals)"
| "pop_expired bucket_secs cutoff (b # bs) totals =
     (if saturating_add_usize (pb_start_secs b) bucket_secs \<le> cutoff
      then pop_expired bucket_secs cutoff bs (map2 (-) totals (pb_counts b))
      else (b # bs, totals))"

text \<open>The current bucket, found or created; when the clock went back it is the newest one.\<close>

definition current_bucket :: "nat \<Rightarrow> nat \<Rightarrow> PickStatsBucket list \<Rightarrow> PickStatsBucket list" where
  "current_bucket n bucket_start buckets =
     (let use_existing = (buckets \<noteq> [] \<and> pb_start_secs (last buckets) > bucket_start)
      in if \<not> use_existing \<and> (buckets = [] \<or> pb_start_secs (last buckets) \<noteq> bucket_start)
         then buckets @ [\<lparr>pb_start_secs = bucket_start, pb_counts = replicate n 0\<rparr>]
         else buckets)"

definition record_at :: "nat \<Rightarrow> nat \<Rightarrow> PickStats \<Rightarrow> (unit, PickStats) rres" where
  "record_at now upstream_index ps =
     (let bucket_start = now div ps_bucket_secs ps * ps_bucket_secs ps;
          cutoff = now - ps_window_secs ps;
          n = length (ps_upstream_ids ps)
      in case pop_expired (ps_bucket_secs ps) cutoff (pi_buckets (ps_inner ps)) (pi_totals (ps_inner ps)) of
           (buckets, totals) \<Rightarrow>
             let buckets = current_bucket n bucket_start buckets; bucket = last buckets
             in bindR (idx (pb_counts bucket) upstream_index) (\<lambda>c.
                bindR (idx totals upstream_index) (\<lambda>t.
                Inr (ps\<lparr>ps_inner :=
                  \<lparr>pi_buckets = butlast buckets @ [bucket\<lparr>pb_counts := (pb_counts bucket)[upstream_index := c + 1]\<rparr>],
                   pi_totals = totals[upstream_index := t + 1]\<rparr>\<rparr>))))"

definition record_by_id :: "nat \<Rightarrow> rstr \<Rightarrow> PickStats \<Rightarrow> (unit, bool \<times> PickStats) rres" where
  "record_by_id now upstream_id ps =
     (case ps_indexes ps upstream_id of
        None \<Rightarrow> Inr (False, ps)
      | Some i \<Rightarrow> bindR (record_at now i ps) (\<lambda>ps. Inr (True, ps)))"

definition ps_counts :: "PickStats \<Rightarrow> (rstr \<times> nat) list" where
  "ps_counts ps =
     sort_by_key_rev snd (filter (\<lambda>(i, c). 0 < c) (zip (ps_upstream_ids ps) (pi_totals (ps_inner ps))))"

text \<open>The throttled log: the new state, and the line when one is printed.\<close>

definition maybe_log :: "nat \<Rightarrow> PickStats \<Rightarrow> PickStats \<times> (rstr \<times> nat) list option" where
  "maybe_log now ps =
     (let lst = ps_last_log_secs ps
      in if now < lst then (ps\<lparr>ps_last_log_secs := now\<rparr>, None)
         else if now - lst < 60 then (ps, None)
         else let counts = ps_counts ps; ps = ps\<lparr>ps_last_log_secs := now\<rparr>
              in (ps, if counts = [] then None else Some counts))"

section \<open>Specification: events in a window\<close>

text \<open>An event is the time and the index of a pick; \<open>hits\<close> counts those of an index with a property.\<close>

definition bucket_of :: "nat \<Rightarrow> nat \<Rightarrow> nat" where
  "bucket_of b t = t div b * b"

definition hits :: "nat \<Rightarrow> (nat \<Rightarrow> bool) \<Rightarrow> nat \<Rightarrow> (nat \<times> nat) list \<Rightarrow> nat" where
  "hits b P i es = length (filter (\<lambda>(t, j). j = i \<and> P (bucket_of b t)) es)"

fun record_all :: "(nat \<times> nat) list \<Rightarrow> PickStats \<Rightarrow> (unit, PickStats) rres" where
  "record_all [] ps = Inr ps"
| "record_all ((t, i) # es) ps = bindR (record_at t i ps) (record_all es)"

section \<open>Lemmas\<close>

lemma hits_Nil [simp]: "hits b P i [] = 0"
  by (simp add: hits_def)

lemma hits_snoc [simp]:
  "hits b P i (es @ [(t, j)]) = hits b P i es + (if j = i \<and> P (bucket_of b t) then 1 else 0)"
  by (simp add: hits_def)

lemma hits_split:
  "Q s \<Longrightarrow> hits b Q i es = hits b (\<lambda>x. Q x \<and> x \<noteq> s) i es + hits b (\<lambda>x. x = s) i es"
  by (induction es) (auto simp: hits_def)

lemma hits_cong:
  "(\<And>t j. (t, j) \<in> set es \<Longrightarrow> P (bucket_of b t) = Q (bucket_of b t)) \<Longrightarrow> hits b P i es = hits b Q i es"
  unfolding hits_def by (rule arg_cong [where f = length]) (auto intro!: filter_cong)

text \<open>
  The buckets hold the counts of the events of \<open>es\<close>, in order of time, and the totals count the
  events whose bucket is still there.
\<close>

definition counted :: "nat \<Rightarrow> nat \<Rightarrow> (nat \<times> nat) list \<Rightarrow> PickStatsBucket list \<Rightarrow> nat list \<Rightarrow> bool" where
  "counted b n es buckets totals \<longleftrightarrow>
     sorted_wrt (<) (map pb_start_secs buckets) \<and>
     (\<forall>bk \<in> set buckets. pb_counts bk = map (\<lambda>i. hits b (\<lambda>s. s = pb_start_secs bk) i es) [0..<n]) \<and>
     totals = map (\<lambda>i. hits b (\<lambda>s. s \<in> pb_start_secs ` set buckets) i es) [0..<n]"

lemma counted_pop:
  assumes "counted b n es (bk # bks) totals"
  shows "counted b n es bks (map2 (-) totals (pb_counts bk))"
proof -
  let ?K = "pb_start_secs ` set (bk # bks)" and ?K' = "pb_start_secs ` set bks" and ?s = "pb_start_secs bk"
  have K: "s \<in> ?K' \<longleftrightarrow> s \<in> ?K \<and> s \<noteq> ?s" for s
    using assms by (auto simp: counted_def)
  have "hits b (\<lambda>s. s \<in> ?K) i es = hits b (\<lambda>s. s \<in> ?K') i es + hits b (\<lambda>s. s = ?s) i es" for i
    using hits_split [of "\<lambda>s. s \<in> ?K" ?s b i es] by (simp only: K) simp
  then have "map2 (-) totals (pb_counts bk) = map (\<lambda>i. hits b (\<lambda>s. s \<in> ?K') i es) [0..<n]"
    using assms by (simp add: counted_def map2_map_map)
  with assms show ?thesis by (simp add: counted_def)
qed

lemma pop_expired_counted:
  "counted b n es buckets totals \<Longrightarrow> \<forall>bk \<in> set buckets. pb_start_secs bk + b \<le> usize_max \<Longrightarrow>
   pop_expired b cutoff buckets totals = (buckets', totals') \<Longrightarrow>
   counted b n es buckets' totals' \<and> buckets' = filter (\<lambda>bk. cutoff < pb_start_secs bk + b) buckets"
proof (induction b cutoff buckets totals rule: pop_expired.induct)
  case (2 b cutoff bk bks totals)
  show ?case
  proof (cases "pb_start_secs bk + b \<le> cutoff")
    case True
    then have c: "saturating_add_usize (pb_start_secs bk) b \<le> cutoff" by (simp add: saturating_add_usize_def)
    show ?thesis
      using 2(1) [OF c counted_pop [OF 2(2)]] 2(3,4) c True by auto
  next
    case False
    then have c: "\<not> saturating_add_usize (pb_start_secs bk) b \<le> cutoff"
      using 2(3) by (simp add: saturating_add_usize_def)
    have "\<forall>x \<in> set bks. cutoff < pb_start_secs x + b"
      using 2(2) False by (auto simp: counted_def intro: order_less_trans [rotated])
    then have f: "filter (\<lambda>x. cutoff < pb_start_secs x + b) (bk # bks) = bk # bks"
      using False by (simp add: filter_id_conv)
    have "buckets' = bk # bks" "totals' = totals" using 2(4) c by simp_all
    then show ?thesis using 2(2) f by (simp only: simp_thms)
  qed
qed (simp add: counted_def)

text \<open>
  What holds after a run of events with a clock that does not go back: the buckets are those of the
  events in the window that ends at the last event.
\<close>

definition window_ok :: "nat \<Rightarrow> nat \<Rightarrow> nat \<Rightarrow> nat \<Rightarrow> (nat \<times> nat) list \<Rightarrow> PickStatsBucket list \<Rightarrow> nat list \<Rightarrow> bool" where
  "window_ok b n window now es buckets totals \<longleftrightarrow>
     counted b n es buckets totals \<and>
     pb_start_secs ` set buckets = {bucket_of b t | t j. (t, j) \<in> set es \<and> now - window < bucket_of b t + b}"

lemma bucket_of_le: "bucket_of b t \<le> t"
  by (simp add: bucket_of_def)

lemma bucket_of_mono: "t \<le> u \<Longrightarrow> bucket_of b t \<le> bucket_of b u"
  by (simp add: bucket_of_def div_le_mono)

lemma bucket_of_end: "0 < b \<Longrightarrow> t < bucket_of b t + b"
  using div_mult_mod_eq [of t b] mod_less_divisor [of b t] unfolding bucket_of_def by linarith

lemma window_ok_counts:
  assumes "window_ok b n window now es buckets totals" and "i < n"
  shows "totals ! i = hits b (\<lambda>s. now - window < s + b) i es"
proof -
  have "totals ! i = hits b (\<lambda>s. s \<in> pb_start_secs ` set buckets) i es"
    using assms by (simp add: window_ok_def counted_def)
  also have "\<dots> = hits b (\<lambda>s. now - window < s + b) i es"
    using assms(1) by (intro hits_cong) (auto simp: window_ok_def)
  finally show ?thesis .
qed

lemma counted_add:
  assumes "counted b n es (bks @ [bk]) totals" and "pb_start_secs bk = bucket_of b t" and "i < n"
  shows "counted b n (es @ [(t, i)]) (bks @ [bk\<lparr>pb_counts := (pb_counts bk)[i := pb_counts bk ! i + 1]\<rparr>])
    (totals[i := totals ! i + 1])"
proof -
  have ne: "pb_start_secs x \<noteq> bucket_of b t" if "x \<in> set bks" for x
    using assms(1,2) that by (auto simp: counted_def sorted_wrt_append)
  have "(map f [0..<n])[i := f i + 1] = map (\<lambda>k. f k + (if i = k then 1 else 0)) [0..<n]" for f :: "nat \<Rightarrow> nat"
    using assms(3) by (auto simp: list_eq_iff_nth_eq nth_list_update)
  then show ?thesis
    using assms by (auto simp: counted_def dest: ne)
qed

lemma counted_new_bucket:
  assumes "counted b n es bks totals" and "\<forall>x \<in> set bks. pb_start_secs x < s"
    and "\<forall>(t, j) \<in> set es. bucket_of b t \<noteq> s"
  shows "counted b n es (bks @ [\<lparr>pb_start_secs = s, pb_counts = replicate n 0\<rparr>]) totals"
proof -
  have z: "hits b (\<lambda>x. x = s) i es = 0" for i
    using assms(3) by (auto simp: hits_def filter_empty_conv)
  have "hits b (\<lambda>x. x \<in> insert s K) i es = hits b (\<lambda>x. x \<in> K) i es" for K i
    using assms(3) by (intro hits_cong) auto
  then show ?thesis
    using assms(1,2) z by (auto simp: counted_def sorted_wrt_append map_replicate_const)
qed

lemma current_bucket_counted:
  assumes "counted b n es bks totals" and "\<forall>x \<in> set bks. pb_start_secs x \<le> s"
    and "s \<notin> pb_start_secs ` set bks \<Longrightarrow> \<forall>(t, j) \<in> set es. bucket_of b t \<noteq> s"
  obtains bks1 bk where "current_bucket n s bks = bks1 @ [bk]" and "pb_start_secs bk = s"
    and "counted b n es (bks1 @ [bk]) totals"
    and "pb_start_secs ` set (bks1 @ [bk]) = insert s (pb_start_secs ` set bks)"
proof (cases "s \<in> pb_start_secs ` set bks")
  case True
  then obtain bks1 bk where bks: "bks = bks1 @ [bk]" by (cases bks rule: rev_exhaust) auto
  have "pb_start_secs bk = s"
    using True assms(1,2) by (auto simp: bks counted_def sorted_wrt_append)
  then show ?thesis using that [of bks1 bk] assms(1) True by (auto simp: bks current_bucket_def)
next
  case False
  then have lt: "\<forall>x \<in> set bks. pb_start_secs x < s" using assms(2) by (auto simp: order_le_less)
  then have "current_bucket n s bks = bks @ [\<lparr>pb_start_secs = s, pb_counts = replicate n 0\<rparr>]"
    by (cases bks rule: rev_exhaust) (auto simp: current_bucket_def)
  with that counted_new_bucket [OF assms(1) lt assms(3) [OF False]] show ?thesis by simp
qed

text \<open>One recorded pick keeps the window.\<close>

lemma record_at_window:
  assumes ok: "window_ok b n window now es (pi_buckets (ps_inner ps)) (pi_totals (ps_inner ps))"
    and ps: "ps_bucket_secs ps = b" "ps_window_secs ps = window" "length (ps_upstream_ids ps) = n"
    and b: "0 < b" and i: "i < n" and t: "\<forall>(u, j) \<in> set es. u \<le> t" "now \<le> t" "t + b \<le> usize_max"
  shows "\<exists>ps'. record_at t i ps = Inr ps' \<and>
    ps' = ps\<lparr>ps_inner := ps_inner ps'\<rparr> \<and>
    window_ok b n window t (es @ [(t, i)]) (pi_buckets (ps_inner ps')) (pi_totals (ps_inner ps'))"
proof -
  let ?bks = "pi_buckets (ps_inner ps)"
  have starts: "s \<in> pb_start_secs ` set ?bks \<longleftrightarrow> (\<exists>u j. (u, j) \<in> set es \<and> s = bucket_of b u \<and> now - window < s + b)" for s
    using ok by (auto simp: window_ok_def)
  have le: "s \<le> bucket_of b t" if "s \<in> pb_start_secs ` set ?bks" for s
    using that t(1) unfolding starts by (auto intro!: bucket_of_mono)
  obtain bks totals where pop: "pop_expired b (t - window) ?bks (pi_totals (ps_inner ps)) = (bks, totals)" by fastforce
  have "pb_start_secs bk + b \<le> usize_max" if "bk \<in> set ?bks" for bk
    using le [OF imageI [OF that]] bucket_of_le [of b t] t(3) by linarith
  then have "counted b n es bks totals \<and> bks = filter (\<lambda>bk. t - window < pb_start_secs bk + b) ?bks"
    using ok pop by (intro pop_expired_counted) (auto simp: window_ok_def)
  then have cnt: "counted b n es bks totals"
      and bks: "bks = filter (\<lambda>bk. t - window < pb_start_secs bk + b) ?bks"
    by auto
  have "pb_start_secs ` set bks = {s \<in> pb_start_secs ` set ?bks. t - window < s + b}" by (auto simp: bks)
  then have live: "s \<in> pb_start_secs ` set bks \<longleftrightarrow> (\<exists>u j. (u, j) \<in> set es \<and> s = bucket_of b u) \<and> t - window < s + b" for s
    using starts [of s] diff_le_mono [OF t(2), of window] by auto
  let ?s = "bucket_of b t"
  have le': "s \<le> ?s" if "s \<in> pb_start_secs ` set bks" for s
    using le that by (auto simp: bks)
  obtain bks1 bk where cur: "current_bucket n ?s bks = bks1 @ [bk]" "pb_start_secs bk = ?s"
      and c1: "counted b n es (bks1 @ [bk]) totals"
      and set1: "pb_start_secs ` set (bks1 @ [bk]) = insert ?s (pb_start_secs ` set bks)"
  proof (rule current_bucket_counted [OF cnt, of ?s])
    show "\<forall>x \<in> set bks. pb_start_secs x \<le> ?s" using le' by auto
    show "\<forall>(u, j) \<in> set es. bucket_of b u \<noteq> ?s" if "?s \<notin> pb_start_secs ` set bks"
      using that live [of ?s] bucket_of_end [OF b, of t] by auto
  qed
  have len: "i < length (pb_counts bk)" "i < length totals" using c1 i by (auto simp: counted_def)
  let ?bk' = "bk\<lparr>pb_counts := (pb_counts bk)[i := pb_counts bk ! i + 1]\<rparr>"
  have "record_at t i ps = Inr (ps\<lparr>ps_inner := \<lparr>pi_buckets = bks1 @ [?bk'], pi_totals = totals[i := totals ! i + 1]\<rparr>\<rparr>)"
    using pop cur len by (simp add: record_at_def ps bucket_of_def Let_def)
  moreover have "window_ok b n window t (es @ [(t, i)]) (bks1 @ [?bk']) (totals[i := totals ! i + 1])"
  proof -
    have "t - window < ?s + b" using bucket_of_end [OF b, of t] by simp
    then have "insert ?s (pb_start_secs ` set bks) =
        {bucket_of b u | u j. (u, j) \<in> set (es @ [(t, i)]) \<and> t - window < bucket_of b u + b}"
      by (intro set_eqI, unfold insert_iff live) auto
    moreover have "pb_start_secs ` set (bks1 @ [?bk']) = insert ?s (pb_start_secs ` set bks)" using set1 by simp
    ultimately show ?thesis using counted_add [OF c1 cur(2) i] unfolding window_ok_def by simp
  qed
  ultimately show ?thesis by simp
qed

lemma record_all_window:
  assumes "window_ok b n window now es0 (pi_buckets (ps_inner ps)) (pi_totals (ps_inner ps))"
    and "ps_bucket_secs ps = b" "ps_window_secs ps = window" "length (ps_upstream_ids ps) = n" "0 < b"
    and "sorted (map fst (es0 @ es))" and "\<forall>(t, i) \<in> set es. now \<le> t \<and> i < n \<and> t + b \<le> usize_max"
  shows "\<exists>ps'. record_all es ps = Inr ps' \<and>
    window_ok b n window (if es = [] then now else fst (last es)) (es0 @ es)
      (pi_buckets (ps_inner ps')) (pi_totals (ps_inner ps'))"
  using assms
proof (induction es arbitrary: ps es0 now)
  case (Cons e es)
  obtain t i where e: "e = (t, i)" by fastforce
  have "\<forall>(u, j) \<in> set es0. u \<le> t" using Cons.prems(6) by (force simp: e sorted_append)
  then obtain ps' where ps': "record_at t i ps = Inr ps'" "ps' = ps\<lparr>ps_inner := ps_inner ps'\<rparr>"
      "window_ok b n window t (es0 @ [(t, i)]) (pi_buckets (ps_inner ps')) (pi_totals (ps_inner ps'))"
    using record_at_window [OF Cons.prems(1-5), of i t] Cons.prems(7) by (auto simp: e)
  have same: "ps_bucket_secs ps' = b" "ps_window_secs ps' = window" "length (ps_upstream_ids ps') = n"
    using Cons.prems(2-4) by (subst ps'(2), simp)+
  have "\<forall>(u, j) \<in> set es. t \<le> u \<and> j < n \<and> u + b \<le> usize_max"
    using Cons.prems(6,7) by (force simp: e sorted_append)
  with Cons.IH [OF ps'(3) same Cons.prems(5)] Cons.prems(6) ps'(1) show ?case
    by (fastforce simp: e)
qed simp

section \<open>Well-formed statistics, whatever the clock does\<close>

definition ps_wf :: "PickStats \<Rightarrow> bool" where
  "ps_wf ps \<longleftrightarrow>
     (\<forall>i \<in> ran (ps_indexes ps). i < length (ps_upstream_ids ps)) \<and>
     length (pi_totals (ps_inner ps)) = length (ps_upstream_ids ps) \<and>
     (\<forall>bk \<in> set (pi_buckets (ps_inner ps)). length (pb_counts bk) = length (ps_upstream_ids ps))"

lemma ps_wf_new: "ps_wf (pick_stats_new window ids)"
proof -
  have "i < length ids" if "(x, i) \<in> set (rev (zip ids [0..<length ids]))" for x i
    using that set_zip_rightD [of x i ids "[0..<length ids]"] by simp
  then show ?thesis by (auto simp: ps_wf_def pick_stats_new_def ran_def dest!: map_of_SomeD)
qed

lemma pop_expired_wf:
  "\<forall>bk \<in> set bks. length (pb_counts bk) = n \<Longrightarrow> length totals = n \<Longrightarrow>
   pop_expired b cutoff bks totals = (bks', totals') \<Longrightarrow>
   (\<forall>bk \<in> set bks'. length (pb_counts bk) = n) \<and> length totals' = n"
  by (induction b cutoff bks totals rule: pop_expired.induct) (auto split: if_splits)

lemma current_bucket_wf:
  "\<forall>bk \<in> set bks. length (pb_counts bk) = n \<Longrightarrow>
   current_bucket n s bks \<noteq> [] \<and> (\<forall>bk \<in> set (current_bucket n s bks). length (pb_counts bk) = n)"
  by (auto simp: current_bucket_def Let_def)

lemma record_at_wf:
  assumes "ps_wf ps" and "i < length (ps_upstream_ids ps)"
  shows "\<exists>ps'. record_at now i ps = Inr ps' \<and> ps_wf ps'"
proof -
  let ?n = "length (ps_upstream_ids ps)"
  obtain bks totals where pop: "pop_expired (ps_bucket_secs ps) (now - ps_window_secs ps)
      (pi_buckets (ps_inner ps)) (pi_totals (ps_inner ps)) = (bks, totals)" by fastforce
  with assms(1) have p: "\<forall>bk \<in> set bks. length (pb_counts bk) = ?n" "length totals = ?n"
    using pop_expired_wf [OF _ _ pop, of ?n] by (auto simp: ps_wf_def)
  define cur where "cur = current_bucket ?n (now div ps_bucket_secs ps * ps_bucket_secs ps) bks"
  have c: "cur \<noteq> []" "\<forall>bk \<in> set cur. length (pb_counts bk) = ?n"
    using current_bucket_wf [OF p(1)] by (simp_all add: cur_def)
  then have "length (pb_counts (last cur)) = ?n" "\<forall>bk \<in> set (butlast cur). length (pb_counts bk) = ?n"
    by (auto dest: in_set_butlastD)
  with c p(2) assms show ?thesis
    by (simp add: record_at_def pop Let_def cur_def [symmetric] ps_wf_def)
qed

lemma record_by_id_wf:
  "ps_wf ps \<Longrightarrow> \<exists>r ps'. record_by_id now x ps = Inr (r, ps') \<and> ps_wf ps'"
  using record_at_wf [of ps _ now]
  by (cases "ps_indexes ps x") (force simp: record_by_id_def ps_wf_def ran_def)+

lemma maybe_log_wf [simp]: "ps_wf (fst (maybe_log now ps)) = ps_wf ps"
  by (simp add: maybe_log_def ps_wf_def Let_def)

section \<open>Property\<close>

text \<open>
  C39: The pick statistics refine a plain event log. With a clock that does not go back, after any
  picks the counter of an upstream is the number of its picks whose bucket reaches into the window
  that ends at the last pick: the deque of buckets and the running totals never drop, duplicate or
  keep a pick too long, and no index is out of range.
\<close>

theorem pick_stats_sliding_window:
  assumes "es \<noteq> []" and "sorted (map fst es)"
    and "\<forall>(t, j) \<in> set es. j < length ids \<and> t + 10 \<le> usize_max" and "i < length ids"
  shows "\<exists>ps. record_all es (pick_stats_new window ids) = Inr ps \<and>
    (let b = ps_bucket_secs (pick_stats_new window ids)
     in pi_totals (ps_inner ps) ! i = hits b (\<lambda>s. fst (last es) - window < s + b) i es)"
proof -
  let ?ps = "pick_stats_new window ids" and ?b = "ps_bucket_secs (pick_stats_new window ids)"
  have b: "0 < ?b" "?b \<le> 10" by (simp_all add: pick_stats_new_def PICK_STATS_BUCKET_SECS_def)
  have w: "window_ok ?b (length ids) window 0 [] (pi_buckets (ps_inner ?ps)) (pi_totals (ps_inner ?ps))"
    by (simp add: window_ok_def counted_def pick_stats_new_def map_replicate_const)
  have "\<forall>(t, j) \<in> set es. 0 \<le> t \<and> j < length ids \<and> t + ?b \<le> usize_max"
    using assms(3) b(2) by fastforce
  then obtain ps where "record_all es ?ps = Inr ps"
      "window_ok ?b (length ids) window (fst (last es)) es (pi_buckets (ps_inner ps)) (pi_totals (ps_inner ps))"
    using record_all_window [OF w, of es] assms(1,2) b(1) by (auto simp: pick_stats_new_def)
  then show ?thesis using window_ok_counts [OF _ assms(4)] by (auto simp: Let_def)
qed

theorem pick_stats_sliding_window_witness:
  "\<exists>ps. record_all [(100, 0), (101, 1), (109, 0), (200, 0)] (pick_stats_new 60 [''a'', ''b'']) = Inr ps \<and>
     pi_totals (ps_inner ps) ! 0 = 1"
  using pick_stats_sliding_window [of "[(100, 0), (101, 1), (109, 0), (200, 0)]" "[''a'', ''b'']" 0 60]
  by (simp add: usize_max_def pick_stats_new_def PICK_STATS_BUCKET_SECS_def hits_def bucket_of_def)

end
