(* ===== verification/Upstream_Set.thy ===== *)
theory Upstream_Set
  imports Upstream_Score Pick_Stats
begin

text \<open>
  The set of upstreams and the choice of one (\<open>UpstreamSet\<close> in \<open>upstream.rs\<close>). The upstreams are
  shared objects: they live in \<open>us_all_items\<close>, and a reference to one is its position there. The
  random generator is the record \<open>fastrand\<close>; one clock read serves a whole pick.
\<close>

section \<open>State\<close>

record fastrand =
  fr_explore :: bool
  fr_usize :: "nat \<Rightarrow> nat"
  fr_u64 :: "nat \<Rightarrow> nat"

definition fastrand_ok :: "fastrand \<Rightarrow> bool" where
  "fastrand_ok rnd \<longleftrightarrow> (\<forall>n > 0. fr_usize rnd n < n) \<and> (\<forall>n > 0. fr_u64 rnd n < n)"

record UpstreamSet =
  us_groups :: "rstr \<rightharpoonup> nat list"
  us_all_items :: "Upstream list"
  us_current :: "rstr \<rightharpoonup> rstr option"
  us_tolerance :: nat
  us_pick_stats :: "PickStats option"

definition push_group :: "nat \<Rightarrow> rstr \<Rightarrow> (rstr \<rightharpoonup> nat list) \<Rightarrow> (rstr \<rightharpoonup> nat list)" where
  "push_group k grp groups = groups(grp \<mapsto> (case groups grp of None \<Rightarrow> [] | Some ks \<Rightarrow> ks) @ [k])"

definition group_index :: "Upstream list \<Rightarrow> rstr \<rightharpoonup> nat list" where
  "group_index items =
     fold (\<lambda>(k, up). fold (push_group k) (up_groups up)) (zip [0..<length items] items) Map.empty"

definition upstream_set_new ::
  "Upstream list \<Rightarrow> nat \<Rightarrow> nat \<Rightarrow> nat \<Rightarrow> nat \<Rightarrow> UpstreamSet option" where
  "upstream_set_new items tolerance quic_weight quic_stale_secs pick_stats_window_secs =
     (if items = [] then None
      else Some
        \<lparr>us_groups = group_index items,
         us_all_items = map (\<lambda>up. set_quic_stale_secs quic_stale_secs (set_quic_weight quic_weight up)) items,
         us_current = Map.empty,
         us_tolerance = tolerance,
         us_pick_stats = (if 0 < pick_stats_window_secs
                          then Some (pick_stats_new pick_stats_window_secs (map up_id items)) else None)\<rparr>)"

abbreviation us_up :: "UpstreamSet \<Rightarrow> nat \<Rightarrow> Upstream" where
  "us_up us k \<equiv> us_all_items us ! k"

section \<open>Picking\<close>

text \<open>\<open>Iterator::max_by_key\<close> returns the last of several maximal elements.\<close>

fun max_by_key :: "('a \<Rightarrow> nat) \<Rightarrow> 'a list \<Rightarrow> 'a option" where
  "max_by_key f [] = None"
| "max_by_key f (x # xs) = Some (fold (\<lambda>y m. if f m \<le> f y then y else m) xs x)"

fun weighted_index :: "nat list \<Rightarrow> nat \<Rightarrow> nat option" where
  "weighted_index [] r = None"
| "weighted_index (w # ws) r = (if r < w then Some 0 else map_option Suc (weighted_index ws (r - w)))"

definition record_pick_stats :: "nat \<Rightarrow> nat \<Rightarrow> UpstreamSet \<Rightarrow> (unit, UpstreamSet) rres" where
  "record_pick_stats now chosen us =
     (case us_pick_stats us of
        None \<Rightarrow> Inr us
      | Some stats \<Rightarrow>
          bindR (record_by_id now (up_id (us_up us chosen)) stats) (\<lambda>(known, stats).
          Inr (us\<lparr>us_pick_stats := Some (if known then fst (maybe_log now stats) else stats)\<rparr>)))"

definition commit_pick :: "nat \<Rightarrow> rstr \<Rightarrow> nat \<Rightarrow> UpstreamSet \<Rightarrow> (unit, nat option \<times> UpstreamSet) rres" where
  "commit_pick now grp chosen us =
     bindR (record_pick_stats now chosen (us\<lparr>us_current := (us_current us)(grp \<mapsto> Some (up_id (us_up us chosen)))\<rparr>))
       (\<lambda>us. Inr (Some chosen, us))"

definition sticky_upstream :: "nat list \<Rightarrow> rstr \<Rightarrow> UpstreamSet \<Rightarrow> nat option" where
  "sticky_upstream items grp us =
     (case us_current us grp of
        Some (Some i) \<Rightarrow> find (\<lambda>k. up_id (us_up us k) = i) items
      | _ \<Rightarrow> None)"

text \<open>Squared weights, and the choice by them.\<close>

definition pick_weights :: "nat \<Rightarrow> nat list \<Rightarrow> UpstreamSet \<Rightarrow> nat list" where
  "pick_weights now items us =
     map (\<lambda>k. let s = effective_score_at (us_up us k) now in w64 (s * s)) items"

definition choose_weighted :: "fastrand \<Rightarrow> nat \<Rightarrow> nat list \<Rightarrow> UpstreamSet \<Rightarrow> (unit, nat) rres" where
  "choose_weighted rnd now items us =
     (let weights = pick_weights now items us;
          total_weight = w64 (sum_list weights)
      in if total_weight = 0 then idx items (fr_usize rnd (length items))
         else case weighted_index weights (fr_u64 rnd total_weight) of
                Some i \<Rightarrow> idx items i
              | None \<Rightarrow> idx items 0)"

definition pick_weighted ::
  "fastrand \<Rightarrow> nat \<Rightarrow> nat list \<Rightarrow> rstr \<Rightarrow> UpstreamSet \<Rightarrow> (unit, nat option \<times> UpstreamSet) rres" where
  "pick_weighted rnd now items grp us =
     (if length items = 0 then Inr (None, us)
      else if length items = 1 then bindR (idx items 0) (\<lambda>k. commit_pick now grp k us)
      else
        let uninit = filter (\<lambda>k. \<not> up_tcp_score_initialized (us_up us k)) items in
        if uninit \<noteq> [] \<and> fr_explore rnd
        then bindR (idx uninit (fr_usize rnd (length uninit))) (\<lambda>k. commit_pick now grp k us)
        else
          case max_by_key (\<lambda>k. effective_score_at (us_up us k) now) items of
            None \<Rightarrow> Inr (None, us)
          | Some best \<Rightarrow>
              let best_eff = effective_score_at (us_up us best) now;
                  sticky = (if 0 < us_tolerance us then sticky_upstream items grp us else None);
                  reselect = bindR (choose_weighted rnd now items us) (\<lambda>k. commit_pick now grp k us)
              in case sticky of
                   None \<Rightarrow> reselect
                 | Some cur \<Rightarrow>
                     let cur_eff = effective_score_at (us_up us cur) now
                     in if up_id (us_up us best) \<noteq> up_id (us_up us cur) \<and> w64 (cur_eff + us_tolerance us) < best_eff
                        then reselect
                        else bindR (record_pick_stats now cur us) (\<lambda>us. Inr (Some cur, us)))"

definition pick_from_group :: "fastrand \<Rightarrow> nat \<Rightarrow> rstr \<Rightarrow> UpstreamSet \<Rightarrow> (unit, nat option \<times> UpstreamSet) rres" where
  "pick_from_group rnd now grp us =
     (case us_groups us grp of
        None \<Rightarrow> Inr (None, us)
      | Some items \<Rightarrow> pick_weighted rnd now items grp us)"

definition pick :: "fastrand \<Rightarrow> nat \<Rightarrow> UpstreamSet \<Rightarrow> (unit, nat option \<times> UpstreamSet) rres" where
  "pick rnd now us = pick_from_group rnd now ''default'' us"

definition pick_excluding_many_from_group ::
  "fastrand \<Rightarrow> nat \<Rightarrow> rstr \<Rightarrow> rstr set \<Rightarrow> UpstreamSet \<Rightarrow> (unit, nat option \<times> UpstreamSet) rres" where
  "pick_excluding_many_from_group rnd now grp exclude us =
     (case us_groups us grp of
        None \<Rightarrow> Inr (None, us)
      | Some items \<Rightarrow>
          let candidates = filter (\<lambda>k. up_id (us_up us k) \<notin> exclude) items
          in if candidates = [] then Inr (None, us) else pick_weighted rnd now candidates grp us)"

definition find_by_id :: "rstr \<Rightarrow> UpstreamSet \<Rightarrow> nat option" where
  "find_by_id i us = find (\<lambda>k. up_id (us_up us k) = i) [0..<length (us_all_items us)]"

definition us_update :: "nat \<Rightarrow> (Upstream \<Rightarrow> Upstream) \<Rightarrow> UpstreamSet \<Rightarrow> UpstreamSet" where
  "us_update k f us = us\<lparr>us_all_items := (us_all_items us)[k := f (us_up us k)]\<rparr>"

section \<open>Invariant\<close>

definition us_wf :: "UpstreamSet \<Rightarrow> bool" where
  "us_wf us \<longleftrightarrow>
     (\<forall>items \<in> ran (us_groups us). \<forall>k \<in> set items. k < length (us_all_items us)) \<and>
     (\<forall>up \<in> set (us_all_items us). upstream_ok up) \<and>
     pred_option ps_wf (us_pick_stats us)"

text \<open>What the process does with the set: picks, and steps of single upstreams.\<close>

inductive us_step :: "UpstreamSet \<Rightarrow> UpstreamSet \<Rightarrow> bool" where
  pick: "fastrand_ok rnd \<Longrightarrow> pick_excluding_many_from_group rnd now grp exclude us = Inr (r, us') \<Longrightarrow> us_step us us'"
| pick_group: "fastrand_ok rnd \<Longrightarrow> pick_from_group rnd now grp us = Inr (r, us') \<Longrightarrow> us_step us us'"
| upstream: "k < length (us_all_items us) \<Longrightarrow> upstream_step (us_up us k) up' \<Longrightarrow> us_step us (us_update k (\<lambda>_. up') us)"

inductive us_reachable :: "UpstreamSet \<Rightarrow> UpstreamSet \<Rightarrow> bool" for us0 where
  start: "us_reachable us0 us0"
| step: "us_reachable us0 us \<Longrightarrow> us_step us us' \<Longrightarrow> us_reachable us0 us'"

lemma fold_push_group_ran:
  "\<forall>items \<in> ran m. \<forall>j \<in> set items. j < n \<Longrightarrow> k < n \<Longrightarrow>
   \<forall>items \<in> ran (fold (push_group k) gs m). \<forall>j \<in> set items. j < n"
proof (induction gs arbitrary: m)
  case (Cons g gs)
  have "\<forall>items \<in> ran (push_group k g m). \<forall>j \<in> set items. j < n"
    using Cons.prems by (auto simp: push_group_def ran_def split: option.splits if_splits)
  with Cons show ?case by simp
qed simp

lemma group_index_bound: "items \<in> ran (group_index ups) \<Longrightarrow> k \<in> set items \<Longrightarrow> k < length ups"
proof -
  have "\<forall>items \<in> ran (fold (\<lambda>(k, up). fold (push_group k) (up_groups up)) kus m). \<forall>j \<in> set items. j < n"
    if "\<forall>items \<in> ran m. \<forall>j \<in> set items. j < n" "\<forall>(k, up) \<in> set kus. k < n" for kus m n
    using that
  proof (induction kus arbitrary: m)
    case (Cons ku kus)
    obtain k up where ku: "ku = (k, up)" by fastforce
    have "\<forall>items \<in> ran (fold (push_group k) (up_groups up) m). \<forall>j \<in> set items. j < n"
      using Cons.prems by (intro fold_push_group_ran) (auto simp: ku)
    from Cons.IH [OF this] Cons.prems show ?case by (auto simp: ku)
  qed simp
  moreover have "\<forall>(k, up) \<in> set (zip [0..<length ups] ups). k < length ups"
    by (auto dest: set_zip_leftD)
  ultimately have "\<forall>items \<in> ran (group_index ups). \<forall>j \<in> set items. j < length ups"
    unfolding group_index_def by (metis empty_iff ran_empty)
  then show "items \<in> ran (group_index ups) \<Longrightarrow> k \<in> set items \<Longrightarrow> k < length ups"
    by blast
qed

lemma us_wf_new:
  assumes "upstream_set_new items tol qw stale win = Some us" and "\<forall>up \<in> set items. upstream_ok up"
    and "stale < 2 ^ 64"
  shows "us_wf us"
proof -
  have "upstream_ok (set_quic_stale_secs stale (set_quic_weight qw up))" if "up \<in> set items" for up
    using assms(2,3) that by (auto simp: upstream_ok_def set_quic_stale_secs_def set_quic_weight_def)
  then show ?thesis
    using assms(1) group_index_bound [of _ items]
    by (auto simp: upstream_set_new_def us_wf_def ps_wf_new split: if_splits)
qed

text \<open>The frame of a pick: it writes only the current choice and the statistics.\<close>

definition same_upstreams :: "UpstreamSet \<Rightarrow> UpstreamSet \<Rightarrow> bool" where
  "same_upstreams us us' \<longleftrightarrow>
     us_groups us' = us_groups us \<and> us_all_items us' = us_all_items us \<and> us_tolerance us' = us_tolerance us"

lemma record_pick_stats_ok:
  assumes "us_wf us"
  shows "\<exists>us'. record_pick_stats now k us = Inr us' \<and> us_wf us' \<and> same_upstreams us us' \<and> us_current us' = us_current us"
proof (cases "us_pick_stats us")
  case (Some stats)
  with assms have "ps_wf stats" by (simp add: us_wf_def)
  then obtain known stats' where "record_by_id now (up_id (us_up us k)) stats = Inr (known, stats')" "ps_wf stats'"
    using record_by_id_wf by blast
  with Some assms show ?thesis by (simp add: record_pick_stats_def us_wf_def same_upstreams_def)
qed (use assms in \<open>simp add: record_pick_stats_def same_upstreams_def\<close>)

lemma us_wf_current [simp]: "us_wf (us\<lparr>us_current := c\<rparr>) = us_wf us"
  by (simp add: us_wf_def)

lemma commit_pick_ok:
  assumes "us_wf us"
  shows "\<exists>us'. commit_pick now grp k us = Inr (Some k, us') \<and> us_wf us' \<and> same_upstreams us us' \<and>
    us_current us' grp = Some (Some (up_id (us_up us k)))"
proof -
  let ?us = "us\<lparr>us_current := (us_current us)(grp \<mapsto> Some (up_id (us_up us k)))\<rparr>"
  obtain us' where "record_pick_stats now k ?us = Inr us'" "us_wf us'" "same_upstreams ?us us'"
      "us_current us' = us_current ?us"
    using record_pick_stats_ok [of ?us now k] assms by auto
  then show ?thesis by (simp add: commit_pick_def same_upstreams_def)
qed

lemma weighted_index_Some: "weighted_index ws r = Some i \<Longrightarrow> i < length ws"
  by (induction ws r arbitrary: i rule: weighted_index.induct) (auto split: if_splits)

lemma choose_weighted_mem:
  assumes "items \<noteq> []" and "fastrand_ok rnd"
  shows "\<exists>k \<in> set items. choose_weighted rnd now items us = Inr k"
  using assms weighted_index_Some [of "pick_weights now items us"]
  by (auto simp: choose_weighted_def Let_def fastrand_ok_def idx_def pick_weights_def split: option.split)

lemma max_by_key_mem: "xs \<noteq> [] \<Longrightarrow> \<exists>m \<in> set xs. max_by_key f xs = Some m \<and> (\<forall>x \<in> set xs. f x \<le> f m)"
proof (induction xs rule: rev_induct)
  case (snoc y ys)
  show ?case
  proof (cases ys)
    case (Cons x xs)
    with snoc obtain m where m: "m \<in> set ys" "max_by_key f ys = Some m" "\<forall>x \<in> set ys. f x \<le> f m" by auto
    then have "max_by_key f (ys @ [y]) = Some (if f m \<le> f y then y else m)" by (simp add: Cons)
    with m show ?thesis by fastforce
  qed simp
qed simp

lemma sticky_upstream_Some:
  "sticky_upstream items grp us = Some k \<Longrightarrow>
   k \<in> set items \<and> us_current us grp = Some (Some (up_id (us_up us k)))"
  by (auto simp: sticky_upstream_def find_Some_iff split: option.splits)

text \<open>A pick succeeded: no panic, a reference among the candidates, only choice and statistics written.\<close>

definition picked :: "nat list \<Rightarrow> rstr \<Rightarrow> UpstreamSet \<Rightarrow> (unit, nat option \<times> UpstreamSet) rres \<Rightarrow> bool" where
  "picked items grp us res \<longleftrightarrow>
     (\<exists>k us'. res = Inr (Some k, us') \<and> k \<in> set items \<and> us_wf us' \<and> same_upstreams us us' \<and>
        us_current us' grp = Some (Some (up_id (us_up us k))))"

lemma picked_commit: "us_wf us \<Longrightarrow> j \<in> set items \<Longrightarrow> picked items grp us (commit_pick now grp j us)"
  using commit_pick_ok [of us now grp j] by (auto simp: picked_def)

lemma picked_reselect:
  "us_wf us \<Longrightarrow> fastrand_ok rnd \<Longrightarrow> items \<noteq> [] \<Longrightarrow>
   picked items grp us (bindR (choose_weighted rnd now items us) (\<lambda>k. commit_pick now grp k us))"
  using choose_weighted_mem [of items rnd now us] picked_commit by fastforce

lemma picked_sticky:
  assumes "us_wf us" and "sticky_upstream items grp us = Some cur"
  shows "picked items grp us (bindR (record_pick_stats now cur us) (\<lambda>us. Inr (Some cur, us)))"
  using record_pick_stats_ok [OF assms(1), of now cur] sticky_upstream_Some [OF assms(2)] by (auto simp: picked_def)

lemma pick_weighted_ok:
  assumes "us_wf us" and "fastrand_ok rnd" and "items \<noteq> []"
  shows "picked items grp us (pick_weighted rnd now items grp us)"
proof -
  let ?uninit = "filter (\<lambda>k. \<not> up_tcp_score_initialized (us_up us k)) items"
  obtain best where best: "max_by_key (\<lambda>k. effective_score_at (us_up us k) now) items = Some best"
    using max_by_key_mem [OF assms(3)] by blast
  have "?uninit \<noteq> [] \<Longrightarrow> fr_usize rnd (length ?uninit) < length ?uninit" using assms(2) by (auto simp: fastrand_ok_def)
  then have r: "?uninit \<noteq> [] \<Longrightarrow> idx ?uninit (fr_usize rnd (length ?uninit)) = Inr (?uninit ! fr_usize rnd (length ?uninit)) \<and>
      ?uninit ! fr_usize rnd (length ?uninit) \<in> set items"
    using nth_mem by (force simp: idx_def)
  have explore: "picked items grp us (bindR (idx ?uninit (fr_usize rnd (length ?uninit))) (\<lambda>k. commit_pick now grp k us))"
    if "?uninit \<noteq> []"
    unfolding conjunct1 [OF r [OF that]] bindR_simps by (rule picked_commit [OF assms(1) conjunct2 [OF r [OF that]]])
  have "idx items 0 = Inr (items ! 0)" "items ! 0 \<in> set items" using assms(3) by (simp_all add: idx_def)
  moreover have "0 < length items" using assms(3) by simp
  ultimately show ?thesis
    unfolding pick_weighted_def Let_def best
    using explore picked_commit [OF assms(1)] picked_reselect [OF assms] picked_sticky [OF assms(1)]
    by (simp split: option.split)
qed

lemma pick_from_group_ok:
  assumes "us_wf us" and "fastrand_ok rnd"
  shows "case us_groups us grp of
      None \<Rightarrow> pick_from_group rnd now grp us = Inr (None, us)
    | Some items \<Rightarrow> if items = [] then pick_from_group rnd now grp us = Inr (None, us)
                    else picked items grp us (pick_from_group rnd now grp us)"
  using pick_weighted_ok [OF assms, of _ grp now] by (auto simp: pick_from_group_def pick_weighted_def split: option.split)

lemma pick_excluding_ok:
  assumes "us_wf us" and "fastrand_ok rnd"
  shows "case us_groups us grp of
      None \<Rightarrow> pick_excluding_many_from_group rnd now grp exclude us = Inr (None, us)
    | Some items \<Rightarrow>
        let candidates = filter (\<lambda>k. up_id (us_up us k) \<notin> exclude) items
        in if candidates = [] then pick_excluding_many_from_group rnd now grp exclude us = Inr (None, us)
           else picked candidates grp us (pick_excluding_many_from_group rnd now grp exclude us)"
  using pick_weighted_ok [OF assms, of _ grp now]
  by (simp add: pick_excluding_many_from_group_def Let_def split: option.split)

lemma us_step_wf: "us_step us us' \<Longrightarrow> us_wf us \<Longrightarrow> us_wf us'"
proof (induction rule: us_step.induct)
  case (pick rnd now grp exclude us r us')
  then show ?case using pick_excluding_ok [OF pick(3,1), where grp = grp and now = now and exclude = exclude]
    by (auto simp: picked_def Let_def split: option.splits if_splits)
next
  case (pick_group rnd now grp us r us')
  then show ?case using pick_from_group_ok [OF pick_group(3,1), where grp = grp and now = now]
    by (auto simp: picked_def split: option.splits if_splits)
next
  case (upstream k us up')
  have "upstream_ok (us_up us k)" using upstream(1,3) by (simp add: us_wf_def)
  then have "upstream_ok up'" using upstream_step_ok [OF upstream(2)] by simp
  with upstream(3) show ?case by (auto simp: us_wf_def us_update_def dest!: subsetD [OF set_update_subset_insert])
qed

lemma us_reachable_wf: "us_reachable us0 us \<Longrightarrow> us_wf us0 \<Longrightarrow> us_wf us"
  by (induction rule: us_reachable.induct) (auto intro: us_step_wf)

section \<open>The law of the weighted choice\<close>

lemma weighted_index_total: "r < sum_list ws \<Longrightarrow> \<exists>i. weighted_index ws r = Some i"
  by (induction ws r rule: weighted_index.induct) auto

lemma weighted_index_card:
  "i < length ws \<Longrightarrow> card {r. r < sum_list ws \<and> weighted_index ws r = Some i} = ws ! i"
proof (induction ws arbitrary: i)
  case (Cons w ws)
  show ?case
  proof (cases i)
    case 0
    have "{r. r < sum_list (w # ws) \<and> weighted_index (w # ws) r = Some 0} = {..<w}" by auto
    then show ?thesis by (simp add: 0)
  next
    case (Suc j)
    have "{r. r < sum_list (w # ws) \<and> weighted_index (w # ws) r = Some (Suc j)} =
        (\<lambda>r. r + w) ` {r. r < sum_list ws \<and> weighted_index ws r = Some j}"
      by (auto simp: image_iff split: if_splits intro: exI [where x = "_ - w"] less_diff_conv2 [THEN iffD2])
        (metis add.commute le_add_diff_inverse less_diff_conv2 linorder_not_less)
    moreover have "inj (\<lambda>r. r + w)" by (simp add: inj_on_def)
    ultimately show ?thesis using Cons by (simp add: Suc card_image)
  qed
qed simp

section \<open>Groups\<close>

definition listed :: "(rstr \<rightharpoonup> nat list) \<Rightarrow> rstr \<Rightarrow> nat list" where
  "listed m grp = (case m grp of None \<Rightarrow> [] | Some ks \<Rightarrow> ks)"

definition members :: "UpstreamSet \<Rightarrow> rstr \<Rightarrow> nat list" where
  "members us grp = listed (us_groups us) grp"

lemma fold_push_group_listed:
  "set (listed (fold (push_group k) gs m) grp) = set (listed m grp) \<union> (if grp \<in> set gs then {k} else {})"
proof (induction gs arbitrary: m)
  case (Cons g gs)
  have "set (listed (push_group k g m) grp) = set (listed m grp) \<union> (if grp = g then {k} else {})"
    by (auto simp: push_group_def listed_def)
  with Cons show ?case by auto
qed simp

lemma in_set_enumerated: "(k, up) \<in> set (zip [0..<length ups] ups) \<longleftrightarrow> k < length ups \<and> up = ups ! k"
  by (auto simp: in_set_zip intro: exI [of _ k])

lemma group_index_listed:
  "set (listed (group_index ups) grp) = {k. k < length ups \<and> grp \<in> set (up_groups (ups ! k))}"
proof -
  have "set (listed (fold (\<lambda>(k, up). fold (push_group k) (up_groups up)) kus m) grp) =
      set (listed m grp) \<union> {k. \<exists>up. (k, up) \<in> set kus \<and> grp \<in> set (up_groups up)}" for kus m
  proof (induction kus arbitrary: m)
    case (Cons ku kus)
    then show ?case by (cases ku) (auto simp: fold_push_group_listed)
  qed simp
  from this [of "zip [0..<length ups] ups" Map.empty] show ?thesis
    by (auto simp: group_index_def in_set_enumerated listed_def [of Map.empty])
qed

text \<open>Identity and groups of the upstreams never change.\<close>

definition us_fixed :: "UpstreamSet \<Rightarrow> (rstr \<times> rstr list) list \<times> (rstr \<rightharpoonup> nat list) \<times> nat" where
  "us_fixed us = (map (\<lambda>up. (up_id up, up_groups up)) (us_all_items us), us_groups us, us_tolerance us)"

lemma upstream_step_fixed: "upstream_step up up' \<Longrightarrow> up_id up' = up_id up \<and> up_groups up' = up_groups up"
  by (erule upstream_stepE)
    (simp_all add: set_quic_weight_def set_quic_stale_secs_def track_def score_tick_def store_throughput_def
       apply_report_def set_probe_quality_def update_uplink_score_def update_downlink_score_def
       health_check_step_def penalize_def store_relative_def Let_def split: prod.split option.split)

lemma same_upstreams_fixed: "same_upstreams us us' \<Longrightarrow> us_fixed us' = us_fixed us"
  by (simp add: same_upstreams_def us_fixed_def)

lemma us_step_fixed: "us_step us us' \<Longrightarrow> us_wf us \<Longrightarrow> us_fixed us' = us_fixed us"
proof (induction rule: us_step.induct)
  case (pick rnd now grp exclude us r us')
  then show ?case
    using pick_excluding_ok [OF pick(3,1), where grp = grp and now = now and exclude = exclude] same_upstreams_fixed
    by (auto simp: picked_def Let_def split: option.splits if_splits)
next
  case (pick_group rnd now grp us r us')
  then show ?case
    using pick_from_group_ok [OF pick_group(3,1), where grp = grp and now = now] same_upstreams_fixed
    by (auto simp: picked_def split: option.splits if_splits)
next
  case (upstream k us up')
  then show ?case
    using upstream_step_fixed [OF upstream(2)]
    by (simp add: us_fixed_def us_update_def map_update list_update_same_conv)
qed

lemma us_reachable_fixed: "us_reachable us0 us \<Longrightarrow> us_wf us0 \<Longrightarrow> us_fixed us = us_fixed us0"
  by (induction rule: us_reachable.induct) (auto simp: us_step_fixed us_reachable_wf)

text \<open>A set in use: built from configured upstreams, then stepped any number of times.\<close>

definition us_live :: "UpstreamSet \<Rightarrow> bool" where
  "us_live us \<longleftrightarrow>
     (\<exists>us0 items tol qw stale win. upstream_set_new items tol qw stale win = Some us0 \<and>
        (\<forall>up \<in> set items. \<exists>i addr grps gain. up = upstream_new i addr grps gain) \<and>
        tol < 2 ^ 32 \<and> stale < 2 ^ 64 \<and> us_reachable us0 us)"

lemma us_liveD:
  assumes "us_live us"
  shows "us_wf us" and "set (members us grp) = {k. k < length (us_all_items us) \<and> grp \<in> set (up_groups (us_up us k))}"
    and "us_tolerance us < 2 ^ 32"
proof -
  from assms obtain us0 items tol qw stale win where new: "upstream_set_new items tol qw stale win = Some us0"
      and items: "\<forall>up \<in> set items. \<exists>i addr grps gain. up = upstream_new i addr grps gain"
      and st: "tol < 2 ^ 32" "stale < 2 ^ 64" "us_reachable us0 us"
    by (auto simp: us_live_def)
  have wf0: "us_wf us0" using us_wf_new [OF new _ st(2)] items by fastforce
  then show "us_wf us" using us_reachable_wf [OF st(3)] by blast
  have f: "us_fixed us = us_fixed us0" using us_reachable_fixed [OF st(3) wf0] .
  then have "map up_groups (us_all_items us) = map up_groups (us_all_items us0)"
    by (auto simp: us_fixed_def list_eq_iff_nth_eq)
  moreover have "map up_groups (us_all_items us0) = map up_groups items"
    using new by (auto simp: upstream_set_new_def set_quic_stale_secs_def set_quic_weight_def split: if_splits)
  ultimately have g: "map up_groups (us_all_items us) = map up_groups items" by simp
  then have len: "length items = length (us_all_items us)" by (metis length_map)
  have nth: "up_groups (items ! k) = up_groups (us_up us k)" if "k < length items" for k
    using g that len by (metis nth_map)
  have "us_groups us = group_index items" "us_tolerance us = tol"
    using f new by (auto simp: us_fixed_def upstream_set_new_def split: if_splits)
  then show "us_tolerance us < 2 ^ 32"
      and "set (members us grp) = {k. k < length (us_all_items us) \<and> grp \<in> set (up_groups (us_up us k))}"
    using group_index_listed [of items grp] st(1) len nth by (auto simp: members_def)
qed

lemma us_reachable_trans: "us_reachable us1 us2 \<Longrightarrow> us_reachable us0 us1 \<Longrightarrow> us_reachable us0 us2"
  by (induction rule: us_reachable.induct) (auto intro: us_reachable.step)

lemma us_live_reachable: "us_live us \<Longrightarrow> us_reachable us us' \<Longrightarrow> us_live us' \<and> us_fixed us' = us_fixed us"
proof
  assume live: "us_live us" and r: "us_reachable us us'"
  from live obtain us0 items tol qw stale win where "upstream_set_new items tol qw stale win = Some us0"
      "\<forall>up \<in> set items. \<exists>i addr grps gain. up = upstream_new i addr grps gain" "tol < 2 ^ 32" "stale < 2 ^ 64"
      "us_reachable us0 us"
    by (auto simp: us_live_def)
  with us_reachable_trans [OF r] show "us_live us'" unfolding us_live_def by blast
  show "us_fixed us' = us_fixed us" by (rule us_reachable_fixed [OF r us_liveD(1) [OF live]])
qed

section \<open>The interface of the pickers\<close>

text \<open>
  What a client of the set relies on: a pick never panics, finds one of the candidates whenever there is
  one, and leaves a set that the process can reach, with the same upstreams.
\<close>

locale upstream_picker =
  fixes pick_one :: "fastrand \<Rightarrow> nat \<Rightarrow> UpstreamSet \<Rightarrow> (unit, nat option \<times> UpstreamSet) rres"
    and candidates :: "UpstreamSet \<Rightarrow> nat list"
  assumes picks: "us_live us \<Longrightarrow> fastrand_ok rnd \<Longrightarrow>
    candidates us = [] \<and> pick_one rnd now us = Inr (None, us) \<or>
    (\<exists>k us'. pick_one rnd now us = Inr (Some k, us') \<and> k \<in> set (candidates us) \<and> us_reachable us us' \<and>
       us_all_items us' = us_all_items us)"
begin

lemma pick_cases:
  assumes "us_live us" "fastrand_ok rnd"
  obtains (none) "candidates us = []" "pick_one rnd now us = Inr (None, us)"
    | (some) k us' where "pick_one rnd now us = Inr (Some k, us')" "k \<in> set (candidates us)" "us_reachable us us'"
        "us_all_items us' = us_all_items us" "us_live us'"
  using picks [OF assms] us_live_reachable [OF assms(1)] by blast

end

text \<open>A picker with a second one to fall back to is a picker again.\<close>

definition pick_or_else ::
  "(fastrand \<Rightarrow> nat \<Rightarrow> UpstreamSet \<Rightarrow> (unit, nat option \<times> UpstreamSet) rres) \<Rightarrow>
   (fastrand \<Rightarrow> nat \<Rightarrow> UpstreamSet \<Rightarrow> (unit, nat option \<times> UpstreamSet) rres) \<Rightarrow>
   fastrand \<Rightarrow> nat \<Rightarrow> UpstreamSet \<Rightarrow> (unit, nat option \<times> UpstreamSet) rres" where
  "pick_or_else p q rnd now us =
     bindR (p rnd now us) (\<lambda>(up, us). case up of Some k \<Rightarrow> Inr (Some k, us) | None \<Rightarrow> q rnd now us)"

locale picker_with_fallback = first: upstream_picker p c + second: upstream_picker q d for p c q d

sublocale picker_with_fallback < upstream_picker "pick_or_else p q" "\<lambda>us. if c us = [] then d us else c us"
proof unfold_locales
  fix us rnd now
  assume live: "us_live us" "fastrand_ok rnd"
  show "(if c us = [] then d us else c us) = [] \<and> pick_or_else p q rnd now us = Inr (None, us) \<or>
    (\<exists>k us'. pick_or_else p q rnd now us = Inr (Some k, us') \<and> k \<in> set (if c us = [] then d us else c us) \<and>
       us_reachable us us' \<and> us_all_items us' = us_all_items us)"
    using first.picks [OF live, of now] second.picks [OF live, of now] by (auto simp: pick_or_else_def)
qed

lemma group_pick_law:
  assumes "us_live us" "fastrand_ok rnd"
  shows "members us grp = [] \<and> pick_from_group rnd now grp us = Inr (None, us) \<or>
    (\<exists>k us'. pick_from_group rnd now grp us = Inr (Some k, us') \<and> k \<in> set (members us grp) \<and> us_reachable us us' \<and>
       us_all_items us' = us_all_items us)"
proof -
  have "us_reachable us us'" if "pick_from_group rnd now grp us = Inr (r, us')" for r us'
    using us_reachable.step [OF us_reachable.start us_step.pick_group [OF assms(2) that]] .
  with pick_from_group_ok [OF us_liveD(1) [OF assms(1)] assms(2), where grp = grp and now = now] show ?thesis
    by (auto simp: members_def listed_def picked_def same_upstreams_def split: option.splits if_splits)
qed

interpretation group_picker: upstream_picker "\<lambda>rnd now. pick_from_group rnd now grp" "\<lambda>us. members us grp"
  by unfold_locales (rule group_pick_law)

lemma excluding_pick_law:
  assumes "us_live us" "fastrand_ok rnd"
  shows "filter (\<lambda>k. up_id (us_up us k) \<notin> exclude) (members us grp) = [] \<and>
      pick_excluding_many_from_group rnd now grp exclude us = Inr (None, us) \<or>
    (\<exists>k us'. pick_excluding_many_from_group rnd now grp exclude us = Inr (Some k, us') \<and>
       k \<in> set (filter (\<lambda>k. up_id (us_up us k) \<notin> exclude) (members us grp)) \<and> us_reachable us us' \<and>
       us_all_items us' = us_all_items us)"
proof -
  have "us_reachable us us'" if "pick_excluding_many_from_group rnd now grp exclude us = Inr (r, us')" for r us'
    using us_reachable.step [OF us_reachable.start us_step.pick [OF assms(2) that]] .
  with pick_excluding_ok [OF us_liveD(1) [OF assms(1)] assms(2), where grp = grp and now = now and exclude = exclude] show ?thesis
    by (auto simp: members_def listed_def picked_def same_upstreams_def Let_def split: option.splits if_splits)
qed

interpretation excluding_picker: upstream_picker
  "\<lambda>rnd now. pick_excluding_many_from_group rnd now grp exclude"
  "\<lambda>us. filter (\<lambda>k. up_id (us_up us k) \<notin> exclude) (members us grp)"
  by unfold_locales (rule excluding_pick_law)

lemma pick_default: "pick = (\<lambda>rnd now. pick_from_group rnd now ''default'')"
  by (simp add: pick_def fun_eq_iff)

interpretation group_then_default: picker_with_fallback
  "\<lambda>rnd now. pick_from_group rnd now grp" "\<lambda>us. members us grp" pick "\<lambda>us. members us ''default''"
  by (simp add: picker_with_fallback_def pick_default group_picker.upstream_picker_axioms)

section \<open>Properties\<close>

lemma effective_le: "effective_score_at up now \<le> 10000000"
proof (cases "f64_mul (f64_of_nat (score_at up now)) (up_gain up) = NaN")
  case False
  then have "f64_le (f64_clamp (f64_mul (f64_of_nat (score_at up now)) (up_gain up)) (Fin 1) (Fin 10000000)) (Fin (of_nat 10000000))"
    using f64_clamp_between [OF False, of 1 10000000] by simp
  then show ?thesis unfolding effective_score_at_def f64_as_u64_def by (rule f64_as_nat_le_int)
qed (simp add: effective_score_at_def f64_clamp_def f64_as_u64_def f64_as_nat_def)

text \<open>
  C34: Choosing an upstream for a group, with any upstreams excluded, never panics and never changes a
  score. It fails exactly when no configured upstream of the group is outside the excluded set;
  otherwise the chosen upstream is one of those, and it becomes the current one of the group.
\<close>

theorem pick_excluding_correct:
  assumes "us_live us" and "fastrand_ok rnd"
  shows "\<exists>r us'. pick_excluding_many_from_group rnd now grp exclude us = Inr (r, us') \<and>
    us_all_items us' = us_all_items us \<and>
    (let candidates = {k. k < length (us_all_items us) \<and> grp \<in> set (up_groups (us_up us k)) \<and>
                          up_id (us_up us k) \<notin> exclude}
     in case r of
          None \<Rightarrow> candidates = {}
        | Some k \<Rightarrow> k \<in> candidates \<and> us_current us' grp = Some (Some (up_id (us_up us k))))"
proof -
  note live = us_liveD [OF assms(1)]
  let ?cs = "filter (\<lambda>k. up_id (us_up us k) \<notin> exclude) (members us grp)"
  have cs: "set ?cs = {k. k < length (us_all_items us) \<and> grp \<in> set (up_groups (us_up us k)) \<and> up_id (us_up us k) \<notin> exclude}"
    using live(2) by auto
  show ?thesis
  proof (cases "?cs = []")
    case True
    then have "pick_excluding_many_from_group rnd now grp exclude us = Inr (None, us)"
      by (auto simp: pick_excluding_many_from_group_def members_def listed_def Let_def split: option.splits)
    then show ?thesis using cs unfolding True by (auto simp: Let_def)
  next
    case False
    then have "pick_excluding_many_from_group rnd now grp exclude us = pick_weighted rnd now ?cs grp us"
      by (auto simp: pick_excluding_many_from_group_def members_def listed_def Let_def split: option.splits)
    with pick_weighted_ok [OF live(1) assms(2) False, of grp now] show ?thesis
      unfolding picked_def same_upstreams_def cs by (auto simp: Let_def)
  qed
qed

text \<open>
  Hysteresis. With a switch tolerance, outside exploration, the current upstream of a group is
  kept as long as no member of the group has an effective score above its own by more than the
  tolerance.
\<close>

theorem pick_keeps_sticky:
  assumes "us_live us" and "0 < us_tolerance us" and "\<not> fr_explore rnd" and "fastrand_ok rnd"
    and "cur \<in> set (members us grp)" and "us_current us grp = Some (Some (up_id (us_up us cur)))"
    and "distinct (map up_id (us_all_items us))"
    and "\<forall>k \<in> set (members us grp). effective_score_at (us_up us k) now \<le> effective_score_at (us_up us cur) now + us_tolerance us"
  shows "\<exists>us'. pick_from_group rnd now grp us = Inr (Some cur, us') \<and> us_all_items us' = us_all_items us"
proof -
  note live = us_liveD [OF assms(1)]
  let ?items = "members us grp"
  have ne: "?items \<noteq> []" using assms(5) by auto
  then have pf: "pick_from_group rnd now grp us = pick_weighted rnd now ?items grp us"
    by (auto simp: pick_from_group_def members_def listed_def split: option.splits)
  have inj: "k = cur" if "k \<in> set ?items" "up_id (us_up us k) = up_id (us_up us cur)" for k
    using that assms(5,7) live(2) [of grp] by (metis (no_types, lifting) length_map mem_Collect_eq nth_eq_iff_index_eq nth_map)
  have "find (\<lambda>k. up_id (us_up us k) = up_id (us_up us cur)) ?items = Some cur"
  proof -
    obtain k where k: "find (\<lambda>k. up_id (us_up us k) = up_id (us_up us cur)) ?items = Some k"
      using find_not_None [OF assms(5), of "\<lambda>k. up_id (us_up us k) = up_id (us_up us cur)"] by auto
    then have "k \<in> set ?items" "up_id (us_up us k) = up_id (us_up us cur)" by (auto dest: find_SomeD)
    with inj k show ?thesis by simp
  qed
  then have st: "sticky_upstream ?items grp us = Some cur" by (simp add: sticky_upstream_def assms(6))
  obtain best where best: "best \<in> set ?items" "max_by_key (\<lambda>k. effective_score_at (us_up us k) now) ?items = Some best"
    using max_by_key_mem [OF ne] by blast
  have "w64 (effective_score_at (us_up us cur) now + us_tolerance us) = effective_score_at (us_up us cur) now + us_tolerance us"
    using effective_le [of "us_up us cur" now] live(3) by (intro w64_id) simp
  with best assms(8) have keep: "\<not> w64 (effective_score_at (us_up us cur) now + us_tolerance us) < effective_score_at (us_up us best) now"
    by (simp add: not_less)
  obtain us1 where us1: "record_pick_stats now cur us = Inr us1" "same_upstreams us us1"
    using record_pick_stats_ok [OF live(1)] by blast
  show ?thesis
  proof (cases "length ?items = 1")
    case True
    then have "?items ! 0 = cur" using assms(5) by (auto simp: length_Suc_conv)
    then show ?thesis
      using True pf commit_pick_ok [OF live(1), of now grp cur] by (auto simp: pick_weighted_def same_upstreams_def)
  next
    case False
    then have "pick_weighted rnd now ?items grp us = Inr (Some cur, us1)"
      using ne assms(2,3) best keep us1 st by (simp add: pick_weighted_def Let_def)
    then show ?thesis using pf us1(2) by (simp add: same_upstreams_def)
  qed
qed

text \<open>
  C35: The weighted choice follows the squared effective scores exactly. In a group of at least two
  upstreams, without tolerance and outside exploration, the number of draws that choose an upstream,
  among all draws below the total weight, is the square of its effective score; no computation of
  the weights wraps.
\<close>

theorem weighted_pick_law:
  assumes "us_live us" and "us_tolerance us = 0" and "\<not> fr_explore rnd"
    and "distinct (members us grp)" and "2 \<le> length (members us grp)" and "length (members us grp) \<le> 100000"
    and "k \<in> set (members us grp)"
  shows "card {r. r < (\<Sum>j \<leftarrow> members us grp. (effective_score_at (us_up us j) now)\<^sup>2) \<and>
      (\<exists>us'. pick_from_group (rnd\<lparr>fr_u64 := \<lambda>_. r\<rparr>) now grp us = Inr (Some k, us'))}
    = (effective_score_at (us_up us k) now)\<^sup>2"
proof -
  note live = us_liveD [OF assms(1)]
  let ?items = "members us grp" and ?w = "\<lambda>j. (effective_score_at (us_up us j) now)\<^sup>2"
  have sq: "?w j \<le> 100000000000000" for j
    using power_mono [OF effective_le [of "us_up us j" now], of 2] by simp
  have "w64 (?w j) = ?w j" for j using sq [of j] by (intro w64_id) simp
  then have ws: "pick_weights now ?items us = map ?w ?items"
    by (simp add: pick_weights_def Let_def power2_eq_square)
  have "sum_list (map ?w ?items) \<le> length ?items * 100000000000000"
    using sum_list_mono [of ?items ?w "\<lambda>_. 100000000000000"] sq by (simp add: sum_list_triv)
  then have tot: "w64 (sum_list (map ?w ?items)) = sum_list (map ?w ?items)"
    using assms(6) by (intro w64_id) simp
  obtain best where best: "max_by_key (\<lambda>k. effective_score_at (us_up us k) now) ?items = Some best"
    using max_by_key_mem [of ?items "\<lambda>k. effective_score_at (us_up us k) now"] assms(5) by force
  obtain i where i: "i < length ?items" "k = ?items ! i" using assms(7) by (auto simp: in_set_conv_nth)
  have pick: "(\<exists>us'. pick_from_group (rnd\<lparr>fr_u64 := \<lambda>_. r\<rparr>) now grp us = Inr (Some k, us')) \<longleftrightarrow>
      weighted_index (map ?w ?items) r = Some i" if r: "r < sum_list (map ?w ?items)" for r
  proof -
    let ?rnd = "rnd\<lparr>fr_u64 := \<lambda>_. r\<rparr>"
    obtain j where j: "weighted_index (map ?w ?items) r = Some j" using weighted_index_total [OF r] by blast
    then have jl: "j < length ?items" using weighted_index_Some by fastforce
    have "choose_weighted ?rnd now ?items us = Inr (?items ! j)"
      unfolding choose_weighted_def Let_def ws tot using gr_implies_not0 [OF r] j jl by (simp del: sum_list_eq_0_iff)
    moreover have "?items \<noteq> []" "length ?items \<noteq> 1" using assms(5) by auto
    ultimately have "pick_from_group ?rnd now grp us = commit_pick now grp (?items ! j) us"
      using assms(2,3) best
      by (auto simp: pick_from_group_def pick_weighted_def Let_def members_def listed_def split: option.splits)
    then show ?thesis
      using commit_pick_ok [OF live(1), of now grp "?items ! j"] j jl i nth_eq_iff_index_eq [OF assms(4)] by auto
  qed
  have "{r. r < sum_list (map ?w ?items) \<and> (\<exists>us'. pick_from_group (rnd\<lparr>fr_u64 := \<lambda>_. r\<rparr>) now grp us = Inr (Some k, us'))}
      = {r. r < sum_list (map ?w ?items) \<and> weighted_index (map ?w ?items) r = Some i}"
    using pick by blast
  then show ?thesis using weighted_index_card [of i "map ?w ?items"] i by simp
qed

section \<open>Witnesses\<close>

abbreviation two_items :: "Upstream list" where
  "two_items \<equiv>
     [upstream_new ''a'' (SocketAddr (V4 1) 1080) [''default''] (Fin 1),
      upstream_new ''b'' (SocketAddr (V4 2) 1080) [''default''] (Fin 1)]"

definition two_upstreams :: "nat \<Rightarrow> UpstreamSet" where
  "two_upstreams tolerance = the (upstream_set_new two_items tolerance 40 180 0)"

lemma two_upstreams_new: "upstream_set_new two_items tol 40 180 0 = Some (two_upstreams tol)"
  by (simp add: two_upstreams_def upstream_set_new_def)

lemma two_upstreams_simps [simp]:
  "length (us_all_items (two_upstreams tol)) = 2"
  "up_id (us_up (two_upstreams tol) 0) = ''a''" "up_id (us_up (two_upstreams tol) (Suc 0)) = ''b''"
  "up_groups (us_up (two_upstreams tol) 0) = [''default'']" "up_groups (us_up (two_upstreams tol) (Suc 0)) = [''default'']"
  "us_tolerance (two_upstreams tol) = tol"
  "us_groups (two_upstreams tol) = [''default'' \<mapsto> [0, Suc 0]]"
  by (simp_all add: two_upstreams_def upstream_set_new_def group_index_def upstream_new_def push_group_def
      set_quic_stale_secs_def set_quic_weight_def)

lemma two_upstreams_eff:
  "effective_score_at (us_up (two_upstreams tol) (Suc 0)) now = effective_score_at (us_up (two_upstreams tol) 0) now"
  by (simp add: two_upstreams_def upstream_set_new_def upstream_new_def set_quic_stale_secs_def set_quic_weight_def
      effective_score_at_def score_at_def quic_score_effective_at_def Let_def)

lemma two_upstreams_live: "tol < 2 ^ 32 \<Longrightarrow> us_live (two_upstreams tol)"
proof -
  assume "tol < 2 ^ 32"
  moreover have "\<forall>up \<in> set two_items. \<exists>i addr grps gain. up = upstream_new i addr grps gain" by auto
  moreover have "(180 :: nat) < 2 ^ 64" by simp
  ultimately show ?thesis unfolding us_live_def using two_upstreams_new us_reachable.start by blast
qed

definition fixed_rand :: fastrand where
  "fixed_rand = \<lparr>fr_explore = False, fr_usize = \<lambda>_. 0, fr_u64 = \<lambda>_. 0\<rparr>"

lemma fixed_rand_ok [simp]: "fastrand_ok fixed_rand" "\<not> fr_explore fixed_rand"
  by (simp_all add: fixed_rand_def fastrand_ok_def)

theorem pick_excluding_correct_witness:
  "\<exists>us'. pick_excluding_many_from_group fixed_rand 7 ''default'' {''b''} (two_upstreams 0) = Inr (Some 0, us') \<and>
     us_current us' ''default'' = Some (Some ''a'')"
proof -
  have c: "{k. k < 2 \<and> ''default'' \<in> set (up_groups (us_up (two_upstreams 0) k)) \<and> up_id (us_up (two_upstreams 0) k) \<notin> {''b''}} = {0}"
    by (auto simp: less_2_cases_iff)
  show ?thesis
    using pick_excluding_correct [OF two_upstreams_live [of 0] fixed_rand_ok(1), of 7 "''default''" "{''b''}"]
    unfolding two_upstreams_simps(1) c by (auto simp: Let_def split: option.splits)
qed

theorem pick_keeps_sticky_witness:
  "\<exists>us us'. us_current us ''default'' = Some (Some ''a'') \<and>
     pick_from_group fixed_rand 7 ''default'' us = Inr (Some 0, us')"
proof -
  let ?us0 = "two_upstreams 5"
  have wf: "us_wf ?us0" using us_liveD(1) [OF two_upstreams_live [of 5]] by simp
  have "picked [0] ''default'' ?us0 (pick_excluding_many_from_group fixed_rand 3 ''default'' {''b''} ?us0)"
    using pick_excluding_ok [OF wf fixed_rand_ok(1), where grp = "''default''" and exclude = "{''b''}" and now = 3]
    by simp
  then obtain us where us: "pick_excluding_many_from_group fixed_rand 3 ''default'' {''b''} ?us0 = Inr (Some 0, us)"
      "same_upstreams ?us0 us" "us_current us ''default'' = Some (Some ''a'')"
    by (auto simp: picked_def)
  have "us_step ?us0 us" using us_step.pick [OF fixed_rand_ok(1) us(1)] .
  then have live: "us_live us"
    using two_upstreams_new [of 5] us_reachable.start [of ?us0] unfolding us_live_def
    by (intro exI [of _ ?us0] exI [of _ two_items] exI [of _ 5] exI [of _ 40] exI [of _ 180] exI [of _ 0] conjI)
      (auto intro: us_reachable.step)
  note same = us(2) [unfolded same_upstreams_def]
  have d: "distinct (map up_id (us_all_items ?us0))"
    by (simp add: two_upstreams_def upstream_set_new_def upstream_new_def set_quic_stale_secs_def set_quic_weight_def)
  have "\<exists>us'. pick_from_group fixed_rand 7 ''default'' us = Inr (Some 0, us') \<and> us_all_items us' = us_all_items us"
    by (rule pick_keeps_sticky [OF live]) (use same us(3) d in \<open>simp_all add: members_def listed_def two_upstreams_eff\<close>)
  with us(3) show ?thesis by blast
qed

theorem weighted_pick_law_witness:
  "\<exists>W. card {r. r < W \<and> (\<exists>us'. pick_from_group (fixed_rand\<lparr>fr_u64 := \<lambda>_. r\<rparr>) 7 ''default'' (two_upstreams 0) = Inr (Some 0, us'))}
     = (effective_score_at (us_up (two_upstreams 0) 0) 7)\<^sup>2 \<and>
   W = 2 * (effective_score_at (us_up (two_upstreams 0) 0) 7)\<^sup>2"
  using weighted_pick_law [OF two_upstreams_live [of 0], of fixed_rand "''default''" 0 7]
  by (simp add: members_def listed_def two_upstreams_eff mult_2)

end
