(* ===== verification/Config_Check.thy ===== *)
theory Config_Check
  imports Upstream_Set
begin

text \<open>
  What \<open>cli.rs\<close> does with a parsed configuration: the checks of \<open>Config::validate\<close>, the upstream
  set of \<open>build_upstream_set\<close>, the normalisation of geosite tags and the report of unknown keys. The
  parser of socket addresses, Unicode lower-casing and the \<open>toml\<close> crate are parameters.
\<close>

section \<open>Errors\<close>

datatype ConfigError =
  QuicWeightRange | QuicStaleRange | ZeroUdpTimeout | ZeroConnectTimeout | ZeroFailThreshold |
  PickWindowRange | ZeroRescoreInterval | BadGain rstr | NoDefaultGroup |
  BadRouteNet rstr | RouteWithoutUpstream rstr rstr | BadListen rstr | BadForwardBind rstr |
  ForwardConflict SocketAddr | NoUpstreams | EmptyUpstreamId | DuplicateUpstreamId rstr

type_synonym 'a checked = "(ConfigError, 'a) rres"

definition ensure :: "bool \<Rightarrow> ConfigError \<Rightarrow> unit checked" where
  "ensure b e = (if b then Inr () else Inl (Fail e))"

fun check_all :: "('a \<Rightarrow> unit checked) \<Rightarrow> 'a list \<Rightarrow> unit checked" where
  "check_all f [] = Inr ()"
| "check_all f (x # xs) = bindR (f x) (\<lambda>_. check_all f xs)"

section \<open>The upstream set\<close>

fun check_upstream_ids :: "rstr set \<Rightarrow> UpstreamConfig list \<Rightarrow> unit checked" where
  "check_upstream_ids ids [] = Inr ()"
| "check_upstream_ids ids (u # us) =
     (let trimmed = trim (uc_id u)
      in if trimmed = [] then Inl (Fail EmptyUpstreamId)
         else if trimmed \<in> ids then Inl (Fail (DuplicateUpstreamId trimmed))
         else check_upstream_ids (insert trimmed ids) us)"

definition upstream_of_config :: "UpstreamConfig \<Rightarrow> Upstream" where
  "upstream_of_config u =
     upstream_new (trim (uc_id u)) (uc_addr u)
       (case uc_groups u of Some grps \<Rightarrow> grps | None \<Rightarrow> [''default'']) (uc_gain u)"

definition build_upstream_set :: "Config \<Rightarrow> UpstreamSet checked" where
  "build_upstream_set c =
     (if c_upstream c = [] then Inl (Fail NoUpstreams)
      else bindR (check_upstream_ids {} (c_upstream c)) (\<lambda>_.
           ok_or (upstream_set_new (map upstream_of_config (c_upstream c)) (c_upstream_switch_tolerance c)
                    (c_quic_weight c) (c_quic_stale_secs c) (c_pick_stats_window_secs c)) NoUpstreams))"

section \<open>Validation\<close>

definition parse_listen_addr :: "(rstr \<Rightarrow> SocketAddr option) \<Rightarrow> rstr \<Rightarrow> (IpAddr \<times> u16) checked" where
  "parse_listen_addr parse_sockaddr listen =
     bindR (ok_or (parse_sockaddr listen) (BadListen listen)) (\<lambda>addr. Inr (sa_ip addr, sa_port addr))"

text \<open>The groups an upstream counts for; an empty list counts as the default group here.\<close>

definition validated_groups :: "UpstreamConfig \<Rightarrow> rstr list" where
  "validated_groups u =
     (case uc_groups u of Some g \<Rightarrow> if g \<noteq> [] then g else [''default''] | None \<Rightarrow> [''default''])"

definition group_count :: "UpstreamConfig list \<Rightarrow> rstr \<Rightarrow> nat" where
  "group_count ups g = sum_list (map (\<lambda>u. count_list (validated_groups u) g) ups)"

definition check_client_routes :: "('n4, 'n6) net_ops \<Rightarrow> (rstr \<Rightarrow> nat) \<Rightarrow> (rstr \<times> rstr) list \<Rightarrow> unit checked" where
  "check_client_routes N cnt routes =
     check_all (\<lambda>(ip_str, grp).
       bindR (ensure (parse_ip_or_cidr N ip_str \<noteq> None) (BadRouteNet ip_str)) (\<lambda>_.
       ensure (cnt grp \<noteq> 0) (RouteWithoutUpstream ip_str grp))) routes"

definition check_client_domain_routes ::
  "('n4, 'n6) net_ops \<Rightarrow> (rstr \<Rightarrow> nat) \<Rightarrow> (rstr \<times> (rstr \<times> rstr) list) list \<Rightarrow> unit checked" where
  "check_client_domain_routes N cnt routes =
     check_all (\<lambda>(ip_str, domain_map).
       bindR (ensure (parse_ip_or_cidr N ip_str \<noteq> None) (BadRouteNet ip_str)) (\<lambda>_.
       check_all (\<lambda>(domain, grp). ensure (cnt grp \<noteq> 0) (RouteWithoutUpstream ip_str grp)) domain_map)) routes"

definition check_client_dst_ip_routes ::
  "('n4, 'n6) net_ops \<Rightarrow> (rstr \<Rightarrow> nat) \<Rightarrow> (rstr \<times> (rstr \<times> rstr) list) list \<Rightarrow> unit checked" where
  "check_client_dst_ip_routes N cnt routes =
     check_all (\<lambda>(ip_str, dst_map).
       bindR (ensure (parse_ip_or_cidr N ip_str \<noteq> None) (BadRouteNet ip_str)) (\<lambda>_.
       check_all (\<lambda>(dst_str, grp).
         bindR (ensure (parse_ip_or_cidr N dst_str \<noteq> None) (BadRouteNet dst_str)) (\<lambda>_.
         ensure (cnt grp \<noteq> 0) (RouteWithoutUpstream ip_str grp))) dst_map)) routes"

definition check_groups :: "('n4, 'n6) net_ops \<Rightarrow> Config \<Rightarrow> unit checked" where
  "check_groups N c =
     (let cnt = group_count (c_upstream c);
          has_default = (cnt ''default'' \<noteq> 0);
          has_client_routes = (c_client_routes c \<noteq> [] \<or> c_client_domain_routes c \<noteq> [] \<or> c_client_dst_ip_routes c \<noteq> [])
      in bindR (ensure (has_default \<or> has_client_routes) NoDefaultGroup) (\<lambda>_.
         bindR (check_client_routes N cnt (c_client_routes c)) (\<lambda>_.
         bindR (check_client_domain_routes N cnt (c_client_domain_routes c)) (\<lambda>_.
         check_client_dst_ip_routes N cnt (c_client_dst_ip_routes c)))))"

definition check_port_forwards ::
  "(rstr \<Rightarrow> SocketAddr option) \<Rightarrow> IpAddr \<Rightarrow> u16 \<Rightarrow> PortForward list \<Rightarrow> unit checked" where
  "check_port_forwards parse_sockaddr listen_ip listen_port pfs =
     check_all (\<lambda>pf.
       bindR (ok_or (parse_sockaddr (pf_bind pf)) (BadForwardBind (pf_bind pf))) (\<lambda>bnd.
       ensure (\<not> (sa_ip bnd = listen_ip \<and> sa_port bnd = listen_port)) (ForwardConflict bnd))) pfs"

definition validate :: "('n4, 'n6) net_ops \<Rightarrow> (rstr \<Rightarrow> SocketAddr option) \<Rightarrow> Config \<Rightarrow> unit checked" where
  "validate N parse_sockaddr c =
     bindR (ensure (c_quic_weight c \<le> 100) QuicWeightRange) (\<lambda>_.
     bindR (ensure (10 \<le> c_quic_stale_secs c \<and> c_quic_stale_secs c \<le> 3600) QuicStaleRange) (\<lambda>_.
     bindR (ensure (c_udp_session_timeout_secs c \<noteq> 0) ZeroUdpTimeout) (\<lambda>_.
     bindR (ensure (c_connect_timeout_secs c \<noteq> 0) ZeroConnectTimeout) (\<lambda>_.
     bindR (ensure (\<not> (0 < c_health_check_interval_secs c \<and> c_health_check_fail_threshold c = 0)) ZeroFailThreshold) (\<lambda>_.
     bindR (ensure (c_pick_stats_window_secs c \<le> 604800) PickWindowRange) (\<lambda>_.
     bindR (ensure (\<not> (c_enable_relative_scoring c \<and> c_relative_rescore_interval_secs c = 0)) ZeroRescoreInterval) (\<lambda>_.
     bindR (check_all (\<lambda>u. ensure (f64_is_finite (uc_gain u) \<and> \<not> f64_le (uc_gain u) (Fin 0)) (BadGain (uc_id u)))
              (c_upstream c)) (\<lambda>_.
     bindR (check_groups N c) (\<lambda>_.
     bindR (parse_listen_addr parse_sockaddr (c_listen c)) (\<lambda>(listen_ip, listen_port).
     check_port_forwards parse_sockaddr listen_ip listen_port (c_port_forward c)))))))))))"

section \<open>Geosite tags\<close>

definition normalize_geosite_tag :: "(rstr \<Rightarrow> rstr) \<Rightarrow> rstr \<Rightarrow> rstr" where
  "normalize_geosite_tag to_lowercase tag =
     (let lower = to_lowercase (trim tag)
      in case strip_prefix ''geosite:'' lower of Some s \<Rightarrow> s | None \<Rightarrow> lower)"

definition normalize_geosite_tags :: "(rstr \<Rightarrow> rstr) \<Rightarrow> Config \<Rightarrow> Config" where
  "normalize_geosite_tags to_lowercase c =
     c\<lparr>c_proxy_geosite_tags := map (normalize_geosite_tag to_lowercase) (c_proxy_geosite_tags c),
       c_direct_geosite_tags := map (normalize_geosite_tag to_lowercase) (c_direct_geosite_tags c)\<rparr>"

section \<open>Unknown keys\<close>

datatype toml = TTable "(rstr \<times> toml) list" | TArray "toml list" | TLeaf

definition CONFIG_KEY_ALIASES :: "rstr list" where
  "CONFIG_KEY_ALIASES = [''udp_session_idle_timeout_secs'']"

fun as_table :: "toml \<Rightarrow> (rstr \<times> toml) list option" where
  "as_table (TTable kvs) = Some kvs"
| "as_table _ = None"

fun as_array :: "toml \<Rightarrow> toml list option" where
  "as_array (TArray xs) = Some xs"
| "as_array _ = None"

fun dec_nat :: "nat \<Rightarrow> string" where
  "dec_nat n = (if n < 10 then [char_of (48 + n)] else dec_nat (n div 10) @ [char_of (48 + n mod 10)])"

declare dec_nat.simps [simp del]

definition element_keys :: "toml list \<Rightarrow> rstr list" where
  "element_keys items = concat (map (\<lambda>v. case as_table v of Some kvs \<Rightarrow> map fst kvs | None \<Rightarrow> []) items)"

definition collect_unknown_array_table_keys :: "rstr \<Rightarrow> toml \<Rightarrow> toml \<Rightarrow> rstr list" where
  "collect_unknown_array_table_keys pre raw known =
     (case (as_array raw, as_array known) of
        (Some raw_items, Some known_items) \<Rightarrow>
          (let known_keys = element_keys known_items
           in if known_keys = [] then []
              else concat (map (\<lambda>(i, v). case as_table v of
                       None \<Rightarrow> []
                     | Some kvs \<Rightarrow>
                         map (\<lambda>k. pre @ ''['' @ dec_nat i @ ''].'' @ k)
                           (filter (\<lambda>k. k \<notin> set known_keys) (map fst kvs)))
                     (zip [0..<length raw_items] raw_items)))
      | _ \<Rightarrow> [])"

definition unknown_config_keys ::
  "(rstr \<Rightarrow> toml option) \<Rightarrow> (Config \<Rightarrow> rstr option) \<Rightarrow> rstr \<Rightarrow> Config \<Rightarrow> rstr list" where
  "unknown_config_keys from_str to_str config_str c =
     (case (Option.bind (from_str config_str) as_table,
            Option.bind (Option.bind (to_str c) from_str) as_table) of
        (Some raw, Some known) \<Rightarrow>
          concat (map (\<lambda>(key, v).
            if key \<in> set CONFIG_KEY_ALIASES then []
            else case map_of known key of
                   Some known_value \<Rightarrow> collect_unknown_array_table_keys key v known_value
                 | None \<Rightarrow> [key]) raw)
      | _ \<Rightarrow> [])"

section \<open>Lemmas\<close>

lemma ensure_ok [simp]: "ensure b e = Inr x \<longleftrightarrow> b"
  by (simp add: ensure_def)

lemma check_all_ok [simp]: "check_all f xs = Inr u \<longleftrightarrow> (\<forall>x \<in> set xs. f x = Inr ())"
  by (induction xs) auto

lemma group_count_pos:
  "group_count ups g \<noteq> 0 \<longleftrightarrow> (\<exists>u \<in> set ups. g \<in> set (validated_groups u))"
  by (induction ups) (auto simp: group_count_def count_list_0_iff)

lemma check_upstream_ids_ok:
  "check_upstream_ids ids us = Inr () \<Longrightarrow>
   distinct (map (trim \<circ> uc_id) us) \<and> (\<forall>u \<in> set us. trim (uc_id u) \<noteq> [] \<and> trim (uc_id u) \<notin> ids)"
  by (induction ids us rule: check_upstream_ids.induct) (auto simp: Let_def split: if_splits)

text \<open>Every group a client table of the configuration can lead to.\<close>

definition routed_groups :: "Config \<Rightarrow> rstr set" where
  "routed_groups c =
     snd ` set (c_client_routes c) \<union>
     (\<Union>(ip, m) \<in> set (c_client_domain_routes c). snd ` set m) \<union>
     (\<Union>(ip, m) \<in> set (c_client_dst_ip_routes c). snd ` set m)"

lemma check_groups_routed:
  assumes "check_groups N c = Inr ()" and "g \<in> routed_groups c"
  shows "group_count (c_upstream c) g \<noteq> 0"
proof -
  let ?cnt = "group_count (c_upstream c)"
  have "\<forall>(ip, g) \<in> set (c_client_routes c). ?cnt g \<noteq> 0"
    and "\<forall>(ip, m) \<in> set (c_client_domain_routes c). \<forall>(d, g) \<in> set m. ?cnt g \<noteq> 0"
    and "\<forall>(ip, m) \<in> set (c_client_dst_ip_routes c). \<forall>(d, g) \<in> set m. ?cnt g \<noteq> 0"
    using assms(1)
    by (simp_all add: check_groups_def Let_def check_client_routes_def check_client_domain_routes_def
        check_client_dst_ip_routes_def case_prod_unfold)
  with assms(2) show ?thesis by (fastforce simp: routed_groups_def)
qed

lemma validateD:
  assumes "validate N parse_sockaddr c = Inr ()"
  shows "c_quic_stale_secs c \<le> 3600" and "check_groups N c = Inr ()"
    and "\<forall>u \<in> set (c_upstream c). \<exists>g. uc_gain u = Fin g \<and> 0 < g"
proof -
  have "\<forall>u \<in> set (c_upstream c). f64_is_finite (uc_gain u) \<and> \<not> f64_le (uc_gain u) (Fin 0)"
    using assms by (auto simp: validate_def)
  then show "\<forall>u \<in> set (c_upstream c). \<exists>g. uc_gain u = Fin g \<and> 0 < g"
    by (fastforce simp: f64_is_finite_def split: f64.splits)
qed (use assms in \<open>auto simp: validate_def\<close>)

lemma build_upstream_setD:
  assumes "build_upstream_set c = Inr us"
  shows "distinct (map (trim \<circ> uc_id) (c_upstream c))"
    and "upstream_set_new (map upstream_of_config (c_upstream c)) (c_upstream_switch_tolerance c)
           (c_quic_weight c) (c_quic_stale_secs c) (c_pick_stats_window_secs c) = Some us"
  using assms check_upstream_ids_ok [of "{}" "c_upstream c"]
  by (auto simp: build_upstream_set_def ok_or_def split: if_splits option.splits)

lemma built_set_live:
  assumes "build_upstream_set c = Inr us" and "c_upstream_switch_tolerance c < 2 ^ 32"
    and "c_quic_stale_secs c < 2 ^ 64" and "us_reachable us us'"
  shows "us_live us'"
  unfolding us_live_def
  using build_upstream_setD(2) [OF assms(1)] assms(2-4)
  by (intro exI conjI) (assumption, auto simp: upstream_of_config_def)

lemma built_set_items:
  assumes "build_upstream_set c = Inr us"
  shows "us_all_items us =
    map (set_quic_stale_secs (c_quic_stale_secs c) \<circ> set_quic_weight (c_quic_weight c) \<circ> upstream_of_config) (c_upstream c)"
  using build_upstream_setD(2) [OF assms] by (auto simp: upstream_set_new_def split: if_splits)

lemma upstream_of_config_simps [simp]:
  "up_id (upstream_of_config u) = trim (uc_id u)"
  "up_groups (upstream_of_config u) = (case uc_groups u of Some grps \<Rightarrow> grps | None \<Rightarrow> [''default''])"
  "up_gain (upstream_of_config u) = uc_gain u"
  by (simp_all add: upstream_of_config_def upstream_new_def)

lemma set_quic_simps [simp]:
  "up_id (set_quic_stale_secs n up) = up_id up" "up_groups (set_quic_stale_secs n up) = up_groups up"
  "up_gain (set_quic_stale_secs n up) = up_gain up"
  "up_id (set_quic_weight n up) = up_id up" "up_groups (set_quic_weight n up) = up_groups up"
  "up_gain (set_quic_weight n up) = up_gain up"
  by (simp_all add: set_quic_stale_secs_def set_quic_weight_def)

text \<open>A group with a counted upstream has a member in the built set, unless its list of groups is empty.\<close>

lemma counted_group_has_member:
  assumes "build_upstream_set c = Inr us" and "group_count (c_upstream c) g \<noteq> 0"
    and "\<forall>u \<in> set (c_upstream c). uc_groups u \<noteq> Some []"
  shows "\<exists>up \<in> set (us_all_items us). g \<in> set (up_groups up)"
proof -
  obtain u where u: "u \<in> set (c_upstream c)" "g \<in> set (validated_groups u)"
    using assms(2) group_count_pos by blast
  then have "g \<in> set (case uc_groups u of Some grps \<Rightarrow> grps | None \<Rightarrow> [''default''])"
    using assms(3) by (auto simp: validated_groups_def split: option.splits if_splits)
  with u(1) show ?thesis unfolding built_set_items [OF assms(1)] by auto
qed

section \<open>Properties\<close>

text \<open>
  A configuration that passes validation is usable. Its upstream set has distinct identifiers and
  finite positive gains, and every group that a client table can lead to has an upstream in it, so
  that no matched route ends without a candidate; this holds as long as no upstream is written with
  an empty list of groups.
\<close>

theorem validated_routes_have_upstreams:
  assumes "validate N parse_sockaddr c = Inr ()" and "build_upstream_set c = Inr us"
    and "\<forall>u \<in> set (c_upstream c). uc_groups u \<noteq> Some []"
  shows "distinct (map up_id (us_all_items us)) \<and>
    (\<forall>up \<in> set (us_all_items us). \<exists>g. up_gain up = Fin g \<and> 0 < g) \<and>
    (\<forall>g \<in> routed_groups c. \<exists>up \<in> set (us_all_items us). g \<in> set (up_groups up))"
proof (intro conjI ballI)
  show "distinct (map up_id (us_all_items us))"
    using build_upstream_setD(1) [OF assms(2)] by (simp add: built_set_items [OF assms(2)] comp_def)
  show "\<exists>g. up_gain up = Fin g \<and> 0 < g" if "up \<in> set (us_all_items us)" for up
    using that validateD(3) [OF assms(1)] by (auto simp: built_set_items [OF assms(2)])
  show "\<exists>up \<in> set (us_all_items us). g \<in> set (up_groups up)" if "g \<in> routed_groups c" for g
    using counted_group_has_member [OF assms(2) check_groups_routed [OF validateD(2) [OF assms(1)] that] assms(3)] .
qed

definition demo_upstream :: "rstr list option \<Rightarrow> UpstreamConfig" where
  "demo_upstream grps = \<lparr>uc_id = ''u'', uc_addr = SocketAddr (V4 1) 1080, uc_groups = grps, uc_gain = Fin 1\<rparr>"

definition demo_config :: "rstr list option \<Rightarrow> Config" where
  "demo_config grps = default_config [demo_upstream grps]"

lemma trim_u [simp]: "trim ''u'' = ''u''"
  by code_simp

lemma demo_config_simps [simp]:
  "c_upstream (demo_config grps) = [demo_upstream grps]"
  "c_client_routes (demo_config grps) = []" "c_client_domain_routes (demo_config grps) = []"
  "c_client_dst_ip_routes (demo_config grps) = []" "c_port_forward (demo_config grps) = []"
  "c_listen (demo_config grps) = ''[::]:10810''" "c_upstream_switch_tolerance (demo_config grps) = 0"
  "c_quic_stale_secs (demo_config grps) = 180"
  by (simp_all add: demo_config_def default_config_def)

lemma demo_config_builds: "\<exists>us. build_upstream_set (demo_config grps) = Inr us"
  by (simp add: build_upstream_set_def demo_upstream_def upstream_set_new_def)

lemma demo_config_valid:
  assumes "grps = None \<or> grps = Some []"
  shows "validate N (\<lambda>_. Some (SocketAddr (V6 0) 10810)) (demo_config grps) = Inr ()"
proof -
  have "group_count [demo_upstream grps] ''default'' = 1"
    using assms by (auto simp: group_count_def validated_groups_def demo_upstream_def)
  then have "check_groups N (demo_config grps) = Inr ()"
    by (simp add: check_groups_def check_client_routes_def check_client_domain_routes_def
        check_client_dst_ip_routes_def Let_def)
  then show ?thesis
    by (simp add: validate_def parse_listen_addr_def check_port_forwards_def)
      (simp add: demo_config_def default_config_def demo_upstream_def f64_is_finite_def)
qed

theorem validated_routes_have_upstreams_witness:
  "\<exists>us. build_upstream_set (demo_config None) = Inr us \<and> distinct (map up_id (us_all_items us))"
proof -
  obtain us where us: "build_upstream_set (demo_config None) = Inr us" using demo_config_builds by blast
  have "distinct (map up_id (us_all_items us))"
    using validated_routes_have_upstreams [OF demo_config_valid us]
    by (simp add: demo_upstream_def)
  with us show ?thesis by blast
qed

text \<open>
  Validation and construction disagree on an empty list of groups: validation counts such an
  upstream for the default group, construction puts it in no group. A configuration whose only
  upstream is written with \<open>groups = []\<close> passes validation and builds, and every pick fails.
\<close>

theorem empty_groups_pass_validation:
  "\<exists>c us. validate N (\<lambda>_. Some (SocketAddr (V6 0) 10810)) c = Inr () \<and> build_upstream_set c = Inr us \<and>
     (\<forall>rnd now. pick rnd now us = Inr (None, us))"
proof -
  let ?c = "demo_config (Some [])"
  obtain us where us: "build_upstream_set ?c = Inr us" using demo_config_builds by blast
  then have "us_groups us = group_index [upstream_of_config (demo_upstream (Some []))]"
    using build_upstream_setD(2) [OF us] by (auto simp: upstream_set_new_def)
  then have "us_groups us = Map.empty" by (simp add: group_index_def demo_upstream_def)
  then have "pick rnd now us = Inr (None, us)" for rnd now by (simp add: pick_def pick_from_group_def)
  with us demo_config_valid show ?thesis by blast
qed

end
