(* ===== verification/App_Build.thy ===== *)
theory App_Build
  imports Routing Sniff_Engine Quic_Sniff Config_Check
begin

text \<open>
  \<open>AppState::build\<close> (\<open>state.rs\<close>): the files it reads, the tables it compiles and the state it
  returns. The properties compose the components: a built state routes as the configuration says,
  and every group it names has an upstream. File contents, the MMDB reader, the protobuf decoder
  and Unicode lower-casing are the record \<open>BuildEnv\<close>.
\<close>

section \<open>Construction\<close>

record BuildEnv =
  be_read :: "rstr \<Rightarrow> bytes option"
  be_read_to_string :: "rstr \<Rightarrow> rstr option"
  be_mmdb :: "bytes \<Rightarrow> (IpAddr \<Rightarrow> rstr option) option"
  be_geosite :: "bytes \<Rightarrow> (rstr \<times> GeoDomain list) list option"
  be_to_lowercase :: "rstr \<Rightarrow> rstr"

datatype BuildError =
  ReadFailed rstr | InvalidMmdb | InvalidIpList rstr | InvalidGeosite | InvalidClientTable rstr |
  InvalidUpstreams ConfigError

datatype UdpSniffer = QuicSniUdpSniffer

definition build_udp_sniffers :: "Config \<Rightarrow> UdpSniffer list" where
  "build_udp_sniffers c = (if c_quic_sniff_mode c \<noteq> QNone then [QuicSniUdpSniffer] else [])"

record ('n4, 'n6) AppBuild =
  ab_state :: "('n4, 'n6, nat) AppState"
  ab_sniffers :: "Sniffer list"
  ab_udp_sniffers :: "UdpSniffer list"
  ab_upstreams :: UpstreamSet
  ab_udp_session_timeout :: nat

text \<open>\<open>str::lines\<close>: a line ends with a line feed, before which one carriage return is dropped.\<close>

definition strip_cr :: "rstr \<Rightarrow> rstr" where
  "strip_cr l = (if l \<noteq> [] \<and> last l = CHR 0x0D then butlast l else l)"

definition str_lines :: "rstr \<Rightarrow> rstr list" where
  "str_lines s =
     (let ps = split_char (CHR 0x0A) s
      in map strip_cr (butlast ps) @ (if last ps = [] then [] else [last ps]))"

definition load_ip_list_from_file :: "BuildEnv \<Rightarrow> rstr list \<Rightarrow> rstr option \<Rightarrow> (BuildError, rstr list) rres" where
  "load_ip_list_from_file env base path =
     (case path of
        None \<Rightarrow> Inr base
      | Some p \<Rightarrow>
          bindR (ok_or (be_read_to_string env p) (ReadFailed p)) (\<lambda>content.
          Inr (base @ map trim (filter (\<lambda>l. trim l \<noteq> []) (str_lines content)))))"

definition load_mmdb :: "BuildEnv \<Rightarrow> rstr option \<Rightarrow> (BuildError, (IpAddr \<Rightarrow> rstr option) option) rres" where
  "load_mmdb env path =
     (case path of
        None \<Rightarrow> Inr None
      | Some p \<Rightarrow>
          if p = [] then Inr None
          else bindR (ok_or (be_read env p) (ReadFailed p)) (\<lambda>data.
               bindR (ok_or (be_mmdb env data) InvalidMmdb) (\<lambda>reader. Inr (Some reader))))"

definition load_geosite :: "BuildEnv \<Rightarrow> Config \<Rightarrow> (BuildError, GeositeIndex option) rres" where
  "load_geosite env c =
     (case c_geosite_path c of
        None \<Rightarrow> Inr None
      | Some path \<Rightarrow>
          bindR (ok_or (be_read env path) (ReadFailed path)) (\<lambda>data.
          bindR (ok_or (be_geosite env data) InvalidGeosite) (\<lambda>full.
          let needed_lower = set (map (be_to_lowercase env) (c_proxy_geosite_tags c @ c_direct_geosite_tags c));
              filtered_entries = filter (\<lambda>(country_code, _). be_to_lowercase env country_code \<in> needed_lower) full
          in Inr (Some (map_of (rev (map (\<lambda>(country_code, domain). (be_to_lowercase env country_code, domain))
                                       filtered_entries)))))))"

text \<open>A table loop of the construction that stops at the offending entry.\<close>

definition table_ok :: "(rstr \<Rightarrow> BuildError) \<Rightarrow> rstr + 'a \<Rightarrow> (BuildError, 'a) rres" where
  "table_ok mk m = (case m of Inl e \<Rightarrow> Inl (Fail (mk e)) | Inr x \<Rightarrow> Inr x)"

text \<open>\<open>Duration::from_secs\<close>; durations and instants are counted in milliseconds.\<close>

definition from_secs :: "nat \<Rightarrow> nat" where
  "from_secs s = 1000 * s"

text \<open>The value the construction ends with.\<close>

definition assemble ::
  "Config \<Rightarrow> (IpAddr \<Rightarrow> rstr option) option \<Rightarrow> ('n4, 'n6) IpNet list \<Rightarrow> ('n4, 'n6) IpNet list \<Rightarrow> UpstreamSet \<Rightarrow>
   GeositeIndex option \<Rightarrow> ('n4, 'n6) ClientIpRoutes \<Rightarrow> ('n4, 'n6) ClientDomainRoutes \<Rightarrow> ('n4, 'n6) ClientDstIpRoutes \<Rightarrow>
   ('n4, 'n6) AppBuild" where
  "assemble c mmdb direct_nets socks5_nets upstreams geosite client_routes client_domain_routes client_dst_ip_routes =
     \<lparr>ab_state =
        \<lparr>st_config = c, st_mmdb = mmdb,
         st_force_direct_v4 = fst (build_ip_tries direct_nets), st_force_direct_v6 = snd (build_ip_tries direct_nets),
         st_force_socks5_v4 = fst (build_ip_tries socks5_nets), st_force_socks5_v6 = snd (build_ip_tries socks5_nets),
         st_force_direct_domains = domain_set_compile (c_force_direct_domains c),
         st_force_socks5_domains = domain_set_compile (c_force_socks5_domains c),
         st_compiled_geosite = map_option compile_geosite geosite,
         st_proxy_mode = proxy_mode_as_u8 (c_proxy_mode c),
         st_client_routes = client_routes, st_client_domain_routes = client_domain_routes,
         st_client_dst_ip_routes = client_dst_ip_routes,
         st_route_cache_ttl = from_secs (c_route_cache_ttl_secs c), st_direct_cache = [], st_upstream_cache = []\<rparr>,
      ab_sniffers = build_sniffers c, ab_udp_sniffers = build_udp_sniffers c,
      ab_upstreams = upstreams, ab_udp_session_timeout = from_secs (c_udp_session_timeout_secs c)\<rparr>"

definition app_build :: "BuildEnv \<Rightarrow> ('n4, 'n6) net_ops \<Rightarrow> Config \<Rightarrow> (BuildError, ('n4, 'n6) AppBuild) rres" where
  "app_build env N c =
     bindR (load_mmdb env (c_mmdb_path c)) (\<lambda>mmdb.
     bindR (load_ip_list_from_file env (c_force_direct_ips c) (c_force_direct_ips_file c)) (\<lambda>direct_list.
     bindR (load_ip_list_from_file env (c_force_socks5_ips c) (c_force_socks5_ips_file c)) (\<lambda>socks5_list.
     bindR (table_ok InvalidIpList (parse_ip_net_list N direct_list)) (\<lambda>direct_nets.
     bindR (table_ok InvalidIpList (parse_ip_net_list N socks5_list)) (\<lambda>socks5_nets.
     bindR (map_err InvalidUpstreams (build_upstream_set c)) (\<lambda>upstreams.
     bindR (load_geosite env c) (\<lambda>geosite.
     bindR (table_ok InvalidClientTable (build_client_routes N (c_client_routes c))) (\<lambda>client_routes.
     bindR (table_ok InvalidClientTable (build_client_domain_routes N (c_client_domain_routes c))) (\<lambda>client_domain_routes.
     bindR (table_ok InvalidClientTable (build_client_dst_ip_routes N (c_client_dst_ip_routes c))) (\<lambda>client_dst_ip_routes.
     Inr (assemble c mmdb direct_nets socks5_nets upstreams geosite client_routes client_domain_routes
            client_dst_ip_routes)))))))))))"

section \<open>The specification: the configuration read as rules\<close>

definition force_list :: "BuildEnv \<Rightarrow> rstr list \<Rightarrow> rstr option \<Rightarrow> rstr list" where
  "force_list env base path =
     base @ (case path of
               None \<Rightarrow> []
             | Some p \<Rightarrow> map trim (filter (\<lambda>l. trim l \<noteq> []) (str_lines (the (be_read_to_string env p)))))"

definition country_direct :: "BuildEnv \<Rightarrow> Config \<Rightarrow> IpAddr \<Rightarrow> bool" where
  "country_direct env c ip \<longleftrightarrow>
     (\<exists>p code cc. c_mmdb_path c = Some p \<and> p \<noteq> [] \<and> the (be_mmdb env (the (be_read env p))) ip = Some code \<and>
        cc \<in> set (c_direct_countries c) \<and> eq_ignore_ascii_case cc code)"

text \<open>The rules of a tag: those of the last entry of the data whose code is the tag in lower case.\<close>

definition tag_rules :: "BuildEnv \<Rightarrow> Config \<Rightarrow> rstr \<Rightarrow> GeoDomain list option" where
  "tag_rules env c tag =
     (case c_geosite_path c of
        None \<Rightarrow> None
      | Some path \<Rightarrow>
          map_option snd (find (\<lambda>(code, _). be_to_lowercase env code = tag)
            (rev (the (be_geosite env (the (be_read env path)))))))"

definition geosite_listed :: "BuildEnv \<Rightarrow> Config \<Rightarrow> rstr list \<Rightarrow> rstr \<Rightarrow> bool" where
  "geosite_listed env c tags d \<longleftrightarrow> canonical_domain d \<noteq> [] \<and>
     (\<exists>tag \<in> set tags. \<exists>rules r. tag_rules env c tag = Some rules \<and> r \<in> set rules \<and> geosite_domain_match r d)"

definition config_rules ::
  "BuildEnv \<Rightarrow> ('n4, 'n6) net_ops \<Rightarrow> Config \<Rightarrow> IpAddr \<Rightarrow> rstr option \<Rightarrow> bool option list" where
  "config_rules env N c ip domain =
     [domain_opinion (\<lambda>d. \<exists>raw \<in> set (c_force_socks5_domains c). pattern_matches raw d) domain False,
      domain_opinion (\<lambda>d. \<exists>raw \<in> set (c_force_direct_domains c). pattern_matches raw d) domain True,
      domain_opinion (geosite_listed env c (c_proxy_geosite_tags c)) domain False,
      domain_opinion (geosite_listed env c (c_direct_geosite_tags c)) domain True,
      opinion (net_listed N (force_list env (c_force_socks5_ips c) (c_force_socks5_ips_file c)) ip) False,
      opinion (net_listed N (force_list env (c_force_direct_ips c) (c_force_direct_ips_file c)) ip) True,
      opinion (c_direct_local_ip c \<and> is_must_direct_local_ip ip) True,
      opinion (country_direct env c ip) True]"

definition config_decision ::
  "BuildEnv \<Rightarrow> ('n4, 'n6) net_ops \<Rightarrow> Config \<Rightarrow> ProxyMode \<Rightarrow> IpAddr \<Rightarrow> rstr option \<Rightarrow> bool" where
  "config_decision env N c mode ip domain =
     (case mode of
        Global \<Rightarrow> False
      | Bypass \<Rightarrow> True
      | Smart \<Rightarrow> first_opinion (config_rules env N c ip domain))"

section \<open>Lemmas\<close>

lemma table_ok_Inr [simp]: "table_ok mk m = Inr x \<longleftrightarrow> m = Inr x"
  by (auto simp: table_ok_def split: sum.splits)

lemma load_ip_list_ok: "load_ip_list_from_file env base path = Inr l \<Longrightarrow> l = force_list env base path"
  by (auto simp: load_ip_list_from_file_def force_list_def split: option.splits)

lemma load_mmdb_ok:
  assumes "load_mmdb env (c_mmdb_path c) = Inr (st_mmdb st)" and "st_config st = c"
  shows "is_direct_country_ip st ip \<longleftrightarrow> country_direct env c ip"
  using assms by (auto simp: load_mmdb_def is_direct_country_ip_def country_direct_def list_ex_iff
      split: option.splits if_splits)

lemma map_of_rev_filter:
  assumes "\<And>e. e \<in> set es \<Longrightarrow> f (fst e) = k \<Longrightarrow> P e"
  shows "map_of (rev (map (\<lambda>(c, v). (f c, v)) (filter P es))) k =
    map_option snd (find (\<lambda>(c, v). f c = k) (rev es))"
  using assms
proof (induction es rule: rev_induct)
  case (snoc e es)
  then have "map_of (rev (map (\<lambda>(c, v). (f c, v)) (filter P es))) k =
    map_option snd (find (\<lambda>(c, v). f c = k) (rev es))" by simp
  with snoc.prems [of e] show ?case by (cases e) auto
qed simp

lemma load_geosite_ok:
  assumes "load_geosite env c = Inr geo" and "\<And>s. be_to_lowercase env (be_to_lowercase env s) = be_to_lowercase env s"
    and "tag \<in> set (c_proxy_geosite_tags c @ c_direct_geosite_tags c)"
  shows "Option.bind geo (\<lambda>index. index tag) = tag_rules env c tag"
proof (cases "c_geosite_path c")
  case (Some path)
  let ?low = "be_to_lowercase env"
  let ?P = "\<lambda>(code, _). ?low code \<in> set (map ?low (c_proxy_geosite_tags c @ c_direct_geosite_tags c))"
  obtain full where full: "be_geosite env (the (be_read env path)) = Some full"
      "geo = Some (map_of (rev (map (\<lambda>(code, d). (?low code, d)) (filter ?P full))))"
    using assms(1) Some by (auto simp: load_geosite_def Let_def)
  have "?P e" if "?low (fst e) = tag" for e :: "rstr \<times> GeoDomain list"
  proof -
    have "?low tag = tag" using assms(2) [of "fst e"] that by simp
    with that assms(3) show ?thesis by (cases e) (metis (no_types, lifting) case_prod_conv fst_conv image_eqI list.set_map)
  qed
  then have "map_of (rev (map (\<lambda>(code, d). (?low code, d)) (filter ?P full))) tag =
      map_option snd (find (\<lambda>(code, d). ?low code = tag) (rev full))"
    by (rule map_of_rev_filter)
  then show ?thesis by (simp only: tag_rules_def full Some option.case option.sel bind.bind_lunit)
qed (use assms(1) in \<open>simp add: load_geosite_def tag_rules_def\<close>)

text \<open>What routing and caching never change: all but the caches and the mode.\<close>

definition static_part :: "('n4, 'n6, 'up) AppState \<Rightarrow> ('n4, 'n6, 'up) AppState" where
  "static_part st = st\<lparr>st_direct_cache := [], st_upstream_cache := [], st_proxy_mode := 0\<rparr>"

lemma app_step_static: "app_step N st st' \<Longrightarrow> static_part st' = static_part st"
  by (induction rule: app_step.induct)
    (auto simp: static_part_def should_direct_def direct_cache_insert_with_key_def get_cached_upstream_def
      cache_upstream_def remove_cached_upstream_def rotate_proxy_mode_def Let_def
      split: ProxyMode.split option.split prod.split)

lemma app_reachable_static: "app_reachable N st0 st \<Longrightarrow> static_part st = static_part st0"
  by (induction rule: app_reachable.induct) (simp_all add: app_step_static)

lemma static_part_simps [simp]:
  "st_config (static_part st) = st_config st" "st_mmdb (static_part st) = st_mmdb st"
  "st_force_direct_v4 (static_part st) = st_force_direct_v4 st" "st_force_direct_v6 (static_part st) = st_force_direct_v6 st"
  "st_force_socks5_v4 (static_part st) = st_force_socks5_v4 st" "st_force_socks5_v6 (static_part st) = st_force_socks5_v6 st"
  "st_force_direct_domains (static_part st) = st_force_direct_domains st"
  "st_force_socks5_domains (static_part st) = st_force_socks5_domains st"
  "st_compiled_geosite (static_part st) = st_compiled_geosite st"
  "st_client_routes (static_part st) = st_client_routes st"
  "st_client_domain_routes (static_part st) = st_client_domain_routes st"
  "st_client_dst_ip_routes (static_part st) = st_client_dst_ip_routes st"
  by (simp_all add: static_part_def)

lemma smart_rules_static: "smart_rules N (static_part st) = smart_rules N st"
  unfolding smart_rules_def [abs_def] in_geosite_def [abs_def] is_direct_country_ip_def [abs_def] static_part_simps ..

lemma lookup_upstream_group_static: "lookup_upstream_group N (static_part st) = lookup_upstream_group N st"
  unfolding lookup_upstream_group_def [abs_def] static_part_simps ..

lemma assemble_simps [simp]:
  "ab_upstreams (assemble c mmdb dn sn us g cr cdr cdst) = us"
  "st_config (ab_state (assemble c mmdb dn sn us g cr cdr cdst)) = c"
  "st_mmdb (ab_state (assemble c mmdb dn sn us g cr cdr cdst)) = mmdb"
  "st_force_direct_v4 (ab_state (assemble c mmdb dn sn us g cr cdr cdst)) = fst (build_ip_tries dn)"
  "st_force_direct_v6 (ab_state (assemble c mmdb dn sn us g cr cdr cdst)) = snd (build_ip_tries dn)"
  "st_force_socks5_v4 (ab_state (assemble c mmdb dn sn us g cr cdr cdst)) = fst (build_ip_tries sn)"
  "st_force_socks5_v6 (ab_state (assemble c mmdb dn sn us g cr cdr cdst)) = snd (build_ip_tries sn)"
  "st_force_direct_domains (ab_state (assemble c mmdb dn sn us g cr cdr cdst)) = domain_set_compile (c_force_direct_domains c)"
  "st_force_socks5_domains (ab_state (assemble c mmdb dn sn us g cr cdr cdst)) = domain_set_compile (c_force_socks5_domains c)"
  "st_compiled_geosite (ab_state (assemble c mmdb dn sn us g cr cdr cdst)) = map_option compile_geosite g"
  "st_client_routes (ab_state (assemble c mmdb dn sn us g cr cdr cdst)) = cr"
  "st_client_domain_routes (ab_state (assemble c mmdb dn sn us g cr cdr cdst)) = cdr"
  "st_client_dst_ip_routes (ab_state (assemble c mmdb dn sn us g cr cdr cdst)) = cdst"
  by (simp_all add: assemble_def)

lemma app_buildE:
  assumes "app_build env N c = Inr ab"
  obtains mmdb dl sl dn sn us g cr cdr cdst
  where "load_mmdb env (c_mmdb_path c) = Inr mmdb"
    and "load_ip_list_from_file env (c_force_direct_ips c) (c_force_direct_ips_file c) = Inr dl"
    and "load_ip_list_from_file env (c_force_socks5_ips c) (c_force_socks5_ips_file c) = Inr sl"
    and "parse_ip_net_list N dl = Inr dn" and "parse_ip_net_list N sl = Inr sn"
    and "load_geosite env c = Inr g" and "ab = assemble c mmdb dn sn us g cr cdr cdst"
    and "build_upstream_set c = Inr us" and "build_client_routes N (c_client_routes c) = Inr cr"
    and "build_client_domain_routes N (c_client_domain_routes c) = Inr cdr"
    and "build_client_dst_ip_routes N (c_client_dst_ip_routes c) = Inr cdst"
  using assms unfolding app_build_def bindR_eq_Inr_iff table_ok_Inr map_err_eq_Inr_iff sum.inject by blast

lemma built_smart_rules:
  assumes "trie_laws N" and "\<And>s. be_to_lowercase env (be_to_lowercase env s) = be_to_lowercase env s"
    and "app_build env N c = Inr ab"
  shows "smart_rules N (ab_state ab) ip domain = config_rules env N c ip domain"
proof -
  from assms(3) obtain mmdb dl sl dn sn us g cr cdr cdst
    where mmdb: "load_mmdb env (c_mmdb_path c) = Inr mmdb"
      and dl: "load_ip_list_from_file env (c_force_direct_ips c) (c_force_direct_ips_file c) = Inr dl"
      and sl: "load_ip_list_from_file env (c_force_socks5_ips c) (c_force_socks5_ips_file c) = Inr sl"
      and dn: "parse_ip_net_list N dl = Inr dn" and sn: "parse_ip_net_list N sl = Inr sn"
      and g: "load_geosite env c = Inr g" and ab: "ab = assemble c mmdb dn sn us g cr cdr cdst"
    by (rule app_buildE)
  let ?st = "ab_state ab"
  have pat: "matches_canonical (domain_set_compile ps) (canonical_domain d) \<longleftrightarrow> (\<exists>raw \<in> set ps. pattern_matches raw d)" for ps d
    by (simp add: domain_set_compile_def fold_domain_set_add_matches)
      (simp add: matches_canonical_def suffix_scan_iff)
  have tags: "in_geosite ?st tags d \<longleftrightarrow> geosite_listed env c tags d"
    if "set tags \<subseteq> set (c_proxy_geosite_tags c @ c_direct_geosite_tags c)" for tags d
  proof -
    let ?hit = "\<lambda>f tag. \<exists>rules r. f tag = Some rules \<and> r \<in> set rules \<and> geosite_domain_match r d"
    let ?idx = "\<lambda>tag. Option.bind g (\<lambda>index. index tag)"
    have "?idx tag = tag_rules env c tag" if "tag \<in> set tags" for tag
      using load_geosite_ok [OF g assms(2)] that \<open>set tags \<subseteq> _\<close> by blast
    then have "(\<exists>tag \<in> set tags. ?hit ?idx tag) \<longleftrightarrow> (\<exists>tag \<in> set tags. ?hit (tag_rules env c) tag)"
      by (intro bex_cong) simp_all
    moreover have "in_geosite ?st tags d \<longleftrightarrow> canonical_domain d \<noteq> [] \<and> (\<exists>tag \<in> set tags. ?hit ?idx tag)"
    proof (cases g)
      case None
      then show ?thesis by (simp add: in_geosite_def ab)
    next
      case (Some index)
      then show ?thesis by (simp add: in_geosite_def ab compile_geosite_contains_rules)
    qed
    ultimately show ?thesis by (simp only: geosite_listed_def)
  qed
  have country: "is_direct_country_ip ?st ip \<longleftrightarrow> country_direct env c ip"
    by (rule load_mmdb_ok) (simp_all add: ab mmdb)
  have cfg: "st_config ?st = c" by (simp add: ab)
  have geo: "in_geosite ?st (c_proxy_geosite_tags c) = geosite_listed env c (c_proxy_geosite_tags c)"
      "in_geosite ?st (c_direct_geosite_tags c) = geosite_listed env c (c_direct_geosite_tags c)"
    by (rule ext, rule tags, simp)+
  show ?thesis
    unfolding smart_rules_def config_rules_def country cfg geo
    by (simp add: ab pat trie_hit_listed [OF assms(1) dn] trie_hit_listed [OF assms(1) sn]
        load_ip_list_ok [OF dl] load_ip_list_ok [OF sl])
qed

text \<open>A group that a built table answers with is one the configuration names.\<close>

lemma domain_route_lookup_value:
  assumes "build_domain_route_table m = Inr t" and "domain_route_lookup t d = Some g"
  shows "g \<in> snd ` set m"
proof (cases "drt_exact t (canonical_domain d)")
  case None
  from domain_route_lookup_suffix [OF assms(1) None assms(2)] show ?thesis by force
next
  case (Some h)
  with assms(2) have "h = g" by (simp add: domain_route_lookup_def Let_def)
  with build_domain_route_tableD(4) [OF assms(1) Some] show ?thesis by force
qed

lemma client_routes_value:
  assumes "build_client_routes N m = Inr r" and "ccr_lookup N r ip = Some g"
  shows "g \<in> snd ` set m"
proof -
  note built = ccr_build_entries [OF assms(1) [unfolded build_client_routes_def]]
  from ccr_lookup_Some [OF built(1) assms(2)] show ?thesis unfolding built(2) by force
qed

lemma table_answer_value:
  assumes "ccr_build N mk m = Inr r" and "table_answer N r ip f g"
  shows "\<exists>s c v. (s, c) \<in> set m \<and> mk c = Inr v \<and> f v = Some g"
  using assms(2) unfolding table_answer_def ccr_build_entries(2) [OF assms(1)] by blast

lemma routed_groupsI:
  "(s, g) \<in> set (c_client_routes c) \<Longrightarrow> g \<in> routed_groups c"
  "(s, m) \<in> set (c_client_domain_routes c) \<Longrightarrow> g \<in> snd ` set m \<Longrightarrow> g \<in> routed_groups c"
  "(s, m) \<in> set (c_client_dst_ip_routes c) \<Longrightarrow> g \<in> snd ` set m \<Longrightarrow> g \<in> routed_groups c"
  unfolding routed_groups_def by (rule UnI1, rule UnI1, force) (rule UnI1, rule UnI2, force, rule UnI2, force)

lemma built_group_routed:
  assumes "app_build env N c = Inr ab" and "g = lookup_upstream_group N (ab_state ab) client dst domain"
  shows "g \<in> routed_groups c \<or> g = ''default''"
proof -
  from assms(1) obtain mmdb dl sl dn sn us geo cr cdr cdst
    where ab: "ab = assemble c mmdb dn sn us geo cr cdr cdst"
      and cr: "build_client_routes N (c_client_routes c) = Inr cr"
      and cdr: "build_client_domain_routes N (c_client_domain_routes c) = Inr cdr"
      and cdst: "build_client_dst_ip_routes N (c_client_dst_ip_routes c) = Inr cdst"
    by (rule app_buildE)
  note tables = cr [unfolded build_client_routes_def] cdr [unfolded build_client_domain_routes_def]
    cdst [unfolded build_client_dst_ip_routes_def]
  let ?by_domain = "\<lambda>t. case domain of None \<Rightarrow> None | Some d \<Rightarrow> domain_route_lookup t d"
  have "table_answer N cdst client (\<lambda>t. ccr_lookup N t dst) g \<or> table_answer N cdr client ?by_domain g \<or>
      table_answer N cr client Some g \<or> g = ''default''"
    using lookup_upstream_group_cases [of N "ab_state ab" client dst domain g] tables [THEN ccr_build_entries(1)]
      assms(2) unfolding ab assemble_simps by blast
  then consider "table_answer N cdst client (\<lambda>t. ccr_lookup N t dst) g" | "table_answer N cdr client ?by_domain g" |
      "table_answer N cr client Some g" | "g = ''default''"
    by blast
  then show ?thesis
  proof cases
    case 1
    from table_answer_value [OF tables(3) this] obtain s m t where "(s, m) \<in> set (c_client_dst_ip_routes c)"
      "build_client_routes N m = Inr t" "ccr_lookup N t dst = Some g" by blast
    from routed_groupsI(3) [OF this(1) client_routes_value [OF this(2,3)]] show ?thesis ..
  next
    case 2
    from table_answer_value [OF tables(2) this] obtain s m t where s: "(s, m) \<in> set (c_client_domain_routes c)"
      and t: "build_domain_route_table m = Inr t" "?by_domain t = Some g" by blast
    from t(2) obtain d where "domain_route_lookup t d = Some g" by (cases domain) simp_all
    from routed_groupsI(2) [OF s domain_route_lookup_value [OF t(1) this]] show ?thesis ..
  next
    case 3
    from table_answer_value [OF tables(1) this] obtain s where "(s, g) \<in> set (c_client_routes c)" by blast
    from routed_groupsI(1) [OF this] show ?thesis ..
  qed simp
qed

lemma reachable_group_routed:
  assumes "app_build env N c = Inr ab" and "app_reachable N (ab_state ab) st"
  shows "lookup_upstream_group N st client dst domain \<in> routed_groups c \<or>
    lookup_upstream_group N st client dst domain = ''default''"
proof -
  have "lookup_upstream_group N st = lookup_upstream_group N (ab_state ab)"
    using app_reachable_static [OF assms(2)] by (metis lookup_upstream_group_static)
  then show ?thesis using built_group_routed [OF assms(1) refl, of client dst domain] by simp
qed

lemma built_member_reachable:
  assumes "build_upstream_set c = Inr us0" and "group_count (c_upstream c) grp \<noteq> 0"
    and "\<forall>u \<in> set (c_upstream c). uc_groups u \<noteq> Some []" and "c_upstream_switch_tolerance c < 2 ^ 32"
    and "c_quic_stale_secs c < 2 ^ 64" and "us_reachable us0 us"
  shows "members us grp \<noteq> []"
proof -
  have wf0: "us_wf us0"
    using us_liveD(1) [OF built_set_live [OF assms(1,4,5) us_reachable.start]] .
  have "members us grp = members us0 grp"
    using us_reachable_fixed [OF assms(6) wf0] by (simp add: us_fixed_def members_def)
  moreover obtain up where "up \<in> set (us_all_items us0)" "grp \<in> set (up_groups up)"
    using counted_group_has_member [OF assms(1-3)] by blast
  moreover then obtain k where "k < length (us_all_items us0)" "up = us_up us0 k" by (metis in_set_conv_nth)
  ultimately have "k \<in> set (members us grp)"
    using us_liveD(2) [OF built_set_live [OF assms(1,4,5) us_reachable.start], of grp] by simp
  then show ?thesis by force
qed

lemma reachable_route_decision:
  assumes "trie_laws N" and "\<And>s. be_to_lowercase env (be_to_lowercase env s) = be_to_lowercase env s"
    and "app_build env N c = Inr ab" and "app_reachable N (ab_state ab) st"
  shows "route_decision N st ip domain = config_decision env N c (proxy_mode_from_u8 (st_proxy_mode st)) ip domain"
proof -
  have "smart_rules N st = smart_rules N (ab_state ab)"
    using app_reachable_static [OF assms(4)] smart_rules_static by metis
  then show ?thesis
    unfolding route_decision_def config_decision_def by (simp only: built_smart_rules [OF assms(1-3)])
qed

text \<open>What a running process never changes: the configuration and the group of a connection.\<close>

lemma reachable_config: "app_build env N c = Inr ab \<Longrightarrow> app_reachable N (ab_state ab) st \<Longrightarrow> st_config st = c"
  by (drule app_reachable_static) (elim app_buildE, metis static_part_simps(1) assemble_simps(2))

lemma reachable_same_group:
  "app_reachable N st0 s \<Longrightarrow> app_reachable N st0 st \<Longrightarrow> lookup_upstream_group N s = lookup_upstream_group N st"
  by (metis app_reachable_static lookup_upstream_group_static)

text \<open>A routing decision in a running process.\<close>

lemma should_direct_mode [simp]: "st_proxy_mode (snd (should_direct N now st ip d)) = st_proxy_mode st"
  by (auto simp: should_direct_def direct_cache_insert_with_key_def Let_def split: ProxyMode.split option.split prod.split)

lemma reachable_should_direct:
  assumes "trie_laws N" and "\<And>s. be_to_lowercase env (be_to_lowercase env s) = be_to_lowercase env s"
    and "app_build env N c = Inr ab" and "app_reachable N (ab_state ab) st"
  obtains st' where "should_direct N now st ip d = (config_decision env N c (proxy_mode_from_u8 (st_proxy_mode st)) ip d, st')"
    and "app_reachable N (ab_state ab) st'" and "st_proxy_mode st' = st_proxy_mode st"
proof (rule that)
  have "fst (should_direct N now st ip d) = config_decision env N c (proxy_mode_from_u8 (st_proxy_mode st)) ip d"
    unfolding should_direct_correct(1) [OF app_reachable_coherent [OF assms(4)]] by (rule reachable_route_decision [OF assms])
  then show "should_direct N now st ip d =
      (config_decision env N c (proxy_mode_from_u8 (st_proxy_mode st)) ip d, snd (should_direct N now st ip d))"
    by (simp add: prod_eq_iff)
  show "app_reachable N (ab_state ab) (snd (should_direct N now st ip d))"
    by (rule app_reachable.step [OF assms(4) app_step.decide])
qed (rule should_direct_mode)

section \<open>Properties\<close>

text \<open>
  C1: The built program routes as its configuration says. In every state the process can reach from
  a successful construction, the decision for a target, whatever the caches hold, is the one that
  the configuration read as a list of rules gives: the proxy domains, the direct domains, the proxy
  and direct geosite tags over the rules of the data file, the proxy and direct address lists with
  the entries of their files, the local addresses and the direct countries, in this order, and the
  proxy otherwise; the modes Global and Bypass override all of them.
\<close>

theorem built_state_routes_as_configured:
  assumes "trie_laws N" and "\<And>s. be_to_lowercase env (be_to_lowercase env s) = be_to_lowercase env s"
    and "app_build env N c = Inr ab" and "app_reachable N (ab_state ab) st"
  shows "fst (should_direct N now st ip domain) =
    config_decision env N c (proxy_mode_from_u8 (st_proxy_mode st)) ip domain"
  unfolding should_direct_correct(1) [OF app_reachable_coherent [OF assms(4)]]
  by (rule reachable_route_decision [OF assms])


section \<open>Witnesses\<close>

definition routed_config :: Config where
  "routed_config = demo_config None
     \<lparr>c_force_direct_domains := [''.example.com''], c_client_routes := [(''10.0.0.1'', ''default'')]\<rparr>"

definition no_files :: BuildEnv where
  "no_files = \<lparr>be_read = \<lambda>_. None, be_read_to_string = \<lambda>_. None, be_mmdb = \<lambda>_. None, be_geosite = \<lambda>_. None,
     be_to_lowercase = to_ascii_lowercase\<rparr>"

lemma no_files_lower: "be_to_lowercase no_files (be_to_lowercase no_files s) = be_to_lowercase no_files s"
  by (simp add: no_files_def)

lemma routed_config_simps [simp]:
  "c_upstream routed_config = [demo_upstream None]" "c_mmdb_path routed_config = None"
  "c_geosite_path routed_config = None" "c_client_routes routed_config = [(''10.0.0.1'', ''default'')]"
  "c_client_domain_routes routed_config = []" "c_client_dst_ip_routes routed_config = []"
  "c_force_direct_ips routed_config = []" "c_force_direct_ips_file routed_config = None"
  "c_force_socks5_ips routed_config = []" "c_force_socks5_ips_file routed_config = None"
  "c_upstream_switch_tolerance routed_config = 0" "c_force_socks5_domains routed_config = []"
  "c_force_direct_domains routed_config = [''.example.com'']" "c_proxy_mode routed_config = Smart"
  by (simp_all add: routed_config_def demo_config_def default_config_def)

lemma local_host_net: "parse_ip_or_cidr word_net_ops ''10.0.0.1'' = Some (NetV4 (0x0A000001, 32))"
  by (simp add: parse_ip_or_cidr_def word_net_ops_def)

lemma routed_config_builds: "\<exists>ab. app_build no_files word_net_ops routed_config = Inr ab"
proof -
  have "\<exists>us. build_upstream_set routed_config = Inr us"
    by (simp add: build_upstream_set_def demo_upstream_def upstream_set_new_def)
  moreover have "\<exists>r. build_client_routes word_net_ops [(''10.0.0.1'', ''default'')] = Inr r"
    by (simp add: build_client_routes_def ccr_build_def local_host_net)
  ultimately show ?thesis
    by (simp add: app_build_def load_mmdb_def load_ip_list_from_file_def load_geosite_def
        build_client_domain_routes_def build_client_dst_ip_routes_def ccr_build_def) blast
qed

lemma routed_config_valid:
  "validate word_net_ops (\<lambda>_. Some (SocketAddr (V6 0) 10810)) routed_config = Inr ()"
proof -
  have "group_count [demo_upstream None] ''default'' = 1"
    by (simp add: group_count_def validated_groups_def demo_upstream_def)
  then have "check_groups word_net_ops routed_config = Inr ()"
    by (simp add: check_groups_def check_client_routes_def check_client_domain_routes_def
        check_client_dst_ip_routes_def Let_def local_host_net)
  then show ?thesis
    by (simp add: validate_def parse_listen_addr_def check_port_forwards_def)
      (simp add: routed_config_def demo_config_def default_config_def demo_upstream_def f64_is_finite_def)
qed

theorem built_state_routes_as_configured_witness:
  "\<exists>ab. app_build no_files word_net_ops routed_config = Inr ab \<and>
     fst (should_direct word_net_ops 0 (ab_state ab) (V4 0x08080808) (Some ''a.Example.com'')) \<and>
     fst (should_direct word_net_ops 0 (ab_state ab) (V4 0x08080808) (Some ''b.org'')) = False"
proof -
  obtain ab where ab: "app_build no_files word_net_ops routed_config = Inr ab" using routed_config_builds by blast
  then have mode: "proxy_mode_from_u8 (st_proxy_mode (ab_state ab)) = Smart" and "st_direct_cache (ab_state ab) = []"
    by (elim app_buildE, simp add: assemble_def proxy_mode_from_u8_def)+
  then have reach: "app_reachable word_net_ops (ab_state ab) (ab_state ab)" by (intro app_reachable.start)
  note route = built_state_routes_as_configured [OF word_net_ops_laws no_files_lower ab reach, of 0 "V4 0x08080808"]
  have "pattern_matches ''.example.com'' ''a.Example.com''" "\<not> pattern_matches ''.example.com'' ''b.org''" by code_simp+
  moreover have "\<not> net_listed word_net_ops [] (V4 0x08080808)" by (simp add: net_listed_def)
  moreover have "\<not> is_must_direct_local_ip (V4 0x08080808)" by code_simp
  moreover have "\<not> geosite_listed no_files routed_config tags d" for tags d
    by (simp add: geosite_listed_def tag_rules_def)
  ultimately show ?thesis
    using ab by (simp add: route mode config_decision_def config_rules_def domain_opinion_def opinion_def
        force_list_def country_direct_def)
qed


end
