(* ===== verification/Udp_Types.thy ===== *)
theory Udp_Types
  imports Socks5 App_Build
begin

text \<open>
  UDP sessions (\<open>udp/session.rs\<close>): keys, specifications, the session object and the sending of one
  client datagram. A socket is its number; what the kernel answers to a send is an argument.
\<close>

section \<open>Data\<close>

datatype UdpSessionKind = KTproxy | KPortForward SocketAddr

record UdpSessionKey =
  k_kind :: UdpSessionKind
  k_client_addr :: SocketAddr
  k_target_addr :: SocketAddr

datatype UdpReplyPath = RTproxy | RPortForward nat

datatype UdpRoutingMode = RAuto | RForceSocks5

record UdpSessionSpec =
  sp_key :: UdpSessionKey
  sp_routing :: UdpRoutingMode
  sp_reply_path :: UdpReplyPath
  sp_sniffed_host :: "rstr option"

definition for_tproxy :: "SocketAddr \<Rightarrow> SocketAddr \<Rightarrow> UdpSessionSpec" where
  "for_tproxy client_addr orig_dst =
     \<lparr>sp_key = \<lparr>k_kind = KTproxy, k_client_addr = client_addr, k_target_addr = orig_dst\<rparr>,
      sp_routing = RAuto, sp_reply_path = RTproxy, sp_sniffed_host = None\<rparr>"

definition for_port_forward :: "SocketAddr \<Rightarrow> SocketAddr \<Rightarrow> SocketAddr \<Rightarrow> nat \<Rightarrow> UdpSessionSpec" where
  "for_port_forward listen_addr client_addr remote listen_sock =
     \<lparr>sp_key = \<lparr>k_kind = KPortForward listen_addr, k_client_addr = client_addr, k_target_addr = remote\<rparr>,
      sp_routing = RForceSocks5, sp_reply_path = RPortForward listen_sock, sp_sniffed_host = None\<rparr>"

datatype UdpOutbound = ODirect nat | OSocks5 nat Socks5UdpAssoc

record UdpSession =
  se_session_id :: nat
  se_spec :: UdpSessionSpec
  se_outbound :: UdpOutbound
  se_last_seen_secs :: nat
  se_cancelled :: bool

section \<open>Sending a client datagram\<close>

datatype IoError = EMsgSize | OtherIoError

datatype UdpError =
  SessionCancelled | SendFailed | RuntimeClosed | CreationPanicked | ExitedBeforeReady | ExitedBeforeRegistration |
  NoUpstreamForGroup rstr | AssociateTimeout | AssociateFailed Socks5Error | DirectSocketFailed |
  FakeClosed | FakeSocketFailed | RecvFailed

definition touch :: "nat \<Rightarrow> UdpSession \<Rightarrow> UdpSession" where
  "touch now_secs se = se\<lparr>se_last_seen_secs := now_secs\<rparr>"

text \<open>The result of \<open>socket.send\<close>: a datagram that is too large is dropped, not an error.\<close>

definition sent_or_dropped :: "IoError + nat \<Rightarrow> (UdpError, nat) rres" where
  "sent_or_dropped r =
     (case r of Inr sent \<Rightarrow> Inr sent | Inl EMsgSize \<Rightarrow> Inr 0 | Inl OtherIoError \<Rightarrow> Inl (Fail SendFailed))"

definition socks5_udp_target :: "UdpSessionSpec \<Rightarrow> Socks5UdpTarget" where
  "socks5_udp_target spec =
     (case sp_sniffed_host spec of
        Some host \<Rightarrow> UDomain host (sa_port (k_target_addr (sp_key spec)))
      | None \<Rightarrow> UIp (k_target_addr (sp_key spec)))"

text \<open>The result, and the datagrams given to the kernel with their socket.\<close>

definition send_payload ::
  "(nat \<Rightarrow> bytes \<Rightarrow> IoError + nat) \<Rightarrow> UdpSession \<Rightarrow> bytes \<Rightarrow> (UdpError, nat) rres \<times> (nat \<times> bytes) list" where
  "send_payload kernel_send se payload =
     (if se_cancelled se then (Inl (Fail SessionCancelled), [])
      else case se_outbound se of
             ODirect socket \<Rightarrow> (sent_or_dropped (kernel_send socket payload), [(socket, payload)])
           | OSocks5 socket assoc \<Rightarrow>
               (case build_socks5_udp_packet (socks5_udp_target (se_spec se)) payload of
                  Inl Panic \<Rightarrow> (Inl Panic, [])
                | Inl (Fail e) \<Rightarrow> (Inr 0, [])
                | Inr pkt \<Rightarrow> (sent_or_dropped (kernel_send socket pkt), [(socket, pkt)])))"

text \<open>\<open>send_udp_payload\<close> of \<open>udp/pending.rs\<close>: touch, send, and only log an error.\<close>

definition send_udp_payload ::
  "(nat \<Rightarrow> bytes \<Rightarrow> IoError + nat) \<Rightarrow> nat \<Rightarrow> UdpSession \<Rightarrow> bytes \<Rightarrow> (nat \<times> bytes) list \<times> UdpSession" where
  "send_udp_payload kernel_send now_secs se payload =
     (let se = touch now_secs se in (snd (send_payload kernel_send se payload), se))"

end
