(* ===== verification/Udp_Pending.thy ===== *)
theory Udp_Pending
  imports Udp_Types "HOL-Library.AList" "HOL-Library.Multiset"
begin

text \<open>
  The sniffing of UDP flows (\<open>udp/pending.rs\<close>): datagrams of a flow are held back while the QUIC
  sniffer needs more of them, then flushed. A packet handler runs under the lock of its flow and is
  one operation here; the reaper flushes without that lock, so it is a sequence of steps that
  interleave with handlers. The map of pending flows is an association list in its iteration order.
  The effects of the operations are logged: a datagram forwarded by the specification of its flow,
  sent to a session that is ready, or dropped with its pending entry.
\<close>

section \<open>The replay buffer\<close>

definition UDP_SNIFF_NO_CLUE_LIMIT :: nat where "UDP_SNIFF_NO_CLUE_LIMIT = 2"
definition UDP_SNIFF_MAX_CACHED_DATAGRAMS :: nat where "UDP_SNIFF_MAX_CACHED_DATAGRAMS = 8"
definition UDP_SNIFF_MAX_CACHED_BYTES :: nat where "UDP_SNIFF_MAX_CACHED_BYTES = 64 * 1024"
definition UDP_SNIFF_MAX_PENDING_SESSIONS :: nat where "UDP_SNIFF_MAX_PENDING_SESSIONS = 4096"

record PendingReplayBuffer =
  rb_datagrams :: "bytes list"
  rb_cached_bytes :: nat

definition replay_new :: "bytes \<Rightarrow> PendingReplayBuffer" where
  "replay_new first_payload = \<lparr>rb_datagrams = [first_payload], rb_cached_bytes = length first_payload\<rparr>"

definition replay_push_datagram :: "bytes \<Rightarrow> PendingReplayBuffer \<Rightarrow> bool \<times> PendingReplayBuffer" where
  "replay_push_datagram payload rb =
     (let next_bytes = saturating_add_usize (rb_cached_bytes rb) (length payload)
      in if length (rb_datagrams rb) \<ge> UDP_SNIFF_MAX_CACHED_DATAGRAMS \<or> next_bytes > UDP_SNIFF_MAX_CACHED_BYTES
         then (False, rb)
         else (True, rb\<lparr>rb_datagrams := rb_datagrams rb @ [payload], rb_cached_bytes := next_bytes\<rparr>))"

section \<open>Pending flows\<close>

record PendingUdpSniff =
  pe_deadline :: nat
  pe_no_clue_attempts :: nat
  pe_spec :: UdpSessionSpec
  pe_sniffer :: QuicCryptoReassembly
  pe_replay :: PendingReplayBuffer

definition pending_new :: "nat \<Rightarrow> UdpSessionSpec \<Rightarrow> QuicCryptoReassembly \<Rightarrow> bytes \<Rightarrow> nat \<Rightarrow> PendingUdpSniff" where
  "pending_new now spec engine first_payload pending_timeout =
     \<lparr>pe_deadline = now + pending_timeout, pe_no_clue_attempts = 0, pe_spec = spec, pe_sniffer = engine,
      pe_replay = replay_new first_payload\<rparr>"

definition pending_expired :: "nat \<Rightarrow> PendingUdpSniff \<Rightarrow> bool" where
  "pending_expired now pe \<longleftrightarrow> pe_deadline pe \<le> now"

definition record_no_clue :: "PendingUdpSniff \<Rightarrow> bool \<times> PendingUdpSniff" where
  "record_no_clue pe =
     (let n = pe_no_clue_attempts pe + 1
      in (UDP_SNIFF_NO_CLUE_LIMIT \<le> n, pe\<lparr>pe_no_clue_attempts := n\<rparr>))"

datatype UdpEffect =
  Forward UdpSessionSpec bytes | ToSession UdpSessionKey bytes | Dropped UdpSessionKey "bytes list"

record ('n4, 'n6) UdpLoop =
  ul_app :: "('n4, 'n6, nat) AppState"
  ul_sniffers :: "UdpSniffer list"
  ul_pending :: "(UdpSessionKey \<times> PendingUdpSniff) list"
  ul_reap_keys :: "UdpSessionKey list"
  ul_flushing :: "(UdpSessionSpec \<times> bytes) list"
  ul_log :: "UdpEffect list"

definition emit :: "UdpEffect list \<Rightarrow> ('n4, 'n6) UdpLoop \<Rightarrow> ('n4, 'n6) UdpLoop" where
  "emit es s = s\<lparr>ul_log := ul_log s @ es\<rparr>"

definition pending_remove :: "UdpSessionKey \<Rightarrow> ('n4, 'n6) UdpLoop \<Rightarrow> ('n4, 'n6) UdpLoop" where
  "pending_remove key s = s\<lparr>ul_pending := AList.delete key (ul_pending s)\<rparr>"

definition pending_insert :: "UdpSessionKey \<Rightarrow> PendingUdpSniff \<Rightarrow> ('n4, 'n6) UdpLoop \<Rightarrow> ('n4, 'n6) UdpLoop" where
  "pending_insert key pe s = s\<lparr>ul_pending := AList.update key pe (ul_pending s)\<rparr>"

definition forward_udp_payload :: "UdpSessionSpec \<Rightarrow> bytes \<Rightarrow> ('n4, 'n6) UdpLoop \<Rightarrow> ('n4, 'n6) UdpLoop" where
  "forward_udp_payload spec payload = emit [Forward spec payload]"

definition flush_pending_udp_sniff :: "PendingUdpSniff \<Rightarrow> ('n4, 'n6) UdpLoop \<Rightarrow> ('n4, 'n6) UdpLoop" where
  "flush_pending_udp_sniff pe s = fold (forward_udp_payload (pe_spec pe)) (rb_datagrams (pe_replay pe)) s"

text \<open>\<open>Iterator::min_by_key\<close> returns the first of several minimal elements.\<close>

fun oldest_key :: "(UdpSessionKey \<times> PendingUdpSniff) list \<Rightarrow> UdpSessionKey option" where
  "oldest_key [] = None"
| "oldest_key (e # es) = Some (fst (fold (\<lambda>x m. if pe_deadline (snd x) < pe_deadline (snd m) then x else m) es e))"

text \<open>The entry of a key is dropped with its datagrams.\<close>

definition pending_drop :: "UdpSessionKey \<Rightarrow> ('n4, 'n6) UdpLoop \<Rightarrow> ('n4, 'n6) UdpLoop" where
  "pending_drop key s =
     (case map_of (ul_pending s) key of
        None \<Rightarrow> s
      | Some pe \<Rightarrow> emit [Dropped key (rb_datagrams (pe_replay pe))] (pending_remove key s))"

lemma oldest_key_mem: "oldest_key es = Some k \<Longrightarrow> k \<in> fst ` set es"
proof (cases es)
  case (Cons e xs)
  let ?pick = "\<lambda>x m. if pe_deadline (snd x) < pe_deadline (snd m) then x else m"
  have "fold ?pick xs m \<in> insert m (set xs)" for m :: "UdpSessionKey \<times> PendingUdpSniff"
  proof (induction xs arbitrary: m)
    case (Cons x xs)
    from Cons [of "?pick x m"] show ?case by (cases "pe_deadline (snd x) < pe_deadline (snd m)") (simp, simp, blast)
  qed simp
  then have "fst (fold ?pick xs e) \<in> fst ` set es" unfolding Cons list.set(2) by (rule imageI)
  then show "oldest_key es = Some k \<Longrightarrow> k \<in> fst ` set es" by (simp add: Cons)
qed simp

lemma length_delete_less: "k \<in> fst ` set es \<Longrightarrow> length (AList.delete k es) < length es"
  unfolding AList.delete_eq by (force intro: length_filter_less)

function enforce_pending_udp_sniff_capacity :: "('n4, 'n6) UdpLoop \<Rightarrow> ('n4, 'n6) UdpLoop" where
  "enforce_pending_udp_sniff_capacity s =
     (if UDP_SNIFF_MAX_PENDING_SESSIONS < length (ul_pending s)
      then case oldest_key (ul_pending s) of
             None \<Rightarrow> s
           | Some key \<Rightarrow> enforce_pending_udp_sniff_capacity (pending_drop key s)
      else s)"
  by pat_completeness auto
termination
proof (relation "measure (\<lambda>s. length (ul_pending s))")
  fix s :: "('n4, 'n6) UdpLoop" and key
  assume "oldest_key (ul_pending s) = Some key"
  then have "key \<in> fst ` set (ul_pending s)" by (rule oldest_key_mem)
  moreover then obtain pe where "map_of (ul_pending s) key = Some pe" by (metis map_of_eq_None_iff not_Some_eq)
  ultimately show "(pending_drop key s, s) \<in> measure (\<lambda>s. length (ul_pending s))"
    by (simp add: pending_drop_def emit_def pending_remove_def length_delete_less)
qed simp

declare enforce_pending_udp_sniff_capacity.simps [simp del]

section \<open>Handlers\<close>

text \<open>The Boolean of a handler tells whether it took care of the packet.\<close>

definition handle_pending_udp_sniff ::
  "quic_crates \<Rightarrow> nat \<Rightarrow> UdpSessionSpec \<Rightarrow> bytes \<Rightarrow> ('n4, 'n6) UdpLoop \<Rightarrow> (unit, bool \<times> ('n4, 'n6) UdpLoop) rres" where
  "handle_pending_udp_sniff C now spec payload s =
     (let key = sp_key spec in
      case map_of (ul_pending s) key of
        None \<Rightarrow> Inr (False, s)
      | Some pe \<Rightarrow>
          let s = pending_remove key s in
          if pending_expired now pe
          then Inr (True, forward_udp_payload spec payload (flush_pending_udp_sniff pe s))
          else case replay_push_datagram payload (pe_replay pe) of
                 (False, _) \<Rightarrow> Inr (True, forward_udp_payload spec payload (flush_pending_udp_sniff pe s))
               | (True, rb) \<Rightarrow>
                   (case quic_feed C payload (pe_sniffer pe) of (r, engine) \<Rightarrow>
                      let pe = pe\<lparr>pe_replay := rb, pe_sniffer := engine\<rparr> in
                      bindR r (\<lambda>outcome.
                      case outcome of
                        UMatched protocol host \<Rightarrow>
                          Inr (True, flush_pending_udp_sniff
                                       (pe\<lparr>pe_spec := (pe_spec pe)\<lparr>sp_sniffed_host := Some host\<rparr>\<rparr>) s)
                      | UNeedMore protocol \<Rightarrow>
                          Inr (True, enforce_pending_udp_sniff_capacity (pending_insert key pe s))
                      | UNotMatched \<Rightarrow>
                          (case record_no_clue pe of
                             (True, pe) \<Rightarrow> Inr (True, flush_pending_udp_sniff pe s)
                           | (False, pe) \<Rightarrow>
                               Inr (True, enforce_pending_udp_sniff_capacity (pending_insert key pe s)))
                      | UFailed protocol err \<Rightarrow> Inr (True, flush_pending_udp_sniff pe s))))"

fun sniff_first_datagram ::
  "quic_crates \<Rightarrow> nat \<Rightarrow> UdpSessionSpec \<Rightarrow> bytes \<Rightarrow> UdpSniffer list \<Rightarrow> ('n4, 'n6) UdpLoop \<Rightarrow>
   (unit, bool \<times> ('n4, 'n6) UdpLoop) rres" where
  "sniff_first_datagram C now spec payload [] s = Inr (False, s)"
| "sniff_first_datagram C now spec payload (engine # engines) s =
     (case quic_feed C payload reassembly_new of (r, session) \<Rightarrow>
        bindR r (\<lambda>outcome.
        case outcome of
          UMatched protocol host \<Rightarrow>
            Inr (True, forward_udp_payload (spec\<lparr>sp_sniffed_host := Some host\<rparr>) payload s)
        | UNeedMore protocol \<Rightarrow>
            (case c_quic_sniff_mode (st_config (ul_app s)) of
               FullMode \<Rightarrow>
                 let pe = pending_new now spec session payload (c_quic_sniff_pending_timeout_ms (st_config (ul_app s)))
                 in Inr (True, enforce_pending_udp_sniff_capacity (pending_insert (sp_key spec) pe s))
             | _ \<Rightarrow> Inr (True, forward_udp_payload spec payload s))
        | UNotMatched \<Rightarrow> sniff_first_datagram C now spec payload engines s
        | UFailed protocol err \<Rightarrow> sniff_first_datagram C now spec payload engines s))"

definition handle_new_udp_sniff ::
  "quic_crates \<Rightarrow> ('n4, 'n6) net_ops \<Rightarrow> nat \<Rightarrow> UdpSessionSpec \<Rightarrow> bytes \<Rightarrow> ('n4, 'n6) UdpLoop \<Rightarrow>
   (unit, bool \<times> ('n4, 'n6) UdpLoop) rres" where
  "handle_new_udp_sniff C N now spec payload s =
     (if ul_sniffers s = [] then Inr (False, s)
      else
        let (target_ip_direct, app) =
              (if sp_routing spec = RAuto
               then should_direct N now (ul_app s) (sa_ip (k_target_addr (sp_key spec))) None
               else (False, ul_app s));
            s = s\<lparr>ul_app := app\<rparr>
        in if target_ip_direct then Inr (False, s)
           else sniff_first_datagram C now spec payload (ul_sniffers s) s)"

text \<open>
  \<open>is_closed\<close> is the flag of the runtime and \<open>ready\<close> whether it has a ready session for the flow.
\<close>

definition handle_udp_client_payload ::
  "quic_crates \<Rightarrow> ('n4, 'n6) net_ops \<Rightarrow> bool \<Rightarrow> bool \<Rightarrow> nat \<Rightarrow> UdpSessionSpec \<Rightarrow> bytes \<Rightarrow> ('n4, 'n6) UdpLoop \<Rightarrow>
   (unit, ('n4, 'n6) UdpLoop) rres" where
  "handle_udp_client_payload C N is_closed ready now spec payload s =
     (if is_closed then Inr s
      else if ready then Inr (emit [ToSession (sp_key spec) payload] (pending_drop (sp_key spec) s))
      else bindR (handle_pending_udp_sniff C now spec payload s) (\<lambda>(done, s).
           if done then Inr s
           else bindR (handle_new_udp_sniff C N now spec payload s) (\<lambda>(done, s).
           if done then Inr s
           else Inr (forward_udp_payload spec payload s))))"

section \<open>The reaper\<close>

text \<open>
  \<open>reap_pending_udp_sniff\<close>: collect the expired keys; take the entry of each and forward its
  datagrams one at a time; enforce the capacity after the last.
\<close>

definition reap_collect :: "nat \<Rightarrow> ('n4, 'n6) UdpLoop \<Rightarrow> ('n4, 'n6) UdpLoop" where
  "reap_collect now s = s\<lparr>ul_reap_keys := map fst (filter (\<lambda>(_, pe). pending_expired now pe) (ul_pending s))\<rparr>"

definition reap_take :: "('n4, 'n6) UdpLoop \<Rightarrow> ('n4, 'n6) UdpLoop" where
  "reap_take s =
     (case ul_reap_keys s of
        [] \<Rightarrow> s
      | key # keys \<Rightarrow>
          let s = s\<lparr>ul_reap_keys := keys\<rparr>
          in case map_of (ul_pending s) key of
               None \<Rightarrow> s
             | Some pe \<Rightarrow>
                 (pending_remove key s)\<lparr>ul_flushing := map (Pair (pe_spec pe)) (rb_datagrams (pe_replay pe))\<rparr>)"

definition reap_forward :: "('n4, 'n6) UdpLoop \<Rightarrow> ('n4, 'n6) UdpLoop" where
  "reap_forward s =
     (case ul_flushing s of
        [] \<Rightarrow> s
      | (spec, payload) # rest \<Rightarrow> forward_udp_payload spec payload (s\<lparr>ul_flushing := rest\<rparr>))"

section \<open>Conservation\<close>

text \<open>The datagrams of a flow: disposed of, being flushed by the reaper, held back.\<close>

fun effect_payloads :: "UdpSessionKey \<Rightarrow> UdpEffect \<Rightarrow> bytes list" where
  "effect_payloads k (Forward spec p) = (if sp_key spec = k then [p] else [])"
| "effect_payloads k (ToSession k' p) = (if k' = k then [p] else [])"
| "effect_payloads k (Dropped k' ps) = (if k' = k then ps else [])"

definition outs :: "UdpSessionKey \<Rightarrow> ('n4, 'n6) UdpLoop \<Rightarrow> bytes list" where
  "outs k s = concat (map (effect_payloads k) (ul_log s))"

definition inflight :: "UdpSessionKey \<Rightarrow> ('n4, 'n6) UdpLoop \<Rightarrow> bytes list" where
  "inflight k s = concat (map (\<lambda>(spec, p). if sp_key spec = k then [p] else []) (ul_flushing s))"

definition held :: "UdpSessionKey \<Rightarrow> ('n4, 'n6) UdpLoop \<Rightarrow> bytes list" where
  "held k s = (case map_of (ul_pending s) k of None \<Rightarrow> [] | Some pe \<Rightarrow> rb_datagrams (pe_replay pe))"

definition replay_ok :: "PendingReplayBuffer \<Rightarrow> bool" where
  "replay_ok rb \<longleftrightarrow> rb_datagrams rb \<noteq> [] \<and> length (rb_datagrams rb) \<le> UDP_SNIFF_MAX_CACHED_DATAGRAMS \<and>
     rb_cached_bytes rb = sum_list (map length (rb_datagrams rb)) \<and>
     (length (rb_datagrams rb) = 1 \<or> rb_cached_bytes rb \<le> UDP_SNIFF_MAX_CACHED_BYTES)"

definition pending_ok :: "UdpSessionKey \<Rightarrow> PendingUdpSniff \<Rightarrow> bool" where
  "pending_ok k pe \<longleftrightarrow> sp_key (pe_spec pe) = k \<and> reassembly_ok (pe_sniffer pe) \<and> replay_ok (pe_replay pe) \<and>
     pe_no_clue_attempts pe < UDP_SNIFF_NO_CLUE_LIMIT"

definition ul_ok :: "('n4, 'n6) UdpLoop \<Rightarrow> bool" where
  "ul_ok s \<longleftrightarrow> distinct (map fst (ul_pending s)) \<and> (\<forall>(k, pe) \<in> set (ul_pending s). pending_ok k pe)"

text \<open>An operation disposes of the oldest datagrams of a flow, in order, and keeps the rest.\<close>

definition handles :: "UdpSessionKey \<Rightarrow> bytes list \<Rightarrow> ('n4, 'n6) UdpLoop \<Rightarrow> ('n4, 'n6) UdpLoop \<Rightarrow> bool" where
  "handles k received s s' \<longleftrightarrow>
     ul_flushing s' = ul_flushing s \<and> (\<exists>gone. outs k s' = outs k s @ gone \<and> gone @ held k s' = held k s @ received)"

lemma outs_emit [simp]: "outs k (emit es s) = outs k s @ concat (map (effect_payloads k) es)"
  by (simp add: outs_def emit_def)

lemma outs_pending [simp]:
  "outs k (pending_remove key s) = outs k s" "outs k (pending_insert key pe s) = outs k s"
  "outs k (s\<lparr>ul_app := app\<rparr>) = outs k s"
  by (simp_all add: outs_def pending_remove_def pending_insert_def)

lemma held_simps [simp]:
  "held k (emit es s) = held k s"
  "held k (pending_remove key s) = (if k = key then [] else held k s)"
  "held k (pending_insert key pe s) = (if k = key then rb_datagrams (pe_replay pe) else held k s)"
  "held k (s\<lparr>ul_app := app\<rparr>) = held k s"
  by (auto simp: held_def emit_def pending_remove_def pending_insert_def delete_conv' update_conv')

lemma flushing_simps [simp]:
  "ul_flushing (emit es s) = ul_flushing s" "ul_flushing (pending_remove key s) = ul_flushing s"
  "ul_flushing (pending_insert key pe s) = ul_flushing s"
  by (simp_all add: emit_def pending_remove_def pending_insert_def)

lemma flush_emit:
  "flush_pending_udp_sniff pe s = emit (map (Forward (pe_spec pe)) (rb_datagrams (pe_replay pe))) s"
proof -
  have "fold (forward_udp_payload spec) ps s = emit (map (Forward spec) ps) s" for spec ps
    by (induction ps arbitrary: s) (simp_all add: forward_udp_payload_def emit_def)
  then show ?thesis by (simp add: flush_pending_udp_sniff_def)
qed

lemma outs_flush [simp]:
  "outs k (flush_pending_udp_sniff pe s) =
     outs k s @ (if sp_key (pe_spec pe) = k then rb_datagrams (pe_replay pe) else [])"
proof -
  have "concat (map (effect_payloads k) (map (Forward spec) ps)) = (if sp_key spec = k then ps else [])" for spec ps
    by (induction ps) simp_all
  then show ?thesis by (simp add: flush_emit del: map_map)
qed

lemma flush_simps [simp]:
  "held k (flush_pending_udp_sniff pe s) = held k s" "ul_flushing (flush_pending_udp_sniff pe s) = ul_flushing s"
  by (simp_all add: flush_emit)

lemma handles_trans: "handles k r1 s s1 \<Longrightarrow> handles k r2 s1 s2 \<Longrightarrow> handles k (r1 @ r2) s s2"
  unfolding handles_def by (metis append.assoc)

lemma handles_refl [simp]: "handles k [] s s"
  by (simp add: handles_def)

lemma ul_ok_frame [simp]:
  "ul_ok (emit es s) = ul_ok s" "ul_ok (s\<lparr>ul_app := app\<rparr>) = ul_ok s" "ul_ok (flush_pending_udp_sniff pe s) = ul_ok s"
  by (simp_all add: ul_ok_def emit_def flush_emit)

lemma ul_ok_remove [simp]: "ul_ok s \<Longrightarrow> ul_ok (pending_remove key s)"
  by (auto simp: ul_ok_def pending_remove_def AList.delete_eq distinct_map_filter)

lemma set_update_subset: "set (AList.update k v al) \<subseteq> insert (k, v) (set al)"
  by (induction al) auto

lemma ul_ok_insert: "ul_ok s \<Longrightarrow> pending_ok key pe \<Longrightarrow> ul_ok (pending_insert key pe s)"
  unfolding ul_ok_def pending_insert_def
  by (auto simp: distinct_update dest!: set_mp [OF set_update_subset])

lemma ul_ok_pending: "ul_ok s \<Longrightarrow> map_of (ul_pending s) k = Some pe \<Longrightarrow> pending_ok k pe"
  by (auto simp: ul_ok_def dest!: map_of_SomeD)

lemma pending_drop_handles: "handles k [] s (pending_drop key s)"
  by (cases "map_of (ul_pending s) key") (simp_all add: pending_drop_def handles_def held_def [of key s])

lemma pending_drop_ok: "ul_ok s \<Longrightarrow> ul_ok (pending_drop key s)"
  by (simp add: pending_drop_def split: option.split)

lemma enforce_capacity:
  "ul_ok s \<Longrightarrow> ul_ok (enforce_pending_udp_sniff_capacity s) \<and>
   length (ul_pending (enforce_pending_udp_sniff_capacity s)) \<le> UDP_SNIFF_MAX_PENDING_SESSIONS \<and>
   handles k [] s (enforce_pending_udp_sniff_capacity s)"
proof (induction s rule: enforce_pending_udp_sniff_capacity.induct)
  case (1 s)
  show ?case
  proof (cases "UDP_SNIFF_MAX_PENDING_SESSIONS < length (ul_pending s)")
    case True
    then obtain key where key: "oldest_key (ul_pending s) = Some key" by (cases "ul_pending s") auto
    then have "enforce_pending_udp_sniff_capacity s = enforce_pending_udp_sniff_capacity (pending_drop key s)"
      using True by (subst enforce_pending_udp_sniff_capacity.simps) simp
    with 1(1) [OF True key pending_drop_ok [OF 1(2)]] handles_trans [OF pending_drop_handles [of k s key], of "[]"]
    show ?thesis by simp
  next
    case False
    then have "enforce_pending_udp_sniff_capacity s = s"
      by (subst enforce_pending_udp_sniff_capacity.simps) simp
    with False 1(2) show ?thesis by simp
  qed
qed

text \<open>A step of a flow: the invariant, the capacity, and conservation for every flow.\<close>

definition good_step :: "UdpSessionKey \<Rightarrow> bytes \<Rightarrow> ('n4, 'n6) UdpLoop \<Rightarrow> ('n4, 'n6) UdpLoop \<Rightarrow> bool" where
  "good_step key payload s s' \<longleftrightarrow>
     ul_ok s' \<and> length (ul_pending s') \<le> UDP_SNIFF_MAX_PENDING_SESSIONS \<and>
     (\<forall>k. handles k (if k = key then [payload] else []) s s')"

lemma good_insert:
  assumes "ul_ok s" and "pending_ok key pe" and "rb_datagrams (pe_replay pe) = held key s @ [payload]"
  shows "good_step key payload s (enforce_pending_udp_sniff_capacity (pending_insert key pe (pending_remove key s)))"
proof -
  let ?s = "pending_insert key pe (pending_remove key s)"
  have ok: "ul_ok ?s" using assms(1,2) by (simp add: ul_ok_insert)
  have "handles k (if k = key then [payload] else []) s ?s" for k
    using assms(3) by (simp add: handles_def)
  from handles_trans [OF this] enforce_capacity [OF ok] show ?thesis
    unfolding good_step_def by (metis append_Nil2)
qed

lemma length_pending_remove: "length (ul_pending (pending_remove key s)) \<le> length (ul_pending s)"
  by (simp add: pending_remove_def AList.delete_eq)

lemma good_flush:
  assumes "ul_ok s" and "length (ul_pending s) \<le> UDP_SNIFF_MAX_PENDING_SESSIONS"
    and "sp_key (pe_spec pe) = key" and "rb_datagrams (pe_replay pe) @ late = held key s @ [payload]"
    and "s' = emit (map (Forward spec) late) (flush_pending_udp_sniff pe (pending_remove key s))" and "sp_key spec = key"
  shows "good_step key payload s s'"
proof -
  have "concat (map (effect_payloads k \<circ> Forward spec) late) = (if k = key then late else [])" for k
    using assms(6) by (induction late) auto
  then have "handles k (if k = key then [payload] else []) s s'" for k
    using assms(3,4) by (auto simp: handles_def assms(5))
  moreover have "ul_pending s' = ul_pending (pending_remove key s)" by (simp add: assms(5) emit_def flush_emit)
  ultimately show ?thesis
    using assms(1,2) length_pending_remove [of key s] by (simp add: good_step_def assms(5))
qed

lemma quic_feed_total:
  assumes "quic_crates_ok C" and "reassembly_ok r"
  obtains u r' where "quic_feed C p r = (Inr u, r')" and "reassembly_ok r'" and "outcome_name_ok u"
proof -
  have "fst (quic_feed C p r) = Inl Panic \<or> (\<exists>u. fst (quic_feed C p r) = Inr u)"
    by (auto simp: quic_feed_def split: prod.splits sum.splits fault.splits UdpSniffError.splits)
  with quic_feed_safe [OF assms, of p] that show ?thesis
    by (cases "quic_feed C p r") (auto simp: safe_def)
qed

lemma replay_ok_new: "replay_ok (replay_new p)"
  by (simp add: replay_ok_def replay_new_def UDP_SNIFF_MAX_CACHED_DATAGRAMS_def)

lemma replay_push:
  assumes "replay_ok rb" and "replay_push_datagram p rb = (True, rb')"
  shows "replay_ok rb' \<and> rb_datagrams rb' = rb_datagrams rb @ [p]"
proof -
  have "rb_cached_bytes rb + length p \<le> usize_max"
    using assms(2) by (auto simp: replay_push_datagram_def saturating_add_usize_def Let_def
        UDP_SNIFF_MAX_CACHED_BYTES_def usize_max_def min_def split: if_splits)
  with assms show ?thesis
    by (auto simp: replay_push_datagram_def replay_ok_def saturating_add_usize_def Let_def split: if_splits)
qed

lemma handle_pending_good:
  assumes C: "quic_crates_ok C" and ok: "ul_ok s" and cap: "length (ul_pending s) \<le> UDP_SNIFF_MAX_PENDING_SESSIONS"
  shows "handle_pending_udp_sniff C now spec payload s = Inr (False, s) \<and> map_of (ul_pending s) (sp_key spec) = None \<or>
    (\<exists>s'. handle_pending_udp_sniff C now spec payload s = Inr (True, s') \<and> good_step (sp_key spec) payload s s')"
proof (cases "map_of (ul_pending s) (sp_key spec)")
  case (Some pe)
  let ?key = "sp_key spec" and ?s = "pending_remove (sp_key spec) s"
  have pe: "pending_ok ?key pe" using ul_ok_pending [OF ok Some] .
  then have key: "sp_key (pe_spec pe) = ?key" by (simp add: pending_ok_def)
  have held: "held ?key s = rb_datagrams (pe_replay pe)" by (simp add: held_def Some)
  have late: "good_step ?key payload s (forward_udp_payload spec payload (flush_pending_udp_sniff pe ?s))"
    by (rule good_flush [OF ok cap key, where late = "[payload]" and spec = spec]) (simp_all add: held forward_udp_payload_def)
  obtain fits rb where push: "replay_push_datagram payload (pe_replay pe) = (fits, rb)" by fastforce
  show ?thesis
  proof (cases "pending_expired now pe \<or> \<not> fits")
    case True
    with late push Some show ?thesis by (auto simp: handle_pending_udp_sniff_def Let_def)
  next
    case False
    with push have push: "replay_push_datagram payload (pe_replay pe) = (True, rb)" by simp
    have rb: "replay_ok rb" "rb_datagrams rb = rb_datagrams (pe_replay pe) @ [payload]"
      using replay_push [OF _ push] pe by (simp_all add: pending_ok_def)
    have "reassembly_ok (pe_sniffer pe)" using pe by (simp add: pending_ok_def)
    with C obtain u r' where u: "quic_feed C payload (pe_sniffer pe) = (Inr u, r')" "reassembly_ok r'"
      by (rule quic_feed_total)
    define pe' where "pe' = pe\<lparr>pe_replay := rb, pe_sniffer := r'\<rparr>"
    have flush: "good_step ?key payload s (flush_pending_udp_sniff q ?s)"
      if "sp_key (pe_spec q) = ?key" "pe_replay q = rb" for q
      by (rule good_flush [OF ok cap that(1), where late = "[]" and spec = spec]) (simp_all add: that(2) rb(2) held emit_def)
    have keep: "good_step ?key payload s (enforce_pending_udp_sniff_capacity (pending_insert ?key q ?s))"
      if "pending_ok ?key q" "pe_replay q = rb" for q
      by (rule good_insert [OF ok that(1)]) (simp add: that(2) rb(2) held)
    have ok': "pending_ok ?key pe'" using pe u(2) rb(1) by (simp add: pending_ok_def pe'_def)
    obtain stop q where q: "record_no_clue pe' = (stop, q)" by fastforce
    then have q': "sp_key (pe_spec q) = ?key" "pe_replay q = rb" "\<not> stop \<Longrightarrow> pending_ok ?key q"
      using ok' by (auto simp: record_no_clue_def pending_ok_def pe'_def Let_def)
    have step: "handle_pending_udp_sniff C now spec payload s =
        Inr (True, case u of
            UMatched protocol host \<Rightarrow> flush_pending_udp_sniff (pe'\<lparr>pe_spec := (pe_spec pe')\<lparr>sp_sniffed_host := Some host\<rparr>\<rparr>) ?s
          | UNeedMore protocol \<Rightarrow> enforce_pending_udp_sniff_capacity (pending_insert ?key pe' ?s)
          | UNotMatched \<Rightarrow> (if stop then flush_pending_udp_sniff q ?s
                             else enforce_pending_udp_sniff_capacity (pending_insert ?key q ?s))
          | UFailed protocol err \<Rightarrow> flush_pending_udp_sniff pe' ?s)"
      using False Some push u(1) q
      by (simp add: handle_pending_udp_sniff_def Let_def pe'_def split: UdpSniffOutcome.split)
    show ?thesis
      unfolding step using q' ok' key
      by (auto simp: pe'_def intro!: flush keep split: UdpSniffOutcome.split)
  qed
qed (simp add: handle_pending_udp_sniff_def)

lemma good_forward:
  assumes "ul_ok s" and "length (ul_pending s) \<le> UDP_SNIFF_MAX_PENDING_SESSIONS"
    and "map_of (ul_pending s) (sp_key spec) = None" and "sp_key spec' = sp_key spec"
  shows "good_step (sp_key spec) payload s (forward_udp_payload spec' payload s)"
  using assms
  by (auto simp: good_step_def handles_def forward_udp_payload_def held_def [of "sp_key spec" s]) (simp add: emit_def)

lemma sniff_first_good:
  assumes C: "quic_crates_ok C" and "ul_ok s" and "length (ul_pending s) \<le> UDP_SNIFF_MAX_PENDING_SESSIONS"
    and "map_of (ul_pending s) (sp_key spec) = None"
  shows "sniff_first_datagram C now spec payload engines s = Inr (False, s) \<or>
    (\<exists>s'. sniff_first_datagram C now spec payload engines s = Inr (True, s') \<and> good_step (sp_key spec) payload s s')"
proof (induction engines)
  case (Cons engine engines)
  obtain u r where u: "quic_feed C payload reassembly_new = (Inr u, r)" "reassembly_ok r"
    using quic_feed_total [OF C reassembly_ok_new] by blast
  let ?pe = "pending_new now spec r payload (c_quic_sniff_pending_timeout_ms (st_config (ul_app s)))"
  have "pending_ok (sp_key spec) ?pe"
    using u(2) by (simp add: pending_ok_def pending_new_def replay_ok_new UDP_SNIFF_NO_CLUE_LIMIT_def)
  moreover have "rb_datagrams (pe_replay ?pe) = held (sp_key spec) s @ [payload]"
    by (simp add: pending_new_def replay_new_def held_def assms(4))
  moreover have "pending_remove (sp_key spec) s = s"
    using assms(4) by (simp add: pending_remove_def map_of_eq_None_iff)
  ultimately have keep: "good_step (sp_key spec) payload s (enforce_pending_udp_sniff_capacity (pending_insert (sp_key spec) ?pe s))"
    using good_insert [OF assms(2), of "sp_key spec" ?pe payload] by simp
  note fwd = good_forward [OF assms(2-4)]
  show ?case
    using Cons u(1) keep fwd [of spec] fwd [of "spec\<lparr>sp_sniffed_host := Some (um_host u)\<rparr>"]
    by (cases u) (auto simp: Let_def split: QuicSniffMode.split)
qed simp

lemma good_step_app: "good_step key payload (s\<lparr>ul_app := app\<rparr>) s' = good_step key payload s s'"
  by (simp add: good_step_def handles_def)

lemma handle_new_good:
  assumes "quic_crates_ok C" and "ul_ok s" and "length (ul_pending s) \<le> UDP_SNIFF_MAX_PENDING_SESSIONS"
    and "map_of (ul_pending s) (sp_key spec) = None"
  shows "(\<exists>app. handle_new_udp_sniff C N now spec payload s = Inr (False, s\<lparr>ul_app := app\<rparr>)) \<or>
    (\<exists>s'. handle_new_udp_sniff C N now spec payload s = Inr (True, s') \<and> good_step (sp_key spec) payload s s')"
proof -
  obtain d app where d: "(if sp_routing spec = RAuto
      then should_direct N now (ul_app s) (sa_ip (k_target_addr (sp_key spec))) None else (False, ul_app s)) = (d, app)"
    by fastforce
  let ?s = "s\<lparr>ul_app := app\<rparr>"
  have "ul_ok ?s" "length (ul_pending ?s) \<le> UDP_SNIFF_MAX_PENDING_SESSIONS" "map_of (ul_pending ?s) (sp_key spec) = None"
    using assms by simp_all
  from sniff_first_good [OF assms(1) this, of now payload "ul_sniffers s"]
  have "ul_sniffers s = [] \<or> d \<or> (sniff_first_datagram C now spec payload (ul_sniffers s) ?s = Inr (False, ?s) \<or>
      (\<exists>s'. sniff_first_datagram C now spec payload (ul_sniffers s) ?s = Inr (True, s') \<and> good_step (sp_key spec) payload s s'))"
    by (simp only: good_step_app simp_thms)
  moreover have "\<exists>app. s = s\<lparr>ul_app := app\<rparr>" by (rule exI [of _ "ul_app s"]) simp
  ultimately show ?thesis
    unfolding handle_new_udp_sniff_def Let_def d by auto
qed

lemma client_payload_good:
  assumes "quic_crates_ok C" and "ul_ok s" and "length (ul_pending s) \<le> UDP_SNIFF_MAX_PENDING_SESSIONS"
  shows "\<exists>s'. handle_udp_client_payload C N False ready now spec payload s = Inr s' \<and> good_step (sp_key spec) payload s s'"
proof (cases ready)
  case True
  let ?s = "pending_drop (sp_key spec) s"
  have "handles k (if k = sp_key spec then [payload] else []) s (emit [ToSession (sp_key spec) payload] ?s)" for k
    by (cases "map_of (ul_pending s) (sp_key spec)")
      (auto simp: handles_def pending_drop_def held_def [of "sp_key spec" s])
  moreover have "ul_ok ?s" "length (ul_pending ?s) \<le> UDP_SNIFF_MAX_PENDING_SESSIONS"
    using pending_drop_ok [OF assms(2)] assms(3) length_pending_remove [of "sp_key spec" s]
    by (auto simp: pending_drop_def emit_def split: option.split)
  ultimately show ?thesis
    using True by (simp add: handle_udp_client_payload_def good_step_def) (simp add: emit_def)
next
  case False
  show ?thesis
  proof (cases "map_of (ul_pending s) (sp_key spec)")
    case None
    then have none: "handle_pending_udp_sniff C now spec payload s = Inr (False, s)"
      by (simp add: handle_pending_udp_sniff_def)
    from handle_new_good [OF assms None, of N now payload] show ?thesis
    proof (elim disjE exE conjE)
      fix app assume "handle_new_udp_sniff C N now spec payload s = Inr (False, s\<lparr>ul_app := app\<rparr>)"
      moreover have "good_step (sp_key spec) payload s (forward_udp_payload spec payload (s\<lparr>ul_app := app\<rparr>))"
        using good_forward [of "s\<lparr>ul_app := app\<rparr>" spec spec payload] assms None by (simp add: good_step_app)
      ultimately show ?thesis using False none by (simp add: handle_udp_client_payload_def)
    next
      fix s' assume "handle_new_udp_sniff C N now spec payload s = Inr (True, s')" "good_step (sp_key spec) payload s s'"
      then show ?thesis using False none by (simp add: handle_udp_client_payload_def)
    qed
  next
    case (Some pe)
    with handle_pending_good [OF assms, of now spec payload] False show ?thesis
      by (auto simp: handle_udp_client_payload_def)
  qed
qed

section \<open>The loop\<close>

text \<open>
  The loop of one listener: the reachable states with the packets handled so far, each with its flow
  and whether the reaper was flushing that flow at the time. The runtime may be closed or have a
  session ready at any packet.
\<close>

inductive udp_loop ::
  "quic_crates \<Rightarrow> ('n4, 'n6) net_ops \<Rightarrow> ('n4, 'n6, nat) AppState \<Rightarrow> UdpSniffer list \<Rightarrow>
   (UdpSessionKey \<times> bytes \<times> bool) list \<Rightarrow> ('n4, 'n6) UdpLoop \<Rightarrow> bool" for C N app engines where
  start: "udp_loop C N app engines []
     \<lparr>ul_app = app, ul_sniffers = engines, ul_pending = [], ul_reap_keys = [], ul_flushing = [], ul_log = []\<rparr>"
| ignored: "udp_loop C N app engines evs s \<Longrightarrow>
     handle_udp_client_payload C N True ready now spec payload s = Inr s' \<Longrightarrow> udp_loop C N app engines evs s'"
| packet: "udp_loop C N app engines evs s \<Longrightarrow>
     handle_udp_client_payload C N False ready now spec payload s = Inr s' \<Longrightarrow>
     udp_loop C N app engines (evs @ [(sp_key spec, payload, inflight (sp_key spec) s \<noteq> [])]) s'"
| collect: "udp_loop C N app engines evs s \<Longrightarrow> ul_reap_keys s = [] \<Longrightarrow> ul_flushing s = [] \<Longrightarrow>
     udp_loop C N app engines evs (reap_collect now s)"
| take: "udp_loop C N app engines evs s \<Longrightarrow> ul_flushing s = [] \<Longrightarrow> udp_loop C N app engines evs (reap_take s)"
| forward: "udp_loop C N app engines evs s \<Longrightarrow> udp_loop C N app engines evs (reap_forward s)"
| capacity: "udp_loop C N app engines evs s \<Longrightarrow> ul_reap_keys s = [] \<Longrightarrow> ul_flushing s = [] \<Longrightarrow>
     udp_loop C N app engines evs (enforce_pending_udp_sniff_capacity s)"

definition received :: "UdpSessionKey \<Rightarrow> (UdpSessionKey \<times> bytes \<times> bool) list \<Rightarrow> bytes list" where
  "received k evs = map (fst \<circ> snd) (filter (\<lambda>(k', _). k' = k) evs)"

text \<open>What holds of a state and a flow after the packets received.\<close>

definition conserved :: "UdpSessionKey \<Rightarrow> (UdpSessionKey \<times> bytes \<times> bool) list \<Rightarrow> ('n4, 'n6) UdpLoop \<Rightarrow> bool" where
  "conserved k evs s \<longleftrightarrow>
     mset (outs k s @ inflight k s @ held k s) = mset (received k evs) \<and>
     ((\<forall>p. (k, p, True) \<notin> set evs) \<longrightarrow>
        outs k s @ inflight k s @ held k s = received k evs \<and> (inflight k s \<noteq> [] \<longrightarrow> held k s = []))"

lemma conserved_handles:
  assumes "conserved k evs s" and "handles k [] s s'"
  shows "conserved k evs s'"
proof -
  have i: "inflight k s' = inflight k s" using assms(2) by (simp add: handles_def inflight_def)
  obtain gone where g: "outs k s' = outs k s @ gone" "held k s = gone @ held k s'"
    using assms(2) by (auto simp: handles_def)
  have "mset (outs k s' @ inflight k s' @ held k s') = mset (outs k s @ inflight k s @ held k s)"
    by (simp add: i g)
  moreover have "outs k s' @ inflight k s' @ held k s' = outs k s @ inflight k s @ held k s"
    if "inflight k s \<noteq> [] \<longrightarrow> held k s = []"
    using that i g by (cases "inflight k s = []") auto
  ultimately show ?thesis
    using assms(1) i g(2) unfolding conserved_def by (metis append_is_Nil_conv)
qed

lemma conserved_packet:
  assumes "conserved k evs s" and "handles k (if k = key then [p] else []) s s'"
  shows "conserved k (evs @ [(key, p, inflight key s \<noteq> [])]) s'"
proof (cases "k = key")
  case True
  let ?evs = "evs @ [(key, p, inflight key s \<noteq> [])]"
  have i: "inflight k s' = inflight k s" using assms(2) by (simp add: handles_def inflight_def)
  obtain gone where g: "outs k s' = outs k s @ gone" "gone @ held k s' = held k s @ [p]"
    using assms(2) True by (auto simp: handles_def)
  have r: "received k ?evs = received k evs @ [p]" by (simp add: received_def True)
  have "mset (outs k s' @ inflight k s' @ held k s') = mset (outs k s) + mset (inflight k s) + mset (gone @ held k s')"
    by (simp add: i g(1))
  also have "\<dots> = mset (outs k s @ inflight k s @ held k s) + {#p#}" unfolding g(2) by simp
  finally have "mset (outs k s' @ inflight k s' @ held k s') = mset (received k ?evs)"
    using assms(1) by (simp add: conserved_def r)
  moreover have "outs k s' @ inflight k s' @ held k s' = received k ?evs \<and> inflight k s' = []"
    if "\<forall>q. (k, q, True) \<notin> set ?evs"
  proof -
    from that have "inflight k s = []" "\<forall>q. (k, q, True) \<notin> set evs" using True by (auto split: if_splits)
    with assms(1) g i show ?thesis by (simp add: conserved_def r)
  qed
  ultimately show ?thesis unfolding conserved_def by blast
next
  case False
  then have "conserved k evs s'" using conserved_handles [OF assms(1)] assms(2) by simp
  with False show ?thesis by (auto simp: conserved_def received_def)
qed

lemma conserved_take:
  assumes "conserved k evs s" and "ul_ok s" and "ul_flushing s = []"
  shows "conserved k evs (reap_take s)" and "ul_ok (reap_take s)"
    and "length (ul_pending (reap_take s)) \<le> length (ul_pending s)"
proof -
  show "ul_ok (reap_take s)" "length (ul_pending (reap_take s)) \<le> length (ul_pending s)"
    using assms(2) length_pending_remove [of _ s]
    by (auto simp: reap_take_def Let_def ul_ok_def pending_remove_def AList.delete_eq distinct_map_filter
        split: list.split option.split)
  have "inflight k (reap_take s) @ held k (reap_take s) = held k s \<and> outs k (reap_take s) = outs k s \<and>
      (inflight k (reap_take s) \<noteq> [] \<longrightarrow> held k (reap_take s) = [])"
  proof (cases "ul_reap_keys s")
    case (Cons key keys)
    show ?thesis
    proof (cases "map_of (ul_pending s) key")
      case None
      with Cons assms(3) show ?thesis by (simp add: reap_take_def inflight_def held_def outs_def)
    next
      case (Some pe)
      then have key: "sp_key (pe_spec pe) = key" using ul_ok_pending [OF assms(2)] by (simp add: pending_ok_def)
      have "concat (map ((\<lambda>(spec, p). if sp_key spec = k then [p] else []) \<circ> Pair (pe_spec pe)) ps) =
          (if k = key then ps else [])" for ps :: "bytes list"
        using key by (induction ps) auto
      with Cons Some key show ?thesis
        by (simp add: reap_take_def Let_def inflight_def held_def outs_def pending_remove_def delete_conv')
    qed
  qed (use assms(3) in \<open>simp add: reap_take_def inflight_def\<close>)
  with assms(1,3) show "conserved k evs (reap_take s)"
    unfolding conserved_def by (simp add: inflight_def [of k s])
qed

lemma conserved_forward: "conserved k evs s \<Longrightarrow> conserved k evs (reap_forward s)"
  by (cases "ul_flushing s")
    (auto simp: reap_forward_def conserved_def forward_udp_payload_def inflight_def outs_def held_def emit_def)

lemma conserved_collect [simp]: "conserved k evs (reap_collect now s) = conserved k evs s"
  by (simp add: conserved_def reap_collect_def outs_def inflight_def held_def)

lemma udp_loop_ok:
  assumes "quic_crates_ok C"
  shows "udp_loop C N app engines evs s \<Longrightarrow>
    ul_ok s \<and> length (ul_pending s) \<le> UDP_SNIFF_MAX_PENDING_SESSIONS \<and> conserved k evs s"
proof (induction rule: udp_loop.induct)
  case start
  show ?case by (simp add: ul_ok_def conserved_def outs_def inflight_def held_def received_def)
next
  case (ignored evs s ready now spec payload s')
  then show ?case by (simp add: handle_udp_client_payload_def)
next
  case (packet evs s ready now spec payload s')
  then have "good_step (sp_key spec) payload s s'"
    using client_payload_good [OF assms, of s N ready now spec payload] by auto
  with packet conserved_packet [of k evs s "sp_key spec" payload s'] show ?case by (simp add: good_step_def)
next
  case (collect evs s now)
  then show ?case by (simp add: ul_ok_def) (simp add: reap_collect_def)
next
  case (take evs s)
  with conserved_take [of k evs s] show ?case by simp
next
  case (forward evs s)
  have "ul_pending (reap_forward s) = ul_pending s"
    by (simp add: reap_forward_def forward_udp_payload_def emit_def split: list.split prod.split)
  with forward conserved_forward [of k evs s] show ?case by (simp add: ul_ok_def)
next
  case (capacity evs s)
  with enforce_capacity [of s k] conserved_handles show ?case by blast
qed

section \<open>Properties\<close>


text \<open>A port-forward flow in full mode; a lone first byte of a long header needs more data.\<close>

definition full_mode_app :: "('n4, 'n6, nat) AppState" where
  "full_mode_app = ruleless_state (default_config []\<lparr>c_quic_sniff_mode := FullMode\<rparr>)"

definition forward_spec :: UdpSessionSpec where
  "forward_spec = for_port_forward (SocketAddr (V4 1) 53) (SocketAddr (V4 2) 4000) (SocketAddr (V4 3) 443) 0"

lemma forward_spec_simps [simp]: "sp_routing forward_spec = RForceSocks5"
  by (simp add: forward_spec_def for_port_forward_def)

lemma full_mode_app_simps [simp]:
  "c_quic_sniff_mode (st_config full_mode_app) = FullMode"
  "c_quic_sniff_pending_timeout_ms (st_config full_mode_app) = 200"
  by (simp_all add: full_mode_app_def ruleless_state_def default_config_def)

lemma feed_first_byte: "quic_feed C [0xc0] r = (Inr (UNeedMore QuicSni), r)"
  by (simp add: quic_feed_def sniff_quic_sni_from_datagram_with_reassembly_def rng_def idx_def sub_list_def
      QUIC_SNI_INPUT_CAP_def quic_datagram_loop.simps quic_parse_one_initial_packet_def quic_initial_head_def
      quic_read_u32_def)

lemma enforce_small: "length (ul_pending s) \<le> 4096 \<Longrightarrow> enforce_pending_udp_sniff_capacity s = s"
  by (subst enforce_pending_udp_sniff_capacity.simps) (simp add: UDP_SNIFF_MAX_PENDING_SESSIONS_def)

definition held_state :: "('n4, 'n6) UdpLoop" where
  "held_state = \<lparr>ul_app = full_mode_app, ul_sniffers = [QuicSniUdpSniffer],
     ul_pending = [(sp_key forward_spec, pending_new 0 forward_spec reassembly_new [0xc0] 200)],
     ul_reap_keys = [], ul_flushing = [], ul_log = []\<rparr>"

lemma held_state_reached:
  "udp_loop C N full_mode_app [QuicSniUdpSniffer] [(sp_key forward_spec, [0xc0], False)] held_state"
proof -
  let ?s = "\<lparr>ul_app = full_mode_app, ul_sniffers = [QuicSniUdpSniffer], ul_pending = [], ul_reap_keys = [],
     ul_flushing = [], ul_log = []\<rparr>"
  have "handle_udp_client_payload C N False False 0 forward_spec [0xc0] ?s = Inr held_state"
    by (simp add: handle_udp_client_payload_def handle_pending_udp_sniff_def handle_new_udp_sniff_def Let_def
        feed_first_byte enforce_small pending_insert_def held_state_def)
  from udp_loop.packet [OF udp_loop.start this] show ?thesis by (simp add: inflight_def)
qed


text \<open>
  A datagram that is held back when a session for its flow becomes ready, which the reaper brings
  about when it flushes an older entry of the flow, is dropped by the next packet.
\<close>

theorem held_datagram_lost_on_ready_session:
  "\<exists>s. udp_loop C N full_mode_app [QuicSniUdpSniffer]
      [(sp_key forward_spec, [0xc0], False), (sp_key forward_spec, [1], False)] s \<and>
     ul_log s = [Dropped (sp_key forward_spec) [[0xc0]], ToSession (sp_key forward_spec) [1]]"
proof -
  let ?s = "held_state\<lparr>ul_pending := [],
     ul_log := [Dropped (sp_key forward_spec) [[0xc0]], ToSession (sp_key forward_spec) [1]]\<rparr>"
  have "handle_udp_client_payload C N False True 10 forward_spec [1] held_state = Inr ?s"
    by (simp add: handle_udp_client_payload_def pending_drop_def pending_remove_def emit_def held_state_def
        pending_new_def replay_new_def)
  from udp_loop.packet [OF held_state_reached this] show ?thesis
    by (intro exI [of _ ?s]) (simp add: inflight_def held_state_def)
qed

end
