(* ===== verification/Udp_Runtime.thy ===== *)
theory Udp_Runtime
  imports Udp_Pending
begin

text \<open>
  The table of UDP sessions (\<open>UdpRuntime\<close> in \<open>udp/mod.rs\<close>). Every section of the code that runs
  under the mutex of the table is one function; the tasks that call \<open>get_or_create_udp_session\<close>,
  the receive loops, the collector and the shutdown interleave between those sections as the step
  relation \<open>rt_step\<close> allows. Sessions and \<open>Notify\<close> objects are addressed by number.
\<close>

section \<open>State\<close>

datatype UdpSessionEntry = Creating nat | Ready nat

text \<open>Where a call of \<open>get_or_create_udp_session\<close> stands.\<close>

datatype CallState =
  Entering | Waiting nat | Building nat | Built nat "UdpError + nat" | Returned "UdpError + nat"

record UdpRuntime =
  rt_sessions :: "(UdpSessionKey \<times> UdpSessionEntry) list"
  rt_objects :: "nat \<rightharpoonup> UdpSession"
  rt_closed :: bool
  rt_notified :: "nat set"
  rt_next :: nat
  rt_calls :: "nat \<rightharpoonup> UdpSessionKey \<times> CallState"
  rt_cleared :: bool

definition udp_runtime_new :: UdpRuntime where
  "udp_runtime_new = \<lparr>rt_sessions = [], rt_objects = Map.empty, rt_closed = False, rt_notified = {},
     rt_next = 0, rt_calls = Map.empty, rt_cleared = False\<rparr>"

abbreviation entry :: "UdpRuntime \<Rightarrow> UdpSessionKey \<Rightarrow> UdpSessionEntry option" where
  "entry rt \<equiv> map_of (rt_sessions rt)"

section \<open>Operations on the table\<close>

definition set_call :: "nat \<Rightarrow> UdpSessionKey \<Rightarrow> CallState \<Rightarrow> UdpRuntime \<Rightarrow> UdpRuntime" where
  "set_call t key c rt = rt\<lparr>rt_calls := (rt_calls rt)(t \<mapsto> (key, c))\<rparr>"

definition rt_remove :: "UdpSessionKey \<Rightarrow> UdpRuntime \<Rightarrow> UdpRuntime" where
  "rt_remove key rt = rt\<lparr>rt_sessions := AList.delete key (rt_sessions rt)\<rparr>"

definition notify_waiters :: "nat set \<Rightarrow> UdpRuntime \<Rightarrow> UdpRuntime" where
  "notify_waiters ns rt = rt\<lparr>rt_notified := rt_notified rt \<union> ns\<rparr>"

definition cancel_in :: "nat set \<Rightarrow> (nat \<rightharpoonup> UdpSession) \<Rightarrow> (nat \<rightharpoonup> UdpSession)" where
  "cancel_in ps objects =
     (\<lambda>q. if q \<in> ps then map_option (\<lambda>se. se\<lparr>se_cancelled := True\<rparr>) (objects q) else objects q)"

definition cancel_session :: "nat \<Rightarrow> UdpRuntime \<Rightarrow> UdpRuntime" where
  "cancel_session p rt = rt\<lparr>rt_objects := cancel_in {p} (rt_objects rt)\<rparr>"

definition session_cancelled :: "UdpRuntime \<Rightarrow> nat \<Rightarrow> bool" where
  "session_cancelled rt p = (case rt_objects rt p of Some se \<Rightarrow> se_cancelled se | None \<Rightarrow> True)"

text \<open>The loop of \<open>get_or_create_udp_session\<close> up to the reservation, once under the lock.\<close>

definition lookup_or_reserve :: "nat \<Rightarrow> UdpSessionKey \<Rightarrow> UdpRuntime \<Rightarrow> UdpRuntime" where
  "lookup_or_reserve t key rt =
     (if rt_closed rt then set_call t key (Returned (Inl RuntimeClosed)) rt
      else case entry rt key of
             Some (Ready p) \<Rightarrow> set_call t key (Returned (Inr p)) rt
           | Some (Creating n) \<Rightarrow> set_call t key (Waiting n) rt
           | None \<Rightarrow>
               let n = rt_next rt
               in set_call t key (Building n)
                    (rt\<lparr>rt_sessions := AList.update key (Creating n) (rt_sessions rt), rt_next := n + 1\<rparr>))"

text \<open>
  \<open>create_udp_session\<close> has ended: with an error, with a panic of its task, or with a session whose
  receive loop is running.
\<close>

definition creation_done :: "nat \<Rightarrow> UdpSessionKey \<Rightarrow> nat \<Rightarrow> UdpError + UdpSession \<Rightarrow> UdpRuntime \<Rightarrow> UdpRuntime" where
  "creation_done t key n created rt =
     (case created of
        Inl e \<Rightarrow> set_call t key (Built n (Inl e)) rt
      | Inr se \<Rightarrow>
          let p = rt_next rt
          in set_call t key (Built n (Inr p)) (rt\<lparr>rt_objects := (rt_objects rt)(p \<mapsto> se), rt_next := p + 1\<rparr>))"

text \<open>The registration of what was created, under the lock.\<close>

definition register :: "nat \<Rightarrow> UdpSessionKey \<Rightarrow> nat \<Rightarrow> UdpError + nat \<Rightarrow> UdpRuntime \<Rightarrow> UdpRuntime" where
  "register t key n created rt =
     (if created = Inl CreationPanicked
      then set_call t key (Returned (Inl CreationPanicked)) (notify_waiters {n} (rt_remove key rt))
      else if rt_closed rt
      then set_call t key (Returned (Inl RuntimeClosed))
             ((case created of Inr p \<Rightarrow> cancel_session p | Inl _ \<Rightarrow> id) (notify_waiters {n} (rt_remove key rt)))
      else case created of
             Inl e \<Rightarrow> set_call t key (Returned (Inl e)) (notify_waiters {n} (rt_remove key rt))
           | Inr p \<Rightarrow>
               if session_cancelled rt p
               then set_call t key (Returned (Inl ExitedBeforeRegistration)) (notify_waiters {n} (rt_remove key rt))
               else set_call t key (Returned (Inr p))
                      (notify_waiters {n} (rt\<lparr>rt_sessions := AList.update key (Ready p) (rt_sessions rt)\<rparr>)))"

text \<open>What the task of a receive loop does after the loop: cancel, then remove its own entry.\<close>

definition recv_loop_unregister :: "UdpSessionKey \<Rightarrow> nat \<Rightarrow> UdpRuntime \<Rightarrow> UdpRuntime" where
  "recv_loop_unregister key p rt = (if entry rt key = Some (Ready p) then rt_remove key rt else rt)"

definition session_expired :: "nat \<Rightarrow> nat \<Rightarrow> UdpRuntime \<Rightarrow> nat \<Rightarrow> bool" where
  "session_expired now_secs timeout_secs rt p =
     (case rt_objects rt p of Some se \<Rightarrow> timeout_secs \<le> now_secs - se_last_seen_secs se | None \<Rightarrow> False)"

text \<open>
  \<open>cleanup_expired_sessions\<close>: a snapshot of the ready sessions that look expired, and later, under
  the lock again, the removal of those that still are the registered ones and still expired.
\<close>

fun ready_sessions :: "(UdpSessionKey \<times> UdpSessionEntry) list \<Rightarrow> (UdpSessionKey \<times> nat) list" where
  "ready_sessions [] = []"
| "ready_sessions ((key, Ready p) # es) = (key, p) # ready_sessions es"
| "ready_sessions ((key, Creating n) # es) = ready_sessions es"

definition expired_snapshot :: "nat \<Rightarrow> nat \<Rightarrow> UdpRuntime \<Rightarrow> (UdpSessionKey \<times> nat) list" where
  "expired_snapshot now_secs timeout_secs rt =
     filter (\<lambda>(key, p). session_expired now_secs timeout_secs rt p) (ready_sessions (rt_sessions rt))"

definition sweep_expired :: "nat \<Rightarrow> nat \<Rightarrow> UdpSessionKey \<times> nat \<Rightarrow> UdpRuntime \<Rightarrow> UdpRuntime" where
  "sweep_expired now_secs timeout_secs e rt =
     (case e of (key, p) \<Rightarrow>
        if entry rt key = Some (Ready p) \<and> session_expired now_secs timeout_secs rt p
        then cancel_session p (rt_remove key rt) else rt)"

definition cleanup_expired_sessions :: "nat \<Rightarrow> nat \<Rightarrow> (UdpSessionKey \<times> nat) list \<Rightarrow> UdpRuntime \<Rightarrow> UdpRuntime" where
  "cleanup_expired_sessions now_secs timeout_secs expired rt = fold (sweep_expired now_secs timeout_secs) expired rt"

definition get_ready_udp_session :: "UdpSessionKey \<Rightarrow> UdpRuntime \<Rightarrow> nat option" where
  "get_ready_udp_session key rt = (case entry rt key of Some (Ready p) \<Rightarrow> Some p | _ \<Rightarrow> None)"

text \<open>\<open>shutdown\<close> sets the flag, then empties the table under the lock.\<close>

definition rt_close :: "UdpRuntime \<Rightarrow> UdpRuntime" where
  "rt_close rt = rt\<lparr>rt_closed := True\<rparr>"

fun creations :: "(UdpSessionKey \<times> UdpSessionEntry) list \<Rightarrow> nat list" where
  "creations [] = []"
| "creations ((key, Creating n) # es) = n # creations es"
| "creations ((key, Ready p) # es) = creations es"

definition rt_clear :: "UdpRuntime \<Rightarrow> UdpRuntime" where
  "rt_clear rt =
     (let listed = snd ` set (ready_sessions (rt_sessions rt));
          notifies = set (creations (rt_sessions rt))
      in rt\<lparr>rt_sessions := [],
            rt_objects := cancel_in listed (rt_objects rt),
            rt_notified := rt_notified rt \<union> notifies, rt_cleared := True\<rparr>)"

section \<open>Interleavings\<close>

inductive rt_step :: "UdpRuntime \<Rightarrow> UdpRuntime \<Rightarrow> bool" where
  call: "rt_calls rt t = None \<Longrightarrow>
     rt_step rt (set_call t key (if rt_closed rt then Returned (Inl RuntimeClosed) else Entering) rt)"
| reserve: "rt_calls rt t = Some (key, Entering) \<Longrightarrow> rt_step rt (lookup_or_reserve t key rt)"
| wake: "rt_calls rt t = Some (key, Waiting n) \<Longrightarrow> n \<in> rt_notified rt \<Longrightarrow> rt_step rt (set_call t key Entering rt)"
| created: "rt_calls rt t = Some (key, Building n) \<Longrightarrow>
     (\<forall>se. created = Inr se \<longrightarrow> sp_key (se_spec se) = key \<and> \<not> se_cancelled se) \<Longrightarrow>
     rt_step rt (creation_done t key n created rt)"
| register: "rt_calls rt t = Some (key, Built n created) \<Longrightarrow> rt_step rt (register t key n created rt)"
| loop_exit: "rt_step rt (cancel_session p rt)"
| loop_unregister: "session_cancelled rt p \<Longrightarrow> rt_step rt (recv_loop_unregister key p rt)"
| touch: "rt_objects rt p = Some se \<Longrightarrow> rt_step rt (rt\<lparr>rt_objects := (rt_objects rt)(p \<mapsto> touch now se)\<rparr>)"
| sweep: "rt_step rt (sweep_expired now timeout e rt)"
| close: "rt_step rt (rt_close rt)"
| clear: "rt_closed rt \<Longrightarrow> rt_step rt (rt_clear rt)"

inductive rt_reachable :: "UdpRuntime \<Rightarrow> bool" where
  start: "rt_reachable udp_runtime_new"
| step: "rt_reachable rt \<Longrightarrow> rt_step rt rt' \<Longrightarrow> rt_reachable rt'"

inductive_cases rt_stepE: "rt_step rt rt'"

section \<open>Invariant\<close>

text \<open>The number of the creation a call is working on.\<close>

fun building :: "CallState \<Rightarrow> nat option" where
  "building (Building n) = Some n"
| "building (Built n _) = Some n"
| "building _ = None"

definition builds :: "UdpRuntime \<Rightarrow> nat \<Rightarrow> UdpSessionKey \<Rightarrow> nat \<Rightarrow> bool" where
  "builds rt t key n \<longleftrightarrow> (\<exists>c. rt_calls rt t = Some (key, c) \<and> building c = Some n)"

text \<open>Creations: numbered, one per flow until the table is cleared, and announced in the table.\<close>

definition creations_ok :: "UdpRuntime \<Rightarrow> bool" where
  "creations_ok rt \<longleftrightarrow>
     (\<forall>t key n. builds rt t key n \<longrightarrow> n < rt_next rt \<and> (rt_cleared rt \<or> entry rt key = Some (Creating n))) \<and>
     (\<forall>t t' key key' n. builds rt t key n \<longrightarrow> builds rt t' key' n \<longrightarrow> t = t' \<and> key = key')"

text \<open>Waiting calls have been notified or somebody will notify them.\<close>

definition waits_ok :: "UdpRuntime \<Rightarrow> bool" where
  "waits_ok rt \<longleftrightarrow>
     (\<forall>key n. entry rt key = Some (Creating n) \<longrightarrow> (\<exists>t. builds rt t key n)) \<and>
     (\<forall>t key n. rt_calls rt t = Some (key, Waiting n) \<longrightarrow> n \<in> rt_notified rt \<or> (\<exists>t'. builds rt t' key n))"

text \<open>Sessions are those of their flow, and a live one is registered or about to be.\<close>

definition has_object :: "UdpRuntime \<Rightarrow> nat \<Rightarrow> UdpSessionKey \<Rightarrow> bool" where
  "has_object rt p key \<longleftrightarrow> p < rt_next rt \<and> (\<exists>se. rt_objects rt p = Some se \<and> sp_key (se_spec se) = key)"

definition registered :: "UdpRuntime \<Rightarrow> nat \<Rightarrow> bool" where
  "registered rt p \<longleftrightarrow> (\<exists>key. entry rt key = Some (Ready p)) \<or> (\<exists>t key n. rt_calls rt t = Some (key, Built n (Inr p)))"

definition sessions_ok :: "UdpRuntime \<Rightarrow> bool" where
  "sessions_ok rt \<longleftrightarrow>
     (\<forall>key p. entry rt key = Some (Ready p) \<longrightarrow> has_object rt p key) \<and>
     (\<forall>t key p. rt_calls rt t = Some (key, Returned (Inr p)) \<longrightarrow> has_object rt p key) \<and>
     (\<forall>t key n p. rt_calls rt t = Some (key, Built n (Inr p)) \<longrightarrow> has_object rt p key) \<and>
     (\<forall>p. \<not> session_cancelled rt p \<longrightarrow> registered rt p) \<and>
     (rt_cleared rt \<longrightarrow> rt_closed rt \<and> rt_sessions rt = [])"

definition rt_ok :: "UdpRuntime \<Rightarrow> bool" where
  "rt_ok rt \<longleftrightarrow> creations_ok rt \<and> waits_ok rt \<and> sessions_ok rt"

section \<open>Frames\<close>

lemma rt_calls_simps [simp]:
  "rt_calls (set_call t key c rt) = (rt_calls rt)(t \<mapsto> (key, c))"
  "rt_calls (rt_remove key rt) = rt_calls rt" "rt_calls (notify_waiters ns rt) = rt_calls rt"
  "rt_calls (cancel_session p rt) = rt_calls rt"
  by (simp_all add: set_call_def rt_remove_def notify_waiters_def cancel_session_def)

lemma rt_sessions_simps [simp]:
  "rt_sessions (set_call t key c rt) = rt_sessions rt"
  "rt_sessions (rt_remove key rt) = AList.delete key (rt_sessions rt)"
  "rt_sessions (notify_waiters ns rt) = rt_sessions rt" "rt_sessions (cancel_session p rt) = rt_sessions rt"
  by (simp_all add: set_call_def rt_remove_def notify_waiters_def cancel_session_def)

lemma rt_rest_simps [simp]:
  "rt_notified (set_call t key c rt) = rt_notified rt" "rt_notified (rt_remove key rt) = rt_notified rt"
  "rt_notified (notify_waiters ns rt) = rt_notified rt \<union> ns" "rt_notified (cancel_session p rt) = rt_notified rt"
  "rt_next (set_call t key c rt) = rt_next rt" "rt_next (rt_remove key rt) = rt_next rt"
  "rt_next (notify_waiters ns rt) = rt_next rt" "rt_next (cancel_session p rt) = rt_next rt"
  "rt_cleared (set_call t key c rt) = rt_cleared rt" "rt_cleared (rt_remove key rt) = rt_cleared rt"
  "rt_cleared (notify_waiters ns rt) = rt_cleared rt" "rt_cleared (cancel_session p rt) = rt_cleared rt"
  "rt_closed (set_call t key c rt) = rt_closed rt" "rt_closed (rt_remove key rt) = rt_closed rt"
  "rt_closed (notify_waiters ns rt) = rt_closed rt" "rt_closed (cancel_session p rt) = rt_closed rt"
  "rt_objects (set_call t key c rt) = rt_objects rt" "rt_objects (rt_remove key rt) = rt_objects rt"
  "rt_objects (notify_waiters ns rt) = rt_objects rt"
  by (simp_all add: set_call_def rt_remove_def notify_waiters_def cancel_session_def)

lemma builds_simps [simp]:
  "builds (set_call t key c rt) t' key' n = (if t' = t then key' = key \<and> building c = Some n else builds rt t' key' n)"
  "builds (rt_remove k rt) t' key' n = builds rt t' key' n" "builds (notify_waiters ns rt) t' key' n = builds rt t' key' n"
  "builds (cancel_session p rt) t' key' n = builds rt t' key' n"
  by (auto simp: builds_def)

lemma session_cancelled_simps [simp]:
  "session_cancelled (set_call t key c rt) q = session_cancelled rt q"
  "session_cancelled (rt_remove k rt) q = session_cancelled rt q"
  "session_cancelled (notify_waiters ns rt) q = session_cancelled rt q"
  "session_cancelled (cancel_session p rt) q = (q = p \<or> session_cancelled rt q)"
  by (simp_all add: session_cancelled_def cancel_session_def cancel_in_def split: option.split)

lemma has_object_simps [simp]:
  "has_object (set_call t key c rt) q k = has_object rt q k" "has_object (rt_remove k' rt) q k = has_object rt q k"
  "has_object (notify_waiters ns rt) q k = has_object rt q k" "has_object (cancel_session p rt) q k = has_object rt q k"
  by (auto simp: has_object_def cancel_session_def cancel_in_def)

lemma registered_simps [simp]:
  "registered (notify_waiters ns rt) p = registered rt p" "registered (cancel_session q rt) p = registered rt p"
  by (simp_all add: registered_def)

lemma registered_set_call:
  assumes "registered rt p" and "\<And>key n. rt_calls rt t \<noteq> Some (key, Built n (Inr p))"
  shows "registered (set_call t k c rt) p"
  using assms unfolding registered_def by simp metis

lemma registered_remove:
  assumes "registered rt p" and "entry rt k \<noteq> Some (Ready p)"
  shows "registered (rt_remove k rt) p"
  using assms unfolding registered_def by (simp add: delete_conv') metis

section \<open>Preservation\<close>

lemma rt_okD:
  assumes "rt_ok rt"
  shows "\<not> session_cancelled rt p \<Longrightarrow> registered rt p" and "entry rt key = Some (Ready p) \<Longrightarrow> has_object rt p key"
    and "rt_cleared rt \<Longrightarrow> rt_sessions rt = []" and "rt_cleared rt \<Longrightarrow> rt_closed rt"
  using assms by (simp_all add: rt_ok_def sessions_ok_def)

lemma builds_call: "rt_calls rt t = Some (key, c) \<Longrightarrow> builds rt t key' n \<longleftrightarrow> key' = key \<and> building c = Some n"
  by (auto simp: builds_def)

lemma builds_entry: "rt_ok rt \<Longrightarrow> builds rt t key n \<Longrightarrow> rt_cleared rt \<or> entry rt key = Some (Creating n)"
  by (simp add: rt_ok_def creations_ok_def)

lemma builds_unique: "rt_ok rt \<Longrightarrow> builds rt t key n \<Longrightarrow> builds rt t' key' n \<Longrightarrow> t' = t \<and> key' = key"
  unfolding rt_ok_def creations_ok_def by blast

text \<open>A call that builds nothing before and after.\<close>

lemma set_call_idle_ok:
  assumes "rt_ok rt" and "\<forall>key' n. \<not> builds rt t key' n" and "building c = None"
    and "\<forall>n. c = Waiting n \<longrightarrow> n \<in> rt_notified rt \<or> (\<exists>t'. builds rt t' key n)"
    and "\<forall>p. c = Returned (Inr p) \<longrightarrow> has_object rt p key"
  shows "rt_ok (set_call t key c rt)"
  unfolding rt_ok_def
proof (intro conjI)
  have bs: "builds (set_call t key c rt) = builds rt" using assms(2,3) by (intro ext) simp
  show "creations_ok (set_call t key c rt)"
    using assms(1,3) unfolding rt_ok_def creations_ok_def by simp
  show "waits_ok (set_call t key c rt)"
    using assms(1,4) unfolding rt_ok_def waits_ok_def bs by simp
  have nb: "\<And>n p. c \<noteq> Built n (Inr p)" using assms(3) by auto
  have old: "\<And>key' n p. rt_calls rt t \<noteq> Some (key', Built n (Inr p))" using assms(2) by (auto simp: builds_def)
  have "registered (set_call t key c rt) p" if "\<not> session_cancelled rt p" for p
    using registered_set_call [OF rt_okD(1) [OF assms(1) that] old] .
  with assms(1,5) nb show "sessions_ok (set_call t key c rt)"
    unfolding rt_ok_def sessions_ok_def by simp
qed

text \<open>A creation that ends without a registered session.\<close>

lemma release_ok:
  assumes ok: "rt_ok rt" and call: "rt_calls rt t = Some (key, Built n created)"
    and dead: "\<And>p. created = Inr p \<Longrightarrow> session_cancelled rt p"
  shows "rt_ok (set_call t key (Returned (Inl e)) (notify_waiters {n} (rt_remove key rt)))" (is "rt_ok ?rt")
  unfolding rt_ok_def
proof (intro conjI)
  have b: "builds rt t key' n' \<longleftrightarrow> key' = key \<and> n' = n" for key' n' by (auto simp: builds_call [OF call])
  have other: "key' \<noteq> key" if "builds rt t' key' n'" "t' \<noteq> t" "\<not> rt_cleared rt" for t' key' n'
    using builds_entry [OF ok that(1)] builds_entry [OF ok, of t key n] that b builds_unique [OF ok, of t key n t'] by auto
  show "creations_ok ?rt"
    using ok other unfolding rt_ok_def creations_ok_def by (auto simp: delete_conv')
  show "waits_ok ?rt"
    using ok unfolding rt_ok_def waits_ok_def by (simp add: delete_conv') (metis b)
  have "registered ?rt p" if "\<not> session_cancelled rt p" for p
  proof (rule registered_set_call)
    have "entry rt key \<noteq> Some (Ready p)"
      using builds_entry [OF ok, of t key n] b rt_okD(3) [OF ok] by auto
    then show "registered (notify_waiters {n} (rt_remove key rt)) p"
      using registered_remove [OF rt_okD(1) [OF ok that]] by simp
  qed (use call dead that in auto)
  then show "sessions_ok ?rt"
    using ok unfolding rt_ok_def sessions_ok_def by (simp add: delete_conv')
qed

lemma cancel_session_ok: "rt_ok rt \<Longrightarrow> rt_ok (cancel_session p rt)"
  unfolding rt_ok_def creations_ok_def waits_ok_def sessions_ok_def by simp

lemma remove_ready_ok:
  assumes "rt_ok rt" and "entry rt key = Some (Ready p)" and "session_cancelled rt p"
  shows "rt_ok (rt_remove key rt)"
  unfolding rt_ok_def
proof (intro conjI)
  have other: "key' \<noteq> key" if "builds rt t' key' n'" for t' key' n'
    using builds_entry [OF assms(1) that] assms(1,2) by (auto simp: rt_ok_def sessions_ok_def)
  show "creations_ok (rt_remove key rt)"
    using assms(1) other unfolding rt_ok_def creations_ok_def by (simp add: delete_conv')
  show "waits_ok (rt_remove key rt)"
    using assms(1) unfolding rt_ok_def waits_ok_def by (simp add: delete_conv')
  have "registered (rt_remove key rt) q" if "\<not> session_cancelled rt q" for q
    using registered_remove [OF rt_okD(1) [OF assms(1) that], of key] assms(2,3) that by auto
  then show "sessions_ok (rt_remove key rt)"
    using assms(1) unfolding rt_ok_def sessions_ok_def by (simp add: delete_conv')
qed

lemma reserve_ok:
  assumes ok: "rt_ok rt" and call: "rt_calls rt t = Some (key, Entering)" and none: "entry rt key = None"
    and open_: "\<not> rt_closed rt"
  shows "rt_ok (set_call t key (Building (rt_next rt))
    (rt\<lparr>rt_sessions := AList.update key (Creating (rt_next rt)) (rt_sessions rt), rt_next := rt_next rt + 1\<rparr>))" (is "rt_ok ?rt")
  unfolding rt_ok_def
proof (intro conjI)
  have cl: "\<not> rt_cleared rt" using ok open_ by (auto simp: rt_ok_def sessions_ok_def)
  have nb: "\<not> builds rt t key' n" for key' n by (simp add: builds_call [OF call])
  have b: "builds ?rt t' key' n \<longleftrightarrow> (if t' = t then key' = key \<and> n = rt_next rt else builds rt t' key' n)" for t' key' n
    by (auto simp: builds_def)
  have lt: "n < rt_next rt" "key' \<noteq> key" if "builds rt t' key' n" for t' key' n
    using ok that none cl unfolding rt_ok_def creations_ok_def by (blast, force)
  show "creations_ok ?rt"
    unfolding creations_ok_def b
  proof (intro conjI allI impI)
    fix t' key' n
    assume "if t' = t then key' = key \<and> n = rt_next rt else builds rt t' key' n"
    then show "n < rt_next ?rt" "rt_cleared ?rt \<or> entry ?rt key' = Some (Creating n)"
      using lt builds_entry [OF ok, of t' key' n] cl by (auto simp: update_conv' less_Suc_eq split: if_splits)
  next
    fix t1 t2 key1 key2 n
    assume "if t1 = t then key1 = key \<and> n = rt_next rt else builds rt t1 key1 n"
      "if t2 = t then key2 = key \<and> n = rt_next rt else builds rt t2 key2 n"
    then show "t1 = t2" "key1 = key2" using lt builds_unique [OF ok] by (auto split: if_splits)
  qed
  show "waits_ok ?rt"
    unfolding waits_ok_def b
  proof (intro conjI allI impI)
    fix key' n assume "entry ?rt key' = Some (Creating n)"
    then show "\<exists>t'. if t' = t then key' = key \<and> n = rt_next rt else builds rt t' key' n"
      using ok nb unfolding rt_ok_def waits_ok_def by (cases "key' = key") (auto simp: update_conv', metis)
  next
    fix t' key' n assume "rt_calls ?rt t' = Some (key', Waiting n)"
    then show "n \<in> rt_notified ?rt \<or> (\<exists>t'. if t' = t then key' = key \<and> n = rt_next rt else builds rt t' key' n)"
      using ok nb unfolding rt_ok_def waits_ok_def by (auto split: if_splits) metis
  qed
  have h: "has_object rt p k \<Longrightarrow> has_object ?rt p k" for p k by (auto simp: has_object_def)
  have "registered ?rt p" if "\<not> session_cancelled rt p" for p
  proof (rule registered_set_call)
    show "registered (rt\<lparr>rt_sessions := AList.update key (Creating (rt_next rt)) (rt_sessions rt), rt_next := rt_next rt + 1\<rparr>) p"
      using rt_okD(1) [OF ok that] none unfolding registered_def by (simp add: update_conv') (metis option.distinct(1))
  qed (simp add: call)
  then have "\<not> session_cancelled ?rt p \<longrightarrow> registered ?rt p" for p by (simp add: session_cancelled_def)
  with ok h cl show "sessions_ok ?rt"
    unfolding rt_ok_def sessions_ok_def by (simp add: update_conv')
qed

lemma publish_ok:
  assumes ok: "rt_ok rt" and call: "rt_calls rt t = Some (key, Built n (Inr p))" and open_: "\<not> rt_closed rt"
  shows "rt_ok (set_call t key (Returned (Inr p))
    (notify_waiters {n} (rt\<lparr>rt_sessions := AList.update key (Ready p) (rt_sessions rt)\<rparr>)))" (is "rt_ok ?rt")
  unfolding rt_ok_def
proof (intro conjI)
  have cl: "\<not> rt_cleared rt" using rt_okD(4) [OF ok] open_ by auto
  have b: "builds rt t key' n' \<longleftrightarrow> key' = key \<and> n' = n" for key' n' by (auto simp: builds_call [OF call])
  have bs: "builds ?rt t' key' n' \<longleftrightarrow> t' \<noteq> t \<and> builds rt t' key' n'" for t' key' n' by (auto simp: builds_def)
  have other: "key' \<noteq> key" if "builds rt t' key' n'" "t' \<noteq> t" for t' key' n'
    using builds_entry [OF ok that(1)] builds_entry [OF ok, of t key n] that b builds_unique [OF ok, of t key n t'] cl by auto
  show "creations_ok ?rt"
    using ok other unfolding rt_ok_def creations_ok_def bs by (simp add: update_conv') blast
  show "waits_ok ?rt"
    using ok unfolding rt_ok_def waits_ok_def bs by (simp add: update_conv') (metis b)
  have obj: "has_object rt p key" using ok call by (simp add: rt_ok_def sessions_ok_def)
  have h: "has_object ?rt q k = has_object rt q k" for q k by (simp add: has_object_def)
  have "registered ?rt q" if "\<not> session_cancelled rt q" for q
  proof (cases "q = p")
    case False
    have "entry rt key \<noteq> Some (Ready q)" using builds_entry [OF ok, of t key n] b cl by auto
    with rt_okD(1) [OF ok that] have "registered (rt\<lparr>rt_sessions := AList.update key (Ready p) (rt_sessions rt)\<rparr>) q"
      unfolding registered_def by (simp add: update_conv') metis
    with False call show ?thesis by (intro registered_set_call) auto
  qed (auto simp: registered_def update_conv')
  then have "\<not> session_cancelled ?rt q \<longrightarrow> registered ?rt q" for q by (simp add: session_cancelled_def)
  with ok cl obj show "sessions_ok ?rt"
    unfolding rt_ok_def sessions_ok_def h by (simp add: update_conv')
qed

lemma cancel_commutes:
  "cancel_session p (notify_waiters ns rt) = notify_waiters ns (cancel_session p rt)"
  "cancel_session p (rt_remove key rt) = rt_remove key (cancel_session p rt)"
  by (simp_all add: cancel_session_def notify_waiters_def rt_remove_def)

lemma register_ok:
  assumes "rt_ok rt" and call: "rt_calls rt t = Some (key, Built n created)"
  shows "rt_ok (register t key n created rt)"
proof (cases created)
  case (Inl e)
  with release_ok [OF assms] show ?thesis by (auto simp: register_def)
next
  case (Inr p)
  have "rt_ok (set_call t key (Returned (Inl e)) (notify_waiters {n} (rt_remove key (cancel_session p rt))))" for e
    by (rule release_ok [OF cancel_session_ok [OF assms(1)]]) (auto simp: call Inr)
  moreover have "rt_ok (set_call t key (Returned (Inl e)) (notify_waiters {n} (rt_remove key rt)))" if "session_cancelled rt p" for e
    using release_ok [OF assms] that by (simp add: Inr)
  ultimately show ?thesis
    using publish_ok [OF assms(1) call [unfolded Inr]] by (simp add: register_def Inr cancel_commutes)
qed

lemma creation_done_ok:
  assumes ok: "rt_ok rt" and call: "rt_calls rt t = Some (key, Building n)"
    and se: "\<forall>se. created = Inr se \<longrightarrow> sp_key (se_spec se) = key"
  shows "rt_ok (creation_done t key n created rt)"
proof -
  have bs: "builds (set_call t key (Built n r) rt) = builds rt" for r
    by (intro ext) (auto simp: builds_call [OF call])
  show ?thesis
  proof (cases created)
    case (Inl e)
    have "registered (set_call t key (Built n (Inl e)) rt) p" if "registered rt p" for p
      by (rule registered_set_call [OF that]) (simp add: call)
    with ok show ?thesis
      unfolding creation_done_def Inl sum.case rt_ok_def creations_ok_def waits_ok_def sessions_ok_def bs by simp
  next
    case (Inr se')
    let ?p = "rt_next rt" and ?r = "rt\<lparr>rt_objects := (rt_objects rt)(rt_next rt \<mapsto> se'), rt_next := rt_next rt + 1\<rparr>"
    let ?rt = "set_call t key (Built n (Inr ?p)) ?r"
    have b: "builds ?rt = builds rt" by (intro ext) (auto simp: builds_call [OF call], auto simp: builds_def)
    have h: "has_object rt q k \<Longrightarrow> has_object ?rt q k" for q k by (auto simp: has_object_def)
    have new: "has_object ?rt ?p key" using se Inr by (simp add: has_object_def)
    have "registered ?rt q" if "\<not> session_cancelled ?rt q" for q
    proof (cases "q = ?p")
      case False
      with that have "\<not> session_cancelled rt q" by (simp add: session_cancelled_def)
      from rt_okD(1) [OF ok this] have "registered ?r q" by (simp add: registered_def)
      then show ?thesis by (rule registered_set_call) (simp add: call)
    qed (auto simp: registered_def)
    moreover have "creations_ok ?rt" using ok unfolding rt_ok_def creations_ok_def b by (simp add: less_Suc_eq)
    moreover have "waits_ok ?rt" using ok unfolding rt_ok_def waits_ok_def b by simp
    ultimately have "rt_ok ?rt"
      using ok h new unfolding rt_ok_def sessions_ok_def by simp
    then show ?thesis by (simp add: creation_done_def Inr Let_def)
  qed
qed

lemma touch_ok:
  assumes "rt_ok rt" and "rt_objects rt p = Some se"
  shows "rt_ok (rt\<lparr>rt_objects := (rt_objects rt)(p \<mapsto> touch now se)\<rparr>)" (is "rt_ok ?rt")
proof -
  have "has_object ?rt q k = has_object rt q k" "session_cancelled ?rt q = session_cancelled rt q"
      "registered ?rt q = registered rt q" "builds ?rt = builds rt" for q k
    using assms(2) by (auto simp: has_object_def session_cancelled_def touch_def registered_def builds_def fun_eq_iff)
  with assms(1) show ?thesis by (simp add: rt_ok_def creations_ok_def waits_ok_def sessions_ok_def)
qed

lemma sweep_ok: "rt_ok rt \<Longrightarrow> rt_ok (sweep_expired now timeout e rt)"
  using remove_ready_ok [of "cancel_session p rt" key p for key p] cancel_session_ok [of rt]
  by (auto simp: sweep_expired_def cancel_commutes split: prod.split)

lemma ready_sessions_mem: "(key, Ready p) \<in> set es \<Longrightarrow> (key, p) \<in> set (ready_sessions es)"
  by (induction es rule: ready_sessions.induct) auto

lemma creations_mem: "(key, Creating n) \<in> set es \<Longrightarrow> n \<in> set (creations es)"
  by (induction es rule: creations.induct) auto

lemma clear_ok:
  assumes ok: "rt_ok rt" and "rt_closed rt"
  shows "rt_ok (rt_clear rt)"
proof -
  let ?rt = "rt_clear rt"
  have c: "rt_calls ?rt = rt_calls rt" "rt_next ?rt = rt_next rt" "rt_sessions ?rt = []" "rt_cleared ?rt" "rt_closed ?rt"
    using assms(2) by (simp_all add: rt_clear_def cancel_in_def Let_def)
  have b: "builds ?rt = builds rt" by (simp add: builds_def c fun_eq_iff)
  have h: "has_object ?rt q k = has_object rt q k" for q k
    by (auto simp: has_object_def rt_clear_def cancel_in_def Let_def)
  have "creations_ok ?rt" using ok c(4) unfolding rt_ok_def creations_ok_def b c(1-3) by simp
  moreover have "waits_ok ?rt"
    using ok unfolding rt_ok_def waits_ok_def b c(1-3) by (simp add: rt_clear_def Let_def) blast
  moreover have "registered ?rt q" if live: "\<not> session_cancelled ?rt q" for q
  proof -
    have "\<not> session_cancelled rt q"
      using live by (auto simp: session_cancelled_def rt_clear_def cancel_in_def Let_def split: option.splits if_splits)
    moreover have "entry rt key \<noteq> Some (Ready q)" for key
    proof
      assume "entry rt key = Some (Ready q)"
      then have "q \<in> snd ` set (ready_sessions (rt_sessions rt))" using ready_sessions_mem map_of_SomeD by force
      with live show False by (auto simp: session_cancelled_def rt_clear_def cancel_in_def Let_def split: option.splits)
    qed
    ultimately show ?thesis using rt_okD(1) [OF ok, of q] by (simp add: registered_def c)
  qed
  ultimately show ?thesis using ok c(4,5) unfolding rt_ok_def sessions_ok_def h c(1-3) by simp
qed

lemma rt_step_ok: "rt_step rt rt' \<Longrightarrow> rt_ok rt \<Longrightarrow> rt_ok rt'"
proof (induction rule: rt_step.induct)
  case (call rt t key)
  then show ?case by (intro set_call_idle_ok) (auto simp: builds_def)
next
  case (reserve rt t key)
  have idle: "\<forall>key' n. \<not> builds rt t key' n" by (simp add: builds_call [OF reserve(1)])
  show ?case
  proof (cases "rt_closed rt")
    case True
    with reserve idle show ?thesis by (simp add: lookup_or_reserve_def set_call_idle_ok)
  next
    case False
    have "rt_ok (set_call t key (Returned (Inr p)) rt)" if "entry rt key = Some (Ready p)" for p
      using idle that reserve(2) by (intro set_call_idle_ok) (auto dest: rt_okD(2))
    moreover have "rt_ok (set_call t key (Waiting n) rt)" if "entry rt key = Some (Creating n)" for n
      using idle that reserve(2) by (intro set_call_idle_ok) (auto simp: rt_ok_def waits_ok_def)
    ultimately show ?thesis
      using False reserve_ok [OF reserve(2,1) _ False]
      by (auto simp: lookup_or_reserve_def Let_def split: option.split UdpSessionEntry.split)
  qed
next
  case (wake rt t key n)
  then show ?case by (intro set_call_idle_ok) (auto simp: builds_def)
next
  case (created rt t key n created)
  then show ?case by (intro creation_done_ok) auto
next
  case (register rt t key n created)
  then show ?case by (intro register_ok)
next
  case (loop_exit rt p)
  then show ?case by (rule cancel_session_ok)
next
  case (loop_unregister rt p key)
  then show ?case using remove_ready_ok by (simp add: recv_loop_unregister_def)
next
  case (touch rt p se now)
  then show ?case using touch_ok by blast
next
  case (sweep rt now timeout e)
  then show ?case by (rule sweep_ok)
next
  case (close rt)
  then show ?case
    by (simp add: rt_close_def rt_ok_def creations_ok_def waits_ok_def sessions_ok_def builds_def has_object_def
        session_cancelled_def registered_def)
next
  case (clear rt)
  then show ?case using clear_ok by blast
qed

lemma rt_reachable_ok: "rt_reachable rt \<Longrightarrow> rt_ok rt"
proof (induction rule: rt_reachable.induct)
  case start
  show ?case
    by (simp add: udp_runtime_new_def rt_ok_def creations_ok_def waits_ok_def sessions_ok_def builds_def
        session_cancelled_def)
qed (rule rt_step_ok)

section \<open>Properties\<close>


text \<open>A creation that a shutdown overtakes: its session is cancelled when it is registered.\<close>

definition overtaken :: "UdpSession \<Rightarrow> UdpRuntime" where
  "overtaken se =
     (let key = sp_key (se_spec se)
      in register 0 key 0 (Inr 1) (rt_clear (rt_close (creation_done 0 key 0 (Inr se)
           (lookup_or_reserve 0 key (set_call 0 key Entering udp_runtime_new))))))"

lemma close_clear_simps [simp]:
  "rt_calls (rt_clear rt) = rt_calls rt" "rt_calls (rt_close rt) = rt_calls rt" "rt_closed (rt_clear rt) = rt_closed rt"
  "rt_closed (rt_close rt)" "rt_cleared (rt_clear rt)"
  by (simp_all add: rt_clear_def rt_close_def Let_def)

lemma register_closed:
  assumes "rt_closed rt"
  shows "rt_calls (register t key n (Inr p) rt) = (rt_calls rt)(t \<mapsto> (key, Returned (Inl RuntimeClosed)))"
    and "rt_cleared (register t key n (Inr p) rt) = rt_cleared rt"
  using assms by (simp_all add: register_def)

lemma creation_done_calls:
  "rt_calls (creation_done t key n (Inr se) rt) = (rt_calls rt)(t \<mapsto> (key, Built n (Inr (rt_next rt))))"
  by (simp add: creation_done_def Let_def)

lemma lookup_or_reserve_new:
  "rt_calls (lookup_or_reserve t key (set_call t key Entering udp_runtime_new)) = [t \<mapsto> (key, Building 0)]"
  "rt_next (lookup_or_reserve t key (set_call t key Entering udp_runtime_new)) = 1"
  by (simp_all add: lookup_or_reserve_def udp_runtime_new_def)

lemma overtaken_reachable:
  assumes "\<not> se_cancelled se"
  shows "rt_reachable (overtaken se)"
proof -
  let ?key = "sp_key (se_spec se)"
  let ?a = "set_call 0 ?key Entering udp_runtime_new"
  let ?b = "lookup_or_reserve 0 ?key ?a"
  let ?c = "creation_done 0 ?key 0 (Inr se) ?b"
  let ?d = "rt_clear (rt_close ?c)"
  have "rt_step udp_runtime_new ?a"
    using rt_step.call [of udp_runtime_new 0 ?key] by (simp add: udp_runtime_new_def)
  moreover have "rt_step ?a ?b" by (rule rt_step.reserve) simp
  moreover have "rt_step ?b ?c"
    using assms by (intro rt_step.created) (auto simp: lookup_or_reserve_new)
  moreover have "rt_step ?c (rt_close ?c)" by (rule rt_step.close)
  moreover have "rt_step (rt_close ?c) ?d" by (rule rt_step.clear) (simp add: rt_close_def)
  moreover have "rt_step ?d (register 0 ?key 0 (Inr 1) ?d)"
    by (rule rt_step.register) (simp add: creation_done_calls lookup_or_reserve_new)
  ultimately show ?thesis unfolding overtaken_def Let_def by (rule rt_reachable.step [OF rt_reachable.step
    [OF rt_reachable.step [OF rt_reachable.step [OF rt_reachable.step [OF rt_reachable.step [OF rt_reachable.start]]]]]])
qed


end
