(* ===== verification/Udp_Relay.thy ===== *)
theory Udp_Relay
  imports Udp_Runtime
begin

text \<open>
  More of \<open>udp/mod.rs\<close>: the choice of the outbound of a session, the receive loops with the reply
  watchdog, and the per-flow locks of the packet handlers. What the kernel and the proxies answer are arguments.
\<close>

section \<open>Choosing the outbound\<close>

text \<open>
  \<open>associate addr\<close> is the outcome of the handshake with the proxy at \<open>addr\<close>, \<open>None\<close> when the timeout
  fires first; the number is the socket connected to the relay.
\<close>

definition connect_socks5_udp ::
  "('n4, 'n6) net_ops \<Rightarrow> fastrand \<Rightarrow> nat \<Rightarrow> (SocketAddr \<Rightarrow> (Socks5Error, nat \<times> Socks5UdpAssoc) rres option) \<Rightarrow>
   ('n4, 'n6, nat) AppState \<Rightarrow> UdpSessionSpec \<Rightarrow> UpstreamSet \<Rightarrow> (UdpError, UdpOutbound) rres \<times> UpstreamSet" where
  "connect_socks5_udp N rnd now associate st spec us =
     (let key = sp_key spec;
          grp = lookup_upstream_group N st (sa_ip (k_client_addr key)) (sa_ip (k_target_addr key)) (sp_sniffed_host spec)
      in case bindR (pick_from_group rnd now grp us) (\<lambda>(up, us).
                case up of Some k \<Rightarrow> Inr (Some k, us) | None \<Rightarrow> pick rnd now us) of
           Inl _ \<Rightarrow> (Inl Panic, us)
         | Inr (None, us) \<Rightarrow> (Inl (Fail (NoUpstreamForGroup grp)), us)
         | Inr (Some k, us) \<Rightarrow>
             (case associate (up_addr (us_up us k)) of
                None \<Rightarrow> Inl (Fail AssociateTimeout)
              | Some r \<Rightarrow> bindR (map_err AssociateFailed r) (\<lambda>(sock, assoc). Inr (OSocks5 sock assoc)), us))"

definition create_outbound ::
  "('n4, 'n6) net_ops \<Rightarrow> fastrand \<Rightarrow> nat \<Rightarrow> (SocketAddr \<Rightarrow> (Socks5Error, nat \<times> Socks5UdpAssoc) rres option) \<Rightarrow>
   (SocketAddr \<Rightarrow> nat option) \<Rightarrow> UdpSessionSpec \<Rightarrow> ('n4, 'n6, nat) AppState \<Rightarrow> UpstreamSet \<Rightarrow>
   (UdpError, UdpOutbound) rres \<times> ('n4, 'n6, nat) AppState \<times> UpstreamSet" where
  "create_outbound N rnd now associate direct_socket spec st us =
     (let (direct, st) =
            (case sp_routing spec of
               RAuto \<Rightarrow> should_direct N now st (sa_ip (k_target_addr (sp_key spec))) (sp_sniffed_host spec)
             | RForceSocks5 \<Rightarrow> (False, st))
      in if direct
         then (map_err (\<lambda>_. DirectSocketFailed)
                 (bindR (ok_or (direct_socket (k_target_addr (sp_key spec))) ()) (\<lambda>s. Inr (ODirect s))), st, us)
         else case connect_socks5_udp N rnd now associate st spec us of (r, us) \<Rightarrow> (r, st, us))"

definition new_session :: "nat \<Rightarrow> nat \<Rightarrow> UdpSessionSpec \<Rightarrow> UdpOutbound \<Rightarrow> UdpSession" where
  "new_session session_id now_secs spec outbound =
     \<lparr>se_session_id = session_id, se_spec = spec, se_outbound = outbound, se_last_seen_secs = now_secs,
      se_cancelled = False\<rparr>"

section \<open>Replies\<close>

text \<open>A reply as the client sees it: spoofed from an address, or from the listening socket.\<close>

datatype Reply = Spoofed SocketAddr SocketAddr bytes | FromListener nat SocketAddr bytes

definition send_reply :: "UdpSession \<Rightarrow> SocketAddr \<Rightarrow> bytes \<Rightarrow> Reply" where
  "send_reply se remote_src payload =
     (case sp_reply_path (se_spec se) of
        RTproxy \<Rightarrow> Spoofed remote_src (k_client_addr (sp_key (se_spec se))) payload
      | RPortForward listen_sock \<Rightarrow> FromListener listen_sock (k_client_addr (sp_key (se_spec se))) payload)"

definition connected_udp_recv_result :: "IoError + bytes \<Rightarrow> (UdpError, bytes option) rres" where
  "connected_udp_recv_result r =
     (case r of
        Inr d \<Rightarrow> if d = [] then Inr None else Inr (Some d)
      | Inl EMsgSize \<Rightarrow> Inr None
      | Inl OtherIoError \<Rightarrow> Inl (Fail RecvFailed))"

text \<open>What a receive loop waits for: the cancellation of the session or a datagram, at a time.\<close>

datatype LoopEvent = Cancelled | Received "IoError + bytes"

fun run_direct_udp_recv_loop :: "UdpSession \<Rightarrow> (nat \<times> LoopEvent) list \<Rightarrow> (UdpError, unit) rres option \<times> Reply list" where
  "run_direct_udp_recv_loop se [] = (None, [])"
| "run_direct_udp_recv_loop se ((t, Cancelled) # es) = (Some (Inr ()), [])"
| "run_direct_udp_recv_loop se ((t, Received r) # es) =
     (case connected_udp_recv_result r of
        Inl e \<Rightarrow> (Some (Inl e), [])
      | Inr None \<Rightarrow> run_direct_udp_recv_loop se es
      | Inr (Some payload) \<Rightarrow>
          (case run_direct_udp_recv_loop se es of (r, rs) \<Rightarrow>
             (r, send_reply se (k_target_addr (sp_key (se_spec se))) payload # rs)))"

text \<open>
  The watchdog: the deadline is set at the start and by every datagram; 0 switches it off. An instant
  has 63 bits of seconds; a deadline beyond them is replaced by one in thirty years.
\<close>

definition FAR_FUTURE_SECS :: nat where "FAR_FUTURE_SECS = 30 * 365 * 24 * 3600"

definition checked_add_secs :: "nat \<Rightarrow> nat \<Rightarrow> nat option" where
  "checked_add_secs now secs = (if now div 1000 + secs < 2 ^ 63 then Some (now + from_secs secs) else None)"

definition make_idle_deadline :: "nat \<Rightarrow> nat \<Rightarrow> nat" where
  "make_idle_deadline idle_timeout_secs now =
     (if 0 < idle_timeout_secs
      then (case checked_add_secs now idle_timeout_secs of Some d \<Rightarrow> d | None \<Rightarrow> now + from_secs FAR_FUTURE_SECS)
      else now + from_secs FAR_FUTURE_SECS)"

definition reset_idle_deadline :: "nat \<Rightarrow> nat \<Rightarrow> nat \<Rightarrow> nat" where
  "reset_idle_deadline idle_timeout_secs now deadline =
     (if 0 < idle_timeout_secs
      then (case checked_add_secs now idle_timeout_secs of Some d \<Rightarrow> d | None \<Rightarrow> now + from_secs FAR_FUTURE_SECS)
      else deadline)"

definition client_visible_src :: "UdpSession \<Rightarrow> SocketAddr \<Rightarrow> SocketAddr" where
  "client_visible_src se remote_src =
     (case sp_reply_path (se_spec se) of
        RTproxy \<Rightarrow> k_target_addr (sp_key (se_spec se))
      | RPortForward _ \<Rightarrow> remote_src)"

fun run_socks5_udp_recv_loop ::
  "nat \<Rightarrow> UdpSession \<Rightarrow> nat \<Rightarrow> (nat \<times> LoopEvent) list \<Rightarrow> (UdpError, unit) rres option \<times> Reply list" where
  "run_socks5_udp_recv_loop idle se deadline [] = (None, [])"
| "run_socks5_udp_recv_loop idle se deadline ((t, Cancelled) # es) = (Some (Inr ()), [])"
| "run_socks5_udp_recv_loop idle se deadline ((t, Received r) # es) =
     (if 0 < idle \<and> deadline \<le> t then (Some (Inr ()), [])
      else case connected_udp_recv_result r of
             Inl e \<Rightarrow> (Some (Inl e), [])
           | Inr None \<Rightarrow> run_socks5_udp_recv_loop idle se deadline es
           | Inr (Some pkt) \<Rightarrow>
               (case parse_socks5_udp_packet_with_fallback_src pkt (k_target_addr (sp_key (se_spec se))) of
                  Inl Panic \<Rightarrow> (Some (Inl Panic), [])
                | Inl (Fail e) \<Rightarrow> run_socks5_udp_recv_loop idle se (reset_idle_deadline idle t deadline) es
                | Inr (remote_src, payload) \<Rightarrow>
                    (case run_socks5_udp_recv_loop idle se (reset_idle_deadline idle t deadline) es of (r, rs) \<Rightarrow>
                       (r, send_reply se (client_visible_src se remote_src) payload # rs))))"

definition run_udp_session_recv_loop ::
  "nat \<Rightarrow> UdpSession \<Rightarrow> nat \<Rightarrow> (nat \<times> LoopEvent) list \<Rightarrow> (UdpError, unit) rres option \<times> Reply list" where
  "run_udp_session_recv_loop idle se now es =
     (case se_outbound se of
        ODirect socket \<Rightarrow> run_direct_udp_recv_loop se es
      | OSocks5 socket assoc \<Rightarrow> run_socks5_udp_recv_loop idle se (make_idle_deadline idle now) es)"

text \<open>
  \<open>create_udp_session\<close>: the task of the receive loop reports that it is ready as soon as it is polled;
  \<open>polled\<close> tells whether it is, or is dropped with its runtime before.
\<close>

definition create_udp_session ::
  "('n4, 'n6) net_ops \<Rightarrow> fastrand \<Rightarrow> nat \<Rightarrow> (SocketAddr \<Rightarrow> (Socks5Error, nat \<times> Socks5UdpAssoc) rres option) \<Rightarrow>
   (SocketAddr \<Rightarrow> nat option) \<Rightarrow> nat \<Rightarrow> nat \<Rightarrow> bool \<Rightarrow> UdpSessionSpec \<Rightarrow> ('n4, 'n6, nat) AppState \<Rightarrow> UpstreamSet \<Rightarrow>
   (UdpError, UdpSession) rres \<times> ('n4, 'n6, nat) AppState \<times> UpstreamSet" where
  "create_udp_session N rnd now associate direct_socket session_id now_secs polled spec st us =
     (case create_outbound N rnd now associate direct_socket spec st us of
        (Inl e, st, us) \<Rightarrow> (Inl e, st, us)
      | (Inr outbound, st, us) \<Rightarrow>
          (if polled then Inr (new_session session_id now_secs spec outbound) else Inl (Fail ExitedBeforeReady), st, us))"

section \<open>Packet handlers and their locks\<close>

text \<open>
  The lock table of a loop with the strong counts of its locks, and the handlers at work with the
  lock each of them queues for.
\<close>

definition UDP_PACKET_TASK_LIMIT :: nat where "UDP_PACKET_TASK_LIMIT = 4096"

record PacketTasks =
  pt_locks :: "(UdpSessionKey \<times> nat) list"
  pt_handlers :: "(nat \<times> UdpSessionKey \<times> nat) list"
  pt_next :: nat

definition get_udp_key_lock :: "UdpSessionKey \<Rightarrow> PacketTasks \<Rightarrow> nat \<times> PacketTasks" where
  "get_udp_key_lock key pt =
     (case map_of (pt_locks pt) key of
        Some l \<Rightarrow> (l, pt)
      | None \<Rightarrow> (pt_next pt, pt\<lparr>pt_locks := AList.update key (pt_next pt) (pt_locks pt), pt_next := pt_next pt + 1\<rparr>))"

definition strong_count :: "PacketTasks \<Rightarrow> nat \<Rightarrow> nat" where
  "strong_count pt l = 1 + length (filter (\<lambda>(_, _, l'). l' = l) (pt_handlers pt))"

definition reap_idle_udp_key_locks :: "PacketTasks \<Rightarrow> PacketTasks" where
  "reap_idle_udp_key_locks pt = pt\<lparr>pt_locks := filter (\<lambda>(_, l). 1 < strong_count pt l) (pt_locks pt)\<rparr>"

text \<open>\<open>spawn_udp_packet_handler\<close>: without a permit the packet is dropped.\<close>

definition spawn_udp_packet_handler :: "nat \<Rightarrow> UdpSessionKey \<Rightarrow> PacketTasks \<Rightarrow> bool \<times> PacketTasks" where
  "spawn_udp_packet_handler t key pt =
     (if UDP_PACKET_TASK_LIMIT \<le> length (pt_handlers pt) then (False, pt)
      else case get_udp_key_lock key pt of
             (l, pt) \<Rightarrow> (True, pt\<lparr>pt_handlers := (t, key, l) # pt_handlers pt\<rparr>))"

definition finish_udp_packet_handler :: "nat \<Rightarrow> PacketTasks \<Rightarrow> PacketTasks" where
  "finish_udp_packet_handler t pt = pt\<lparr>pt_handlers := filter (\<lambda>(t', _). t' \<noteq> t) (pt_handlers pt)\<rparr>"

inductive pt_reachable :: "PacketTasks \<Rightarrow> bool" where
  start: "pt_reachable \<lparr>pt_locks = [], pt_handlers = [], pt_next = 0\<rparr>"
| spawn: "pt_reachable pt \<Longrightarrow> t \<notin> fst ` set (pt_handlers pt) \<Longrightarrow> pt_reachable (snd (spawn_udp_packet_handler t key pt))"
| finish: "pt_reachable pt \<Longrightarrow> pt_reachable (finish_udp_packet_handler t pt)"
| reap: "pt_reachable pt \<Longrightarrow> pt_reachable (reap_idle_udp_key_locks pt)"

section \<open>Lemmas on replies\<close>

definition reply_authentic :: "UdpSession \<Rightarrow> Reply \<Rightarrow> bool" where
  "reply_authentic se r =
     (case r of
        Spoofed src dst payload \<Rightarrow>
          sp_reply_path (se_spec se) = RTproxy \<and> src = k_target_addr (sp_key (se_spec se)) \<and>
          dst = k_client_addr (sp_key (se_spec se))
      | FromListener sock dst payload \<Rightarrow>
          sp_reply_path (se_spec se) = RPortForward sock \<and> dst = k_client_addr (sp_key (se_spec se)))"

lemma reply_authentic_target: "reply_authentic se (send_reply se (k_target_addr (sp_key (se_spec se))) payload)"
  by (simp add: reply_authentic_def send_reply_def split: UdpReplyPath.split)

lemma reply_authentic_visible: "reply_authentic se (send_reply se (client_visible_src se src) payload)"
  by (simp add: reply_authentic_def send_reply_def client_visible_src_def split: UdpReplyPath.split)

lemma recv_result_no_panic: "connected_udp_recv_result r \<noteq> Inl Panic"
  by (simp add: connected_udp_recv_result_def split: sum.split IoError.split)

lemma direct_loop_authentic:
  "fst (run_direct_udp_recv_loop se es) \<noteq> Some (Inl Panic) \<and>
   (\<forall>r \<in> set (snd (run_direct_udp_recv_loop se es)). reply_authentic se r)"
proof (induction se es rule: run_direct_udp_recv_loop.induct)
  case (3 se t r es)
  then show ?case
    using recv_result_no_panic [of r] reply_authentic_target
    by (cases "connected_udp_recv_result r") (auto split: option.split prod.split)
qed simp_all

lemma socks5_loop_authentic:
  "fst (run_socks5_udp_recv_loop idle se d es) \<noteq> Some (Inl Panic) \<and>
   (\<forall>r \<in> set (snd (run_socks5_udp_recv_loop idle se d es)). reply_authentic se r)"
proof (induction es arbitrary: d)
  case (Cons e es)
  obtain t ev where e: "e = (t, ev)" by fastforce
  show ?case
  proof (cases ev)
    case (Received r)
    let ?parse = "\<lambda>pkt. parse_socks5_udp_packet_with_fallback_src pkt (k_target_addr (sp_key (se_spec se)))"
    have "?parse pkt \<noteq> Inl Panic" for pkt using safe_no_panic [OF safe_parse_socks5_udp_packet] .
    with Cons.IH [of d] Cons.IH [of "reset_idle_deadline idle t d"] recv_result_no_panic [of r] reply_authentic_visible [of se]
    show ?thesis
      by (auto simp: e Received split: sum.split option.split fault.split prod.split)
  qed (simp add: e)
qed simp

text \<open>The packet of the proxy for a datagram from an address, and datagrams that keep the watchdog quiet.\<close>

definition relayed :: "SocketAddr \<Rightarrow> bytes \<Rightarrow> bytes" where
  "relayed src payload = (case build_socks5_udp_packet (UIp src) payload of Inr pkt \<Rightarrow> pkt | Inl _ \<Rightarrow> [])"

fun in_time :: "nat \<Rightarrow> nat \<Rightarrow> nat list \<Rightarrow> bool" where
  "in_time idle deadline [] = True"
| "in_time idle deadline (t # ts) = ((idle = 0 \<or> t < deadline) \<and> in_time idle (reset_idle_deadline idle t deadline) ts)"

lemma parse_relayed:
  "parse_socks5_udp_packet_with_fallback_src (relayed src payload) fb = Inr (src, payload)"
  by (cases src; cases "sa_ip src")
    (use parse_socks5_udp_ip4 parse_socks5_udp_ip6 in \<open>simp_all add: relayed_def build_socks5_udp_packet_def\<close>)

lemma relayed_nonempty: "relayed src payload \<noteq> []"
  by (cases src; cases "sa_ip src") (simp_all add: relayed_def build_socks5_udp_packet_def)

lemma socks5_loop_delivers:
  "in_time idle d (map fst ds) \<Longrightarrow>
   run_socks5_udp_recv_loop idle se d (map (\<lambda>(t, src, p). (t, Received (Inr (relayed src p)))) ds) =
     (None, map (\<lambda>(t, src, p). send_reply se (client_visible_src se src) p) ds)"
  by (induction ds arbitrary: d)
    (auto simp: connected_udp_recv_result_def relayed_nonempty parse_relayed)

lemma send_payload_parses:
  assumes "\<not> se_cancelled se" and "se_outbound se = OSocks5 sock assoc"
    and "\<forall>host. sp_sniffed_host (se_spec se) = Some host \<longrightarrow> host \<noteq> [] \<and> length host \<le> 255"
  shows "\<exists>pkt. snd (send_payload kernel_send se payload) = [(sock, pkt)] \<and>
    build_socks5_udp_packet (socks5_udp_target (se_spec se)) payload = Inr pkt \<and>
    parse_socks5_udp_packet_with_fallback_src pkt (k_target_addr (sp_key (se_spec se))) =
      Inr (k_target_addr (sp_key (se_spec se)), payload)"
proof (cases "sp_sniffed_host (se_spec se)")
  case None
  let ?t = "k_target_addr (sp_key (se_spec se))"
  have "build_socks5_udp_packet (UIp ?t) payload = Inr (relayed ?t payload)"
    by (cases ?t; cases "sa_ip ?t") (simp_all add: relayed_def build_socks5_udp_packet_def)
  with None assms(1,2) show ?thesis
    by (simp add: send_payload_def socks5_udp_target_def parse_relayed)
next
  case (Some host)
  with assms(3) have h: "host \<noteq> []" "length host \<le> 255" by auto
  let ?pkt = "[0, 0, 0] @ [3, of_nat (length (as_bytes host))] @ as_bytes host @ port_bytes (sa_port (k_target_addr (sp_key (se_spec se)))) @ payload"
  have "as_bytes host \<noteq> []" using h(1) by (metis length_as_bytes length_0_conv)
  then have "build_socks5_udp_packet (socks5_udp_target (se_spec se)) payload = Inr ?pkt"
    using h(2) by (simp add: Some socks5_udp_target_def build_socks5_udp_packet_def)
  with assms(1,2) h parse_socks5_udp_domain [of host] show ?thesis
    by (simp add: send_payload_def)
qed

section \<open>Lemmas on locks\<close>

definition pt_ok :: "PacketTasks \<Rightarrow> bool" where
  "pt_ok pt \<longleftrightarrow>
     (\<forall>(t, key, l) \<in> set (pt_handlers pt). map_of (pt_locks pt) key = Some l) \<and>
     (\<forall>(key, l) \<in> set (pt_locks pt). l < pt_next pt) \<and>
     (\<forall>(key, l) \<in> set (pt_locks pt). \<forall>(key', l') \<in> set (pt_locks pt). l = l' \<longrightarrow> key = key') \<and>
     distinct (map fst (pt_locks pt)) \<and> length (pt_handlers pt) \<le> UDP_PACKET_TASK_LIMIT"

lemma strong_count_handler: "(t, key, l) \<in> set (pt_handlers pt) \<Longrightarrow> 1 < strong_count pt l"
  by (auto simp: strong_count_def filter_empty_conv)

lemma update_new: "key \<notin> fst ` set es \<Longrightarrow> AList.update key n es = es @ [(key, n)]"
  by (induction es) auto

lemma get_lock_ok:
  assumes "pt_ok pt" and "get_udp_key_lock key pt = (l, pt')"
  shows "pt_ok pt' \<and> map_of (pt_locks pt') key = Some l \<and> pt_handlers pt' = pt_handlers pt"
proof (cases "map_of (pt_locks pt) key")
  case None
  then have new: "key \<notin> fst ` set (pt_locks pt)" by (simp add: map_of_eq_None_iff)
  have pt': "pt' = pt\<lparr>pt_locks := pt_locks pt @ [(key, pt_next pt)], pt_next := pt_next pt + 1\<rparr>" "l = pt_next pt"
    using assms(2) None update_new [OF new] by (auto simp: get_udp_key_lock_def)
  have "\<forall>(t, key', l') \<in> set (pt_handlers pt). key' \<noteq> key" using assms(1) None by (auto simp: pt_ok_def)
  with assms(1) new show ?thesis
    unfolding pt_ok_def pt' by (auto simp: map_add_def less_Suc_eq None split: option.split)
qed (use assms in \<open>auto simp: get_udp_key_lock_def\<close>)

lemma map_of_filter_keep:
  "map_of es k = Some v \<Longrightarrow> P (k, v) \<Longrightarrow> distinct (map fst es) \<Longrightarrow> map_of (filter P es) k = Some v"
  by (auto intro!: map_of_is_SomeI distinct_map_filter dest: map_of_SomeD)

lemma pt_okD:
  assumes "pt_ok pt"
  shows "(t, key, l) \<in> set (pt_handlers pt) \<Longrightarrow> map_of (pt_locks pt) key = Some l"
    and "map_of (pt_locks pt) key = Some l \<Longrightarrow> map_of (pt_locks pt) key' = Some l \<Longrightarrow> key = key'"
    and "length (pt_handlers pt) \<le> UDP_PACKET_TASK_LIMIT"
proof -
  have "\<forall>(key, l) \<in> set (pt_locks pt). \<forall>(key', l') \<in> set (pt_locks pt). l = l' \<longrightarrow> key = key'"
    using assms unfolding pt_ok_def by (elim conjE)
  then show "map_of (pt_locks pt) key = Some l \<Longrightarrow> map_of (pt_locks pt) key' = Some l \<Longrightarrow> key = key'"
    by (auto dest!: map_of_SomeD)
qed (use assms in \<open>auto simp: pt_ok_def\<close>)

lemma pt_reachable_ok: "pt_reachable pt \<Longrightarrow> pt_ok pt"
proof (induction rule: pt_reachable.induct)
  case start
  then show ?case by (simp add: pt_ok_def)
next
  case (spawn pt t key)
  obtain l pt' where l: "get_udp_key_lock key pt = (l, pt')" by fastforce
  from get_lock_ok [OF spawn(3) l] spawn(3) show ?case
    by (auto simp: spawn_udp_packet_handler_def l pt_ok_def)
next
  case (finish pt t)
  then show ?case
    by (auto simp: pt_ok_def finish_udp_packet_handler_def intro: le_trans [OF length_filter_le])
next
  case (reap pt)
  have "map_of (filter (\<lambda>(_, l). 1 < strong_count pt l) (pt_locks pt)) key = Some l"
    if "(t, key, l) \<in> set (pt_handlers pt)" for t key l
    using reap that strong_count_handler [OF that] by (intro map_of_filter_keep) (auto simp: pt_ok_def)
  with reap show ?case
    unfolding pt_ok_def reap_idle_udp_key_locks_def by (auto simp: distinct_map_filter)
qed

section \<open>Properties\<close>

text \<open>
  C10: A SOCKS5 UDP session is transparent. Every client datagram it sends reaches the relay as one
  packet that the protocol reads back as the original target (or its sniffed name) and the payload,
  and every datagram that the relay returns before the watchdog fires is delivered to the client, in
  order and unchanged. Whatever else arrives, a receive loop never panics, and each reply goes to the
  client of the session: on the transparent path from the original target, however the relay names
  the source, and on the port-forward path from the listening socket.
\<close>

theorem udp_relay_transparent:
  assumes "\<not> se_cancelled se" and "se_outbound se = OSocks5 sock assoc"
    and "\<forall>host. sp_sniffed_host (se_spec se) = Some host \<longrightarrow> host \<noteq> [] \<and> length host \<le> 255"
    and "in_time idle d (map fst ds)"
  shows "(\<exists>pkt. snd (send_payload kernel_send se payload) = [(sock, pkt)] \<and>
       build_socks5_udp_packet (socks5_udp_target (se_spec se)) payload = Inr pkt \<and>
       parse_socks5_udp_packet_with_fallback_src pkt (k_target_addr (sp_key (se_spec se))) =
         Inr (k_target_addr (sp_key (se_spec se)), payload)) \<and>
    run_socks5_udp_recv_loop idle se d (map (\<lambda>(t, src, p). (t, Received (Inr (relayed src p)))) ds) =
      (None, map (\<lambda>(t, src, p). send_reply se (client_visible_src se src) p) ds) \<and>
    fst (run_socks5_udp_recv_loop idle se d es) \<noteq> Some (Inl Panic) \<and>
    (\<forall>r \<in> set (snd (run_socks5_udp_recv_loop idle se d es)) \<union> set (snd (run_direct_udp_recv_loop se es)). reply_authentic se r)"
  using send_payload_parses [OF assms(1-3), of kernel_send payload] socks5_loop_delivers [OF assms(4), of se]
    socks5_loop_authentic [of idle se d es] direct_loop_authentic [of se es]
  by auto

theorem udp_relay_transparent_witness:
  "\<exists>se. sp_reply_path (se_spec se) = RTproxy \<and>
     run_socks5_udp_recv_loop 31 se 31000
       [(5, Received (Inr (relayed (SocketAddr (V4 9) 9) [1, 2]))), (20000, Received (Inr (relayed (SocketAddr (V4 3) 443) [])))] =
     (None, [Spoofed (SocketAddr (V4 3) 443) (SocketAddr (V4 2) 4000) [1, 2],
             Spoofed (SocketAddr (V4 3) 443) (SocketAddr (V4 2) 4000) []])"
proof -
  let ?se = "new_session 1 0 (for_tproxy (SocketAddr (V4 2) 4000) (SocketAddr (V4 3) 443))
    (OSocks5 7 \<lparr>ua_control = undefined, ua_relay_addr = SocketAddr (V4 1) 1080\<rparr>)"
  have "in_time 31 31000 (map fst [(5 :: nat, SocketAddr (V4 9) 9, [1, 2] :: bytes), (20000, SocketAddr (V4 3) 443, [])])"
    by (simp add: from_secs_def reset_idle_deadline_def checked_add_secs_def)
  note t = udp_relay_transparent [OF _ _ _ this, of ?se 7]
  show ?thesis
    using conjunct1 [OF conjunct2 [OF t]]
    by (intro exI [of _ ?se]) (simp add: new_session_def for_tproxy_def send_reply_def client_visible_src_def)
qed

text \<open>
  Packets of one flow are serialised. Whatever handlers come and go and whenever idle locks are
  reaped, all handlers of a flow at work queue for the same lock, handlers of different flows never
  share one, and at most 4096 handlers are at work.
\<close>

theorem udp_flow_lock_unique:
  assumes "pt_reachable pt" and "(t, key, l) \<in> set (pt_handlers pt)" and "(t', key', l') \<in> set (pt_handlers pt)"
  shows "(l = l' \<longleftrightarrow> key = key') \<and> length (pt_handlers pt) \<le> 4096"
proof -
  note ok = pt_okD [OF pt_reachable_ok [OF assms(1)]]
  note l = ok(1) [OF assms(2)] ok(1) [OF assms(3)]
  have "key = key'" if "l = l'" using ok(2) [OF l(1)] l(2) that by simp
  moreover have "l = l'" if "key = key'" using l that by simp
  ultimately show ?thesis using ok(3) unfolding UDP_PACKET_TASK_LIMIT_def by (intro conjI iffI)
qed

theorem udp_flow_lock_unique_witness:
  "let pt = snd (spawn_udp_packet_handler 1 (sp_key forward_spec) (reap_idle_udp_key_locks
      (snd (spawn_udp_packet_handler 0 (sp_key forward_spec) \<lparr>pt_locks = [], pt_handlers = [], pt_next = 0\<rparr>))))
   in pt_handlers pt = [(1, sp_key forward_spec, 0), (0, sp_key forward_spec, 0)] \<and> length (pt_handlers pt) \<le> 4096"
proof -
  let ?a = "snd (spawn_udp_packet_handler 0 (sp_key forward_spec) \<lparr>pt_locks = [], pt_handlers = [], pt_next = 0\<rparr>)"
  let ?b = "reap_idle_udp_key_locks ?a"
  let ?c = "snd (spawn_udp_packet_handler 1 (sp_key forward_spec) ?b)"
  have a: "?a = \<lparr>pt_locks = [(sp_key forward_spec, 0)], pt_handlers = [(0, sp_key forward_spec, 0)], pt_next = 1\<rparr>"
    by (simp add: spawn_udp_packet_handler_def get_udp_key_lock_def UDP_PACKET_TASK_LIMIT_def)
  then have b: "?b = \<lparr>pt_locks = [(sp_key forward_spec, 0)], pt_handlers = [(0, sp_key forward_spec, 0)], pt_next = 1\<rparr>"
    by (simp add: reap_idle_udp_key_locks_def strong_count_def)
  have c: "pt_handlers ?c = [(1, sp_key forward_spec, 0), (0, sp_key forward_spec, 0)]"
    unfolding b by (simp add: spawn_udp_packet_handler_def get_udp_key_lock_def UDP_PACKET_TASK_LIMIT_def)
  have "pt_reachable ?a" by (rule pt_reachable.spawn [OF pt_reachable.start]) simp
  then have "pt_reachable ?b" by (rule pt_reachable.reap)
  then have "pt_reachable ?c" by (rule pt_reachable.spawn) (simp add: b)
  from udp_flow_lock_unique [OF this, of 1 "sp_key forward_spec" 0 0 "sp_key forward_spec" 0] c show ?thesis
    by (simp add: Let_def)
qed

end
