(* ===== verification/Sockets.thy ===== *)
theory Sockets
  imports Socks5
begin

text \<open>
  Sockets (\<open>socket_factory.rs\<close>, the address conversions of \<open>util.rs\<close>, \<open>udp/tproxy.rs\<close>): the system calls
  that make a socket, in their order and up to the first that fails, and the datagrams received with
  their original destination. The kernel is an argument: whether a call succeeds on a socket on which
  some calls have been made.
\<close>

section \<open>Making sockets (socket_factory.rs)\<close>

datatype SysCall =
  Create bool bool | TransparentV4 | TransparentV6 | OnlyV6 bool | ReuseAddress | ReusePort | Mark u32 |
  OrigDstV4 | OrigDstV6 | Nodelay | Nonblocking | Bind SocketAddr | Listen nat | Connect SocketAddr |
  Writable | TakeError

type_synonym kernel = "SysCall list \<Rightarrow> SysCall \<Rightarrow> bool"

text \<open>A socket is the list of the calls made on it; the first call that fails is the error.\<close>

type_synonym socket = "SysCall list"

fun sys :: "kernel \<Rightarrow> socket \<Rightarrow> SysCall list \<Rightarrow> (SysCall, socket) rres" where
  "sys K made [] = Inr made"
| "sys K made (c # cs) = (if K made c then sys K (made @ [c]) cs else Inl (Fail c))"

definition domain_for :: "SocketAddr \<Rightarrow> bool" where
  "domain_for addr = is_ipv4 addr"

definition udp_socket :: "SocketAddr \<Rightarrow> SysCall" where
  "udp_socket addr = Create (domain_for addr) False"

definition tcp_socket :: "SocketAddr \<Rightarrow> SysCall" where
  "tcp_socket addr = Create (domain_for addr) True"

definition enable_orig_dst :: "SocketAddr \<Rightarrow> SysCall" where
  "enable_orig_dst addr = (if is_ipv4 addr then OrigDstV4 else OrigDstV6)"

definition set_socket_reuse :: "SysCall list" where
  "set_socket_reuse = [ReuseAddress, ReusePort]"

definition apply_socket_options ::
  "SocketAddr \<Rightarrow> bool \<Rightarrow> bool \<Rightarrow> bool option \<Rightarrow> u32 option \<Rightarrow> SysCall list" where
  "apply_socket_options addr reuse_addr transparent only_v6 mark =
     (if transparent then [if is_ipv4 addr then TransparentV4 else TransparentV6] else []) @
     (case only_v6 of Some v \<Rightarrow> if is_ipv4 addr then [] else [OnlyV6 v] | None \<Rightarrow> []) @
     (if reuse_addr then set_socket_reuse else []) @
     (case mark of Some fwmark \<Rightarrow> [Mark fwmark] | None \<Rightarrow> [])"

definition bind_udp_std ::
  "kernel \<Rightarrow> SocketAddr \<Rightarrow> bool \<Rightarrow> bool \<Rightarrow> bool option \<Rightarrow> u32 option \<Rightarrow> (SysCall, socket) rres" where
  "bind_udp_std K addr reuse_addr transparent only_v6 mark =
     sys K [] (udp_socket addr # apply_socket_options addr reuse_addr transparent only_v6 mark @ [Nonblocking, Bind addr])"

definition bind_tcp_listener ::
  "kernel \<Rightarrow> SocketAddr \<Rightarrow> bool \<Rightarrow> bool \<Rightarrow> bool option \<Rightarrow> nat \<Rightarrow> (SysCall, socket) rres" where
  "bind_tcp_listener K addr reuse_addr transparent only_v6 backlog =
     sys K [] (tcp_socket addr # apply_socket_options addr reuse_addr transparent only_v6 None @
       [Nonblocking, Bind addr, Listen backlog])"

definition bind_tproxy_udp_socket :: "kernel \<Rightarrow> SocketAddr \<Rightarrow> bool option \<Rightarrow> (SysCall, socket) rres" where
  "bind_tproxy_udp_socket K addr only_v6 =
     sys K [] (udp_socket addr # apply_socket_options addr True True only_v6 None @
       [enable_orig_dst addr, Nonblocking, Bind addr])"

definition connect_direct_udp :: "kernel \<Rightarrow> SocketAddr \<Rightarrow> u32 \<Rightarrow> (SysCall, socket) rres" where
  "connect_direct_udp K target_addr fwmark =
     (let bind_addr = unspecified_addr_for target_addr
      in sys K [] (udp_socket bind_addr # apply_socket_options bind_addr False False None (Some fwmark) @
           [Nonblocking, Bind bind_addr, Connect target_addr]))"

definition bind_port_forward_udp_listener :: "kernel \<Rightarrow> SocketAddr \<Rightarrow> (SysCall, socket) rres" where
  "bind_port_forward_udp_listener K addr =
     sys K [] (udp_socket addr # apply_socket_options addr True False None None @ [Nonblocking, Bind addr])"

text \<open>A connection in progress counts as a success of \<open>Connect\<close>; \<open>TakeError\<close> fails when \<open>SO_ERROR\<close> is set.\<close>

definition connect_tcp_stream :: "kernel \<Rightarrow> SocketAddr \<Rightarrow> u32 \<Rightarrow> bool \<Rightarrow> (SysCall, socket) rres" where
  "connect_tcp_stream K addr fwmark tcp_nodelay =
     sys K [] (tcp_socket addr # apply_socket_options addr False False None (Some fwmark) @
       (if tcp_nodelay then [Nodelay] else []) @ [Nonblocking, Connect addr, Writable, TakeError])"

definition create_fake_udp_socket :: "kernel \<Rightarrow> SocketAddr \<Rightarrow> u32 \<Rightarrow> (SysCall, socket) rres" where
  "create_fake_udp_socket K src_addr fwmark =
     bind_udp_std K src_addr True True (if is_ipv4 src_addr then None else Some False) (Some fwmark)"

definition tproxy_tcp_listener_for_ip :: "kernel \<Rightarrow> IpAddr \<Rightarrow> u16 \<Rightarrow> (SysCall, socket) rres" where
  "tproxy_tcp_listener_for_ip K ip port =
     (let sa = SocketAddr ip port
      in bind_tcp_listener K sa True True (if is_ipv4 sa then None else Some True) 1024)"

definition tproxy_udp_socket_for_ip :: "kernel \<Rightarrow> IpAddr \<Rightarrow> u16 \<Rightarrow> (SysCall, socket) rres" where
  "tproxy_udp_socket_for_ip K ip port =
     (let sa = SocketAddr ip port in bind_tproxy_udp_socket K sa (if is_ipv4 sa then None else Some True))"

text \<open>
  \<open>create_tproxy_tcp_listeners\<close> and \<open>create_tproxy_udp_sockets\<close>, by the function that makes one socket. The
  second socket of the unspecified IPv6 address is made by a kernel in which the first exists.
\<close>

definition create_tproxy ::
  "(socket list \<Rightarrow> IpAddr \<Rightarrow> u16 \<Rightarrow> (SysCall, socket) rres) \<Rightarrow> IpAddr \<Rightarrow> u16 \<Rightarrow>
   (SysCall, socket option \<times> socket option) rres" where
  "create_tproxy mk ip port =
     (case ip of
        V4 _ \<Rightarrow> bindR (mk [] ip port) (\<lambda>v4. Inr (Some v4, None))
      | V6 a \<Rightarrow>
          if a = 0
          then bindR (mk [] (V4 0) port) (\<lambda>v4. bindR (mk [v4] (V6 0) port) (\<lambda>v6. Inr (Some v4, Some v6)))
          else bindR (mk [] ip port) (\<lambda>v6. Inr (None, Some v6)))"

definition create_tproxy_tcp_listeners ::
  "(socket list \<Rightarrow> kernel) \<Rightarrow> IpAddr \<Rightarrow> u16 \<Rightarrow> (SysCall, socket option \<times> socket option) rres" where
  "create_tproxy_tcp_listeners K ip port = create_tproxy (\<lambda>others. tproxy_tcp_listener_for_ip (K others)) ip port"

definition create_tproxy_udp_sockets ::
  "(socket list \<Rightarrow> kernel) \<Rightarrow> IpAddr \<Rightarrow> u16 \<Rightarrow> (SysCall, socket option \<times> socket option) rres" where
  "create_tproxy_udp_sockets K ip port = create_tproxy (\<lambda>others. tproxy_udp_socket_for_ip (K others)) ip port"

section \<open>Addresses and datagrams (util.rs, tproxy.rs)\<close>

text \<open>Socket addresses as the kernel writes them: the fields in network byte order.\<close>

record sockaddr_in =
  sin_port :: "byte \<times> byte"
  sin_addr :: bytes

record sockaddr_in6 =
  sin6_port :: "byte \<times> byte"
  sin6_addr :: bytes

datatype sockaddr_storage = StorageIn sockaddr_in | StorageIn6 sockaddr_in6 | StorageOther

definition sockaddr_in_to_std :: "sockaddr_in \<Rightarrow> SocketAddr" where
  "sockaddr_in_to_std addr =
     SocketAddr (V4 (ipv4_of_octets (sin_addr addr))) (u16_from_be_bytes (fst (sin_port addr)) (snd (sin_port addr)))"

definition sockaddr_in6_to_std :: "sockaddr_in6 \<Rightarrow> SocketAddr" where
  "sockaddr_in6_to_std addr =
     SocketAddr (V6 (ipv6_of_octets (sin6_addr addr))) (u16_from_be_bytes (fst (sin6_port addr)) (snd (sin6_port addr)))"

definition sockaddr_storage_to_std :: "sockaddr_storage \<Rightarrow> SocketAddr option" where
  "sockaddr_storage_to_std addr =
     (case addr of
        StorageIn v4 \<Rightarrow> Some (sockaddr_in_to_std v4)
      | StorageIn6 v6 \<Rightarrow> Some (sockaddr_in6_to_std v6)
      | StorageOther \<Rightarrow> None)"

datatype ControlMessage = Ipv4OrigDstAddr sockaddr_in | Ipv6OrigDstAddr sockaddr_in6 | OtherControl

text \<open>A message as \<open>recvmsg\<close> returns it; \<open>None\<close> when its control messages do not parse.\<close>

record RecvMsg =
  rm_bytes :: nat
  rm_ctrunc :: bool
  rm_address :: "sockaddr_storage option"
  rm_cmsgs :: "ControlMessage list option"

datatype RecvError = WouldBlock | OsError | ControlTruncated | InvalidPeer | MissingOrigDst

fun orig_dst_of :: "ControlMessage list \<Rightarrow> SocketAddr option" where
  "orig_dst_of [] = None"
| "orig_dst_of (Ipv4OrigDstAddr addr # _) = Some (sockaddr_in_to_std addr)"
| "orig_dst_of (Ipv6OrigDstAddr addr # _) = Some (sockaddr_in6_to_std addr)"
| "orig_dst_of (OtherControl # cmsgs) = orig_dst_of cmsgs"

definition recv_udp_tproxy_packet_raw ::
  "RecvError + RecvMsg \<Rightarrow> (RecvError, nat \<times> SocketAddr \<times> SocketAddr option) rres" where
  "recv_udp_tproxy_packet_raw recvmsg =
     (case recvmsg of
        Inl e \<Rightarrow> Inl (Fail e)
      | Inr msg \<Rightarrow>
          if rm_ctrunc msg then Inl (Fail ControlTruncated)
          else
            bindR (ok_or (Option.bind (rm_address msg) sockaddr_storage_to_std) InvalidPeer) (\<lambda>client_addr.
            bindR (ok_or (rm_cmsgs msg) OsError) (\<lambda>cmsgs.
            Inr (rm_bytes msg, client_addr, orig_dst_of cmsgs))))"

record TProxyUdpPacketMeta =
  tm_len :: nat
  tm_client_addr :: SocketAddr
  tm_orig_dst :: SocketAddr

text \<open>The loop of \<open>recv_packet\<close> over what each \<open>recvmsg\<close> yields; \<open>None\<close> while it waits.\<close>

fun recv_packet :: "(RecvError + RecvMsg) list \<Rightarrow> (RecvError, TProxyUdpPacketMeta) rres option" where
  "recv_packet [] = None"
| "recv_packet (r # rs) =
     (case bindR (recv_udp_tproxy_packet_raw r) (\<lambda>(len, client_addr, orig_dst).
             bindR (ok_or orig_dst MissingOrigDst) (\<lambda>orig_dst.
             Inr \<lparr>tm_len = len, tm_client_addr = client_addr, tm_orig_dst = orig_dst\<rparr>)) of
        Inl (Fail WouldBlock) \<Rightarrow> recv_packet rs
      | result \<Rightarrow> Some result)"

section \<open>The specification\<close>

text \<open>How the kernel writes an address, in a socket address and in a control message.\<close>

definition port_pair :: "u16 \<Rightarrow> byte \<times> byte" where
  "port_pair p = (port_bytes p ! 0, port_bytes p ! 1)"

definition storage_of :: "SocketAddr \<Rightarrow> sockaddr_storage" where
  "storage_of addr =
     (case sa_ip addr of
        V4 ip \<Rightarrow> StorageIn \<lparr>sin_port = port_pair (sa_port addr), sin_addr = ipv4_octets ip\<rparr>
      | V6 ip \<Rightarrow> StorageIn6 \<lparr>sin6_port = port_pair (sa_port addr), sin6_addr = ipv6_octets ip\<rparr>)"

definition control_of :: "SocketAddr \<Rightarrow> ControlMessage" where
  "control_of addr =
     (case sa_ip addr of
        V4 ip \<Rightarrow> Ipv4OrigDstAddr \<lparr>sin_port = port_pair (sa_port addr), sin_addr = ipv4_octets ip\<rparr>
      | V6 ip \<Rightarrow> Ipv6OrigDstAddr \<lparr>sin6_port = port_pair (sa_port addr), sin6_addr = ipv6_octets ip\<rparr>)"

text \<open>
  Linux, as far as listeners are concerned: a socket may be bound when no other socket is bound to an
  overlapping address, or when it and all those have set \<open>SO_REUSEPORT\<close> first. The unspecified IPv6
  address overlaps with the IPv4 addresses of the port unless \<open>IPV6_V6ONLY\<close> was set. Sockets of the two
  transports do not conflict. Every other call succeeds.
\<close>

definition bound_to :: "socket \<Rightarrow> SocketAddr option" where
  "bound_to s = (case filter (\<lambda>c. case c of Bind _ \<Rightarrow> True | _ \<Rightarrow> False) s of Bind a # _ \<Rightarrow> Some a | _ \<Rightarrow> None)"

definition is_stream :: "socket \<Rightarrow> bool" where
  "is_stream s \<longleftrightarrow> Create True True \<in> set s \<or> Create False True \<in> set s"

definition covers :: "socket \<Rightarrow> SocketAddr \<Rightarrow> SocketAddr \<Rightarrow> bool" where
  "covers s a b \<longleftrightarrow> sa_port a = sa_port b \<and>
     (sa_ip a = sa_ip b \<or> sa_ip a = V4 0 \<and> is_ipv4 b \<or>
      sa_ip a = V6 0 \<and> (\<not> is_ipv4 b \<or> OnlyV6 True \<notin> set s))"

definition conflicts :: "socket \<Rightarrow> SocketAddr \<Rightarrow> socket \<Rightarrow> bool" where
  "conflicts made addr s \<longleftrightarrow> is_stream made = is_stream s \<and>
     (case bound_to s of None \<Rightarrow> False | Some b \<Rightarrow> covers made addr b \<or> covers s b addr)"

definition linux :: "socket list \<Rightarrow> kernel" where
  "linux others made c =
     (case c of
        Bind addr \<Rightarrow>
          (\<forall>s \<in> set others. conflicts made addr s \<longrightarrow> ReusePort \<in> set made \<and> ReusePort \<in> set s)
      | _ \<Rightarrow> True)"

text \<open>A socket that was made to share its address, and one whose traffic carries the mark from the start.\<close>

definition calls_before :: "(SysCall \<Rightarrow> bool) \<Rightarrow> socket \<Rightarrow> SysCall set" where
  "calls_before P s = set (takeWhile (\<lambda>c. \<not> P c) s)"

definition shares_port :: "socket \<Rightarrow> bool" where
  "shares_port s \<longleftrightarrow> {ReuseAddress, ReusePort} \<subseteq> calls_before (\<lambda>c. \<exists>a. c = Bind a) s"

definition marked :: "u32 \<Rightarrow> socket \<Rightarrow> bool" where
  "marked fwmark s \<longleftrightarrow> Mark fwmark \<in> calls_before (\<lambda>c. \<exists>a. c = Bind a \<or> c = Connect a) s"

section \<open>Lemmas\<close>

lemma sys_Inr: "sys K made cs = Inr s \<Longrightarrow> s = made @ cs"
proof (induction cs arbitrary: made)
  case (Cons c cs)
  then have "sys K (made @ [c]) cs = Inr s" by (auto split: if_splits)
  from Cons.IH [OF this] show ?case by simp
qed simp

lemma sys_linux:
  assumes "\<forall>s \<in> set others. ReusePort \<in> set s"
  shows "\<forall>pre a post. cs = pre @ Bind a # post \<longrightarrow> ReusePort \<in> set (made @ pre) \<Longrightarrow> sys (linux others) made cs = Inr (made @ cs)"
proof (induction cs arbitrary: made)
  case (Cons c cs)
  have "linux others made c"
    using Cons.prems [rule_format, of "[]"] assms by (cases c) (auto simp: linux_def)
  moreover have "sys (linux others) (made @ [c]) cs = Inr ((made @ [c]) @ cs)"
    using Cons.prems [rule_format, of "c # pre" for pre] by (intro Cons.IH) auto
  ultimately show ?case by simp
qed simp

lemma shares_reuses: "shares_port s \<Longrightarrow> ReusePort \<in> set s"
  unfolding shares_port_def calls_before_def by (auto dest: set_takeWhileD)

text \<open>A listener: a creation, options with the reuse of the port, and only then the bind.\<close>

lemma shared_listener:
  assumes "\<forall>s \<in> set others. shares_port s"
    and "pre = c # apply_socket_options addr True transparent only mark @ extra"
    and "\<forall>a. Bind a \<notin> set (c # extra)" and "\<forall>a. Bind a \<notin> set post"
  shows "\<exists>s. sys (linux others) [] (pre @ Bind addr # post) = Inr s \<and> shares_port s"
proof -
  have opts: "\<forall>a. Bind a \<notin> set (apply_socket_options addr True transparent only mark)"
      "{ReuseAddress, ReusePort} \<subseteq> set (apply_socket_options addr True transparent only mark)"
    by (auto simp: apply_socket_options_def set_socket_reuse_def split: option.split)
  have pre: "\<forall>a. Bind a \<notin> set pre" "{ReuseAddress, ReusePort} \<subseteq> set pre" using assms(2,3) opts by auto
  have "ReusePort \<in> set ([] @ xs)" if "pre @ Bind addr # post = xs @ Bind a # ys" for xs a ys
  proof -
    have "xs = pre" using that pre(1) assms(4)
      by (auto simp: append_eq_append_conv2 append_eq_Cons_conv Cons_eq_append_conv)
    with pre(2) show ?thesis by simp
  qed
  moreover have "\<forall>s \<in> set others. ReusePort \<in> set s" using assms(1) shares_reuses by blast
  ultimately have "sys (linux others) [] (pre @ Bind addr # post) = Inr (pre @ Bind addr # post)"
    using sys_linux [of others "pre @ Bind addr # post" "[]"] by auto
  moreover have "takeWhile (\<lambda>c. \<not> (\<exists>a. c = Bind a)) (pre @ Bind addr # post) = pre"
    using pre(1) by (subst takeWhile_append2) auto
  then have "shares_port (pre @ Bind addr # post)" using pre(2) by (simp add: shares_port_def calls_before_def)
  ultimately show ?thesis by blast
qed

lemma bind_tcp_listener_shares:
  "\<forall>s \<in> set others. shares_port s \<Longrightarrow>
   \<exists>s. bind_tcp_listener (linux others) addr True transparent only backlog = Inr s \<and> shares_port s"
  using shared_listener [where others = others and c = "tcp_socket addr" and addr = addr and transparent = transparent
      and only = only and mark = None and extra = "[Nonblocking]" and post = "[Listen backlog]", OF _ refl]
  by (simp add: bind_tcp_listener_def tcp_socket_def)

lemma tproxy_udp_shares:
  "\<forall>s \<in> set others. shares_port s \<Longrightarrow> \<exists>s. bind_tproxy_udp_socket (linux others) addr only = Inr s \<and> shares_port s"
  using shared_listener [where others = others and c = "udp_socket addr" and addr = addr and transparent = True
      and only = only and mark = None and extra = "[enable_orig_dst addr, Nonblocking]" and post = "[]", OF _ refl]
  by (simp add: bind_tproxy_udp_socket_def udp_socket_def enable_orig_dst_def)

lemma forward_udp_shares:
  "\<forall>s \<in> set others. shares_port s \<Longrightarrow> \<exists>s. bind_port_forward_udp_listener (linux others) addr = Inr s \<and> shares_port s"
  using shared_listener [where others = others and c = "udp_socket addr" and addr = addr and transparent = False
      and only = None and mark = None and extra = "[Nonblocking]" and post = "[]", OF _ refl]
  by (simp add: bind_port_forward_udp_listener_def udp_socket_def)

lemma create_tproxy_shares:
  assumes "\<And>more ip. \<forall>s \<in> set more. shares_port s \<Longrightarrow> \<exists>s. mk more ip port = Inr s \<and> shares_port s"
  shows "\<exists>v4 v6. create_tproxy mk ip port = Inr (v4, v6) \<and> (v4 \<noteq> None \<or> v6 \<noteq> None) \<and>
    (\<forall>s \<in> set_option v4 \<union> set_option v6. shares_port s)"
proof (cases ip)
  case (V4 a)
  with assms [of "[]" ip] show ?thesis by (auto simp: create_tproxy_def)
next
  case (V6 a)
  show ?thesis
  proof (cases "a = 0")
    case True
    obtain s where s: "mk [] (V4 0) port = Inr s" "shares_port s" using assms [of "[]" "V4 0"] by auto
    obtain t where "mk [s] (V6 0) port = Inr t" "shares_port t" using assms [of "[s]" "V6 0"] s(2) by auto
    with s V6 True show ?thesis by (simp add: create_tproxy_def)
  next
    case False
    with V6 assms [of "[]" ip] show ?thesis by (auto simp: create_tproxy_def)
  qed
qed

lemma tproxy_tcp_share:
  "\<forall>s \<in> set others. shares_port s \<Longrightarrow>
   \<exists>v4 v6. create_tproxy_tcp_listeners (\<lambda>more. linux (more @ others)) ip port = Inr (v4, v6) \<and>
     (v4 \<noteq> None \<or> v6 \<noteq> None) \<and> (\<forall>s \<in> set_option v4 \<union> set_option v6. shares_port s)"
  unfolding create_tproxy_tcp_listeners_def
  by (intro create_tproxy_shares, unfold tproxy_tcp_listener_for_ip_def Let_def, intro bind_tcp_listener_shares) auto

lemma tproxy_udp_share:
  "\<forall>s \<in> set others. shares_port s \<Longrightarrow>
   \<exists>v4 v6. create_tproxy_udp_sockets (\<lambda>more. linux (more @ others)) ip port = Inr (v4, v6) \<and>
     (v4 \<noteq> None \<or> v6 \<noteq> None) \<and> (\<forall>s \<in> set_option v4 \<union> set_option v6. shares_port s)"
  unfolding create_tproxy_udp_sockets_def
  by (intro create_tproxy_shares, unfold tproxy_udp_socket_for_ip_def Let_def, intro tproxy_udp_shares) auto

lemma storage_roundtrip [simp]: "sockaddr_storage_to_std (storage_of addr) = Some addr"
  by (cases addr; cases "sa_ip addr")
    (simp_all add: storage_of_def sockaddr_storage_to_std_def sockaddr_in_to_std_def sockaddr_in6_to_std_def port_pair_def)

lemma orig_dst_found: "set before \<subseteq> {OtherControl} \<Longrightarrow> orig_dst_of (before @ control_of addr # rest) = Some addr"
proof (induction before)
  case Nil
  then show ?case
    by (cases addr; cases "sa_ip addr")
      (simp_all add: control_of_def sockaddr_in_to_std_def sockaddr_in6_to_std_def port_pair_def)
qed auto

section \<open>Properties\<close>

text \<open>
  Listeners of successive generations coexist. On a kernel that lets sockets share an address only
  when all of them asked for it before they were bound, and with any listeners of the process already
  bound, the transparent TCP and UDP listeners of every listening address, both families included,
  and the port forwards can be made again; the new sockets ask for it too, so this goes on.
\<close>

theorem listeners_coexist:
  assumes "\<forall>s \<in> set others. shares_port s"
  shows "(\<exists>v4 v6. create_tproxy_tcp_listeners (\<lambda>more. linux (more @ others)) ip port = Inr (v4, v6) \<and>
      (v4 \<noteq> None \<or> v6 \<noteq> None) \<and> (\<forall>s \<in> set_option v4 \<union> set_option v6. shares_port s)) \<and>
    (\<exists>v4 v6. create_tproxy_udp_sockets (\<lambda>more. linux (more @ others)) ip port = Inr (v4, v6) \<and>
      (v4 \<noteq> None \<or> v6 \<noteq> None) \<and> (\<forall>s \<in> set_option v4 \<union> set_option v6. shares_port s)) \<and>
    (\<exists>s. bind_tcp_listener (linux others) addr True False None 1024 = Inr s \<and> shares_port s) \<and>
    (\<exists>s. bind_port_forward_udp_listener (linux others) addr = Inr s \<and> shares_port s)"
  using tproxy_tcp_share [OF assms] tproxy_udp_share [OF assms] bind_tcp_listener_shares [OF assms] forward_udp_shares [OF assms]
  by blast

text \<open>
  C20: The proxy does not catch its own traffic. Whatever the kernel answers, a socket that the proxy
  uses to reach the outside, for TCP, for direct UDP or for spoofed replies, carries the configured
  mark before it is bound or connected.
\<close>

theorem outgoing_sockets_marked:
  "(\<forall>s. connect_tcp_stream K addr fwmark nodelay = Inr s \<longrightarrow> marked fwmark s) \<and>
   (\<forall>s. connect_direct_udp K addr fwmark = Inr s \<longrightarrow> marked fwmark s) \<and>
   (\<forall>s. create_fake_udp_socket K addr fwmark = Inr s \<longrightarrow> marked fwmark s)"
proof (intro conjI allI impI)
  note calls = apply_socket_options_def set_socket_reuse_def marked_def calls_before_def udp_socket_def tcp_socket_def
  fix s
  show "marked fwmark s" if "connect_tcp_stream K addr fwmark nodelay = Inr s"
    using sys_Inr [OF that [unfolded connect_tcp_stream_def]] by (simp add: calls)
  show "marked fwmark s" if "connect_direct_udp K addr fwmark = Inr s"
    using sys_Inr [OF that [unfolded connect_direct_udp_def Let_def]] by (simp add: calls)
  show "marked fwmark s" if "create_fake_udp_socket K addr fwmark = Inr s"
    using sys_Inr [OF that [unfolded create_fake_udp_socket_def bind_udp_std_def]] by (simp add: calls)
qed

text \<open>
  C21: A redirected datagram is received with its addresses: whatever was read before without success,
  and whatever other control messages precede the original destination, the length, the client and the
  original destination are those the kernel wrote. A truncated or missing control message, or an
  unreadable peer, is an error, and nothing panics.
\<close>

theorem tproxy_packet_meta:
  assumes "set blocked \<subseteq> {Inl WouldBlock}" and "set other \<subseteq> {OtherControl}"
    and "msg = \<lparr>rm_bytes = len, rm_ctrunc = False, rm_address = Some (storage_of client),
      rm_cmsgs = Some (other @ control_of dst # rest)\<rparr>"
  shows "recv_packet (blocked @ Inr msg # later) =
      Some (Inr \<lparr>tm_len = len, tm_client_addr = client, tm_orig_dst = dst\<rparr>) \<and>
    recv_packet (blocked @ Inr (msg\<lparr>rm_ctrunc := True\<rparr>) # later) = Some (Inl (Fail ControlTruncated)) \<and>
    recv_packet (blocked @ Inr (msg\<lparr>rm_cmsgs := Some other\<rparr>) # later) = Some (Inl (Fail MissingOrigDst)) \<and>
    recv_packet (blocked @ Inr (msg\<lparr>rm_address := None\<rparr>) # later) = Some (Inl (Fail InvalidPeer))"
proof -
  have skip: "recv_packet (blocked @ rs) = recv_packet rs" for rs
    using assms(1) by (induction blocked) (auto simp: recv_udp_tproxy_packet_raw_def)
  have none: "orig_dst_of other = None" using assms(2) by (induction other) auto
  show ?thesis
    using orig_dst_found [OF assms(2)] none by (simp add: skip assms(3) recv_udp_tproxy_packet_raw_def)
qed

section \<open>Witnesses\<close>

theorem listeners_coexist_witness:
  "\<exists>s v4 v6. bind_tcp_listener (linux []) (SocketAddr (V4 0) 10810) True False None 1024 = Inr s \<and>
     create_tproxy_tcp_listeners (\<lambda>more. linux (more @ [s])) (V6 0) 10810 = Inr (v4, v6)"
proof -
  obtain s where s: "bind_tcp_listener (linux []) (SocketAddr (V4 0) 10810) True False None 1024 = Inr s" "shares_port s"
    using bind_tcp_listener_shares [of "[]" "SocketAddr (V4 0) 10810" False None 1024] by auto
  then have "\<forall>s \<in> set [s]. shares_port s" by simp
  from listeners_coexist [OF this, of "V6 0" 10810] s(1) show ?thesis by blast
qed

theorem outgoing_sockets_marked_witness:
  "\<exists>s. connect_tcp_stream (linux []) (SocketAddr (V4 1) 443) 255 True = Inr s \<and> marked 255 s"
proof -
  have "\<exists>s. connect_tcp_stream (linux []) (SocketAddr (V4 1) 443) 255 True = Inr s"
    by (simp add: connect_tcp_stream_def apply_socket_options_def tcp_socket_def linux_def)
  then show ?thesis using outgoing_sockets_marked [of "linux []" "SocketAddr (V4 1) 443" 255 True] by blast
qed

theorem tproxy_packet_meta_witness:
  "recv_packet [Inl WouldBlock, Inr \<lparr>rm_bytes = 7, rm_ctrunc = False, rm_address = Some (storage_of (SocketAddr (V4 1) 53)),
       rm_cmsgs = Some [OtherControl, control_of (SocketAddr (V6 2) 443)]\<rparr>] =
     Some (Inr \<lparr>tm_len = 7, tm_client_addr = SocketAddr (V4 1) 53, tm_orig_dst = SocketAddr (V6 2) 443\<rparr>)"
  using tproxy_packet_meta [of "[Inl WouldBlock]" "[OtherControl]" _ 7 "SocketAddr (V4 1) 53" "SocketAddr (V6 2) 443" "[]" "[]"]
  by simp

end
