(* ===== verification/Udp_Listener.thy ===== *)
theory Udp_Listener
  imports Udp_Relay Sockets
begin

text \<open>
  The listening loops of \<open>src/udp/mod.rs\<close>, \<open>run_udp_loop\<close> for redirected datagrams and
  \<open>run_udp_port_forward\<close>: receiving, the periodic reaping on arrival, and one task per packet that waits
  for the lock of its flow. The loop, the reaper inside it and the packet tasks interleave freely; the
  properties account for every datagram from the socket to its end.
\<close>

section \<open>State of a listener\<close>

text \<open>
  The loop may be reaping with a packet in hand; a task is queued until it has the lock of its flow and
  at work until it is finished. The last two fields record the packets dropped for want of a permit and
  those ignored by a closed runtime.
\<close>

record ('n4, 'n6) UdpListener =
  ln_loop :: "('n4, 'n6) UdpLoop"
  ln_tasks :: PacketTasks
  ln_queue :: "(nat \<times> UdpSessionSpec \<times> bytes) list"
  ln_working :: "nat list"
  ln_next :: nat
  ln_in_hand :: "(UdpSessionSpec \<times> bytes) option"
  ln_reaping :: bool
  ln_last_reap :: nat
  ln_running :: bool
  ln_overload :: "(UdpSessionSpec \<times> bytes) list"
  ln_ignored :: "(UdpSessionSpec \<times> bytes) list"

datatype ListenerKind = Tproxy | Forwarding SocketAddr SocketAddr nat

definition UDP_SNIFF_REAP_INTERVAL :: nat where "UDP_SNIFF_REAP_INTERVAL = 100"
definition UDP_SNIFF_REAP_IDLE_INTERVAL :: nat where "UDP_SNIFF_REAP_IDLE_INTERVAL = from_secs 1"
definition UDP_RECV_BUF_SIZE :: nat where "UDP_RECV_BUF_SIZE = 65536"

definition listener_new :: "('n4, 'n6, nat) AppState \<Rightarrow> UdpSniffer list \<Rightarrow> nat \<Rightarrow> ('n4, 'n6) UdpListener" where
  "listener_new app engines now =
     \<lparr>ln_loop = \<lparr>ul_app = app, ul_sniffers = engines, ul_pending = [], ul_reap_keys = [], ul_flushing = [], ul_log = []\<rparr>,
      ln_tasks = \<lparr>pt_locks = [], pt_handlers = [], pt_next = 0\<rparr>, ln_queue = [], ln_working = [], ln_next = 0,
      ln_in_hand = None, ln_reaping = False, ln_last_reap = now, ln_running = True, ln_overload = [], ln_ignored = []\<rparr>"

section \<open>An iteration\<close>

text \<open>\<open>buf.split_to(n)\<close> panics beyond the length of the buffer.\<close>

definition split_to :: "nat \<Rightarrow> bytes \<Rightarrow> (RecvError, bytes) rres" where
  "split_to n buf = (if n \<le> length buf then Inr (take n buf) else Inl Panic)"

text \<open>What a read delivers: the specification of the session and the length.\<close>

definition tproxy_recv :: "(RecvError + RecvMsg) list \<Rightarrow> (RecvError, UdpSessionSpec \<times> nat) rres option" where
  "tproxy_recv reads =
     map_option (map_sum id (\<lambda>packet. (for_tproxy (tm_client_addr packet) (tm_orig_dst packet), tm_len packet))) (recv_packet reads)"

definition forward_recv :: "SocketAddr \<Rightarrow> SocketAddr \<Rightarrow> nat \<Rightarrow> RecvError + nat \<times> SocketAddr \<Rightarrow> (RecvError, UdpSessionSpec \<times> nat) rres" where
  "forward_recv listen_addr remote listen_sock r =
     (case r of
        Inl e \<Rightarrow> Inl (Fail e)
      | Inr (n, client_addr) \<Rightarrow> Inr (for_port_forward listen_addr client_addr remote listen_sock, n))"

definition produces_pending :: "('n4, 'n6) UdpListener \<Rightarrow> bool" where
  "produces_pending s \<longleftrightarrow> c_quic_sniff_mode (st_config (ul_app (ln_loop s))) = FullMode"

text \<open>
  \<open>maybe_reap_pending_udp_sniff\<close> until its first wait, and from the end of the reaping. The steps
  between are \<open>reap_take\<close> and \<open>reap_forward\<close>.
\<close>

definition reap_begin :: "nat \<Rightarrow> ('n4, 'n6) UdpListener \<Rightarrow> ('n4, 'n6) UdpListener" where
  "reap_begin now s =
     (let interval = (if produces_pending s then UDP_SNIFF_REAP_INTERVAL else UDP_SNIFF_REAP_IDLE_INTERVAL)
      in if now - ln_last_reap s < interval then s
         else let s = s\<lparr>ln_last_reap := now, ln_reaping := True\<rparr>
              in if produces_pending s then s\<lparr>ln_loop := reap_collect now (ln_loop s)\<rparr> else s)"

definition reap_end :: "('n4, 'n6) UdpListener \<Rightarrow> ('n4, 'n6) UdpListener" where
  "reap_end s =
     (if ln_reaping s
      then let s = (if produces_pending s then s\<lparr>ln_loop := enforce_pending_udp_sniff_capacity (ln_loop s)\<rparr> else s)
           in s\<lparr>ln_tasks := reap_idle_udp_key_locks (ln_tasks s), ln_reaping := False\<rparr>
      else s)"

text \<open>The outcome of a read. A failed read ends a port forward; the transparent loop goes on.\<close>

definition listener_receive ::
  "ListenerKind \<Rightarrow> nat \<Rightarrow> (RecvError, UdpSessionSpec \<times> nat) rres \<Rightarrow> bytes \<Rightarrow> ('n4, 'n6) UdpListener \<Rightarrow>
   (RecvError, ('n4, 'n6) UdpListener) rres" where
  "listener_receive kind now r buf s =
     (case r of
        Inl Panic \<Rightarrow> Inl Panic
      | Inl (Fail e) \<Rightarrow> Inr (case kind of Tproxy \<Rightarrow> s | Forwarding _ _ _ \<Rightarrow> s\<lparr>ln_running := False\<rparr>)
      | Inr (spec, n) \<Rightarrow> bindR (split_to n buf) (\<lambda>payload. Inr (reap_begin now (s\<lparr>ln_in_hand := Some (spec, payload)\<rparr>))))"

text \<open>The rest of the iteration: an empty datagram is skipped, without a permit a packet is dropped.\<close>

definition listener_dispatch :: "('n4, 'n6) UdpListener \<Rightarrow> ('n4, 'n6) UdpListener" where
  "listener_dispatch s =
     (let s = reap_end s in
      case ln_in_hand s of
        None \<Rightarrow> s
      | Some (spec, payload) \<Rightarrow>
          let s = s\<lparr>ln_in_hand := None\<rparr> in
          if payload = [] then s
          else case spawn_udp_packet_handler (ln_next s) (sp_key spec) (ln_tasks s) of
                 (False, _) \<Rightarrow> s\<lparr>ln_overload := ln_overload s @ [(spec, payload)]\<rparr>
               | (True, pt) \<Rightarrow>
                   s\<lparr>ln_tasks := pt, ln_queue := ln_queue s @ [(ln_next s, spec, payload)], ln_next := ln_next s + 1\<rparr>)"

section \<open>Interleavings\<close>

text \<open>A task may take the lock of its flow when no task at work has it.\<close>

definition lock_of :: "PacketTasks \<Rightarrow> nat \<Rightarrow> nat option" where
  "lock_of pt t = map_option snd (map_of (pt_handlers pt) t)"

definition lock_free :: "('n4, 'n6) UdpListener \<Rightarrow> nat \<Rightarrow> bool" where
  "lock_free s t \<longleftrightarrow> (\<forall>t' \<in> set (ln_working s). lock_of (ln_tasks s) t' \<noteq> lock_of (ln_tasks s) t)"

definition take_up :: "nat \<Rightarrow> ('n4, 'n6) UdpListener \<Rightarrow> ('n4, 'n6) UdpListener" where
  "take_up t s = s\<lparr>ln_queue := filter (\<lambda>(t', _). t' \<noteq> t) (ln_queue s), ln_working := t # ln_working s\<rparr>"

text \<open>What the socket of a listener can deliver.\<close>

definition delivers :: "ListenerKind \<Rightarrow> (RecvError, UdpSessionSpec \<times> nat) rres \<Rightarrow> bool" where
  "delivers kind r \<longleftrightarrow>
     (case kind of
        Tproxy \<Rightarrow> \<exists>reads. tproxy_recv reads = Some r
      | Forwarding listen_addr remote listen_sock \<Rightarrow> \<exists>x. r = forward_recv listen_addr remote listen_sock x)"

text \<open>The listeners with the packets that were read so far, in every interleaving.\<close>

inductive udp_listener ::
  "quic_crates \<Rightarrow> ('n4, 'n6) net_ops \<Rightarrow> ListenerKind \<Rightarrow> ('n4, 'n6, nat) AppState \<Rightarrow> UdpSniffer list \<Rightarrow>
   (UdpSessionSpec \<times> bytes) list \<Rightarrow> ('n4, 'n6) UdpListener \<Rightarrow> bool" for C N kind app engines where
  start: "udp_listener C N kind app engines [] (listener_new app engines now)"
| receive: "udp_listener C N kind app engines rs s \<Longrightarrow> ln_running s \<Longrightarrow> ln_in_hand s = None \<Longrightarrow>
     delivers kind (Inr (spec, n)) \<Longrightarrow> length buf = UDP_RECV_BUF_SIZE \<Longrightarrow>
     listener_receive kind now (Inr (spec, n)) buf s = Inr s' \<Longrightarrow>
     udp_listener C N kind app engines (rs @ [(spec, take n buf)]) s'"
| failed: "udp_listener C N kind app engines rs s \<Longrightarrow> ln_running s \<Longrightarrow> ln_in_hand s = None \<Longrightarrow>
     delivers kind (Inl (Fail e)) \<Longrightarrow> listener_receive kind now (Inl (Fail e)) buf s = Inr s' \<Longrightarrow> udp_listener C N kind app engines rs s'"
| take: "udp_listener C N kind app engines rs s \<Longrightarrow> ln_reaping s \<Longrightarrow> ul_flushing (ln_loop s) = [] \<Longrightarrow>
     udp_listener C N kind app engines rs (s\<lparr>ln_loop := reap_take (ln_loop s)\<rparr>)"
| forward: "udp_listener C N kind app engines rs s \<Longrightarrow> ln_reaping s \<Longrightarrow>
     udp_listener C N kind app engines rs (s\<lparr>ln_loop := reap_forward (ln_loop s)\<rparr>)"
| dispatch: "udp_listener C N kind app engines rs s \<Longrightarrow> ln_in_hand s \<noteq> None \<Longrightarrow>
     ul_reap_keys (ln_loop s) = [] \<Longrightarrow> ul_flushing (ln_loop s) = [] \<Longrightarrow>
     udp_listener C N kind app engines rs (listener_dispatch s)"
| handle: "udp_listener C N kind app engines rs s \<Longrightarrow> (t, spec, payload) \<in> set (ln_queue s) \<Longrightarrow> lock_free s t \<Longrightarrow>
     handle_udp_client_payload C N False ready now spec payload (ln_loop s) = Inr l \<Longrightarrow>
     udp_listener C N kind app engines rs ((take_up t s)\<lparr>ln_loop := l\<rparr>)"
| ignore: "udp_listener C N kind app engines rs s \<Longrightarrow> (t, spec, payload) \<in> set (ln_queue s) \<Longrightarrow> lock_free s t \<Longrightarrow>
     handle_udp_client_payload C N True ready now spec payload (ln_loop s) = Inr l \<Longrightarrow>
     udp_listener C N kind app engines rs ((take_up t s)\<lparr>ln_loop := l, ln_ignored := ln_ignored s @ [(spec, payload)]\<rparr>)"
| finish: "udp_listener C N kind app engines rs s \<Longrightarrow> t \<in> set (ln_working s) \<Longrightarrow>
     udp_listener C N kind app engines rs
       (s\<lparr>ln_working := removeAll t (ln_working s), ln_tasks := finish_udp_packet_handler t (ln_tasks s)\<rparr>)"
| cancel: "udp_listener C N kind app engines rs s \<Longrightarrow> ln_in_hand s = None \<Longrightarrow>
     udp_listener C N kind app engines rs (s\<lparr>ln_running := False\<rparr>)"

section \<open>The reaper is not disturbed by the handlers\<close>

lemma reap_keys_simps [simp]:
  "ul_reap_keys (emit es s) = ul_reap_keys s"
  "ul_reap_keys (pending_remove key s) = ul_reap_keys s"
  "ul_reap_keys (pending_insert key pe s) = ul_reap_keys s"
  "ul_reap_keys (pending_drop key s) = ul_reap_keys s"
  "ul_reap_keys (forward_udp_payload spec payload s) = ul_reap_keys s"
  by (simp_all add: emit_def pending_remove_def pending_insert_def pending_drop_def forward_udp_payload_def split: option.split)

lemma reap_keys_flush [simp]: "ul_reap_keys (flush_pending_udp_sniff pe s) = ul_reap_keys s"
proof -
  have "ul_reap_keys (fold (forward_udp_payload spec) ps s) = ul_reap_keys s" for spec ps
    by (induction ps arbitrary: s) simp_all
  then show ?thesis by (simp add: flush_pending_udp_sniff_def)
qed

lemma reap_keys_enforce [simp]: "ul_reap_keys (enforce_pending_udp_sniff_capacity s) = ul_reap_keys s"
proof (induction s rule: enforce_pending_udp_sniff_capacity.induct)
  case (1 s)
  then show ?case by (subst enforce_pending_udp_sniff_capacity.simps) (auto split: option.split)
qed

lemma flushing_enforce: "ul_flushing (enforce_pending_udp_sniff_capacity s) = ul_flushing s"
proof (induction s rule: enforce_pending_udp_sniff_capacity.induct)
  case (1 s)
  have "ul_flushing (pending_drop key s) = ul_flushing s" for key
    by (simp add: pending_drop_def pending_remove_def emit_def split: option.split)
  with 1 show ?case by (subst enforce_pending_udp_sniff_capacity.simps) (auto split: option.split)
qed

lemma reap_keys_pending:
  "handle_pending_udp_sniff C now spec payload s = Inr (b, s') \<Longrightarrow> ul_reap_keys s' = ul_reap_keys s"
  by (auto simp: handle_pending_udp_sniff_def Let_def bindR_def
      split: option.splits if_splits prod.splits bool.splits sum.splits UdpSniffOutcome.splits)

lemma reap_keys_first:
  "sniff_first_datagram C now spec payload engines s = Inr (b, s') \<Longrightarrow> ul_reap_keys s' = ul_reap_keys s"
  by (induction engines)
    (auto simp: Let_def bindR_def split: prod.splits sum.splits UdpSniffOutcome.splits QuicSniffMode.splits)

lemma reap_keys_payload:
  assumes "handle_udp_client_payload C N is_closed ready now spec payload s = Inr s'"
  shows "ul_reap_keys s' = ul_reap_keys s"
proof -
  have new: "ul_reap_keys s' = ul_reap_keys s" if "handle_new_udp_sniff C N now spec payload s = Inr (b, s')" for b s s'
    using that by (auto simp: handle_new_udp_sniff_def Let_def split: prod.splits if_splits dest: reap_keys_first)
  show ?thesis
    using assms reap_keys_pending [of C now spec payload s] new
    by (auto simp: handle_udp_client_payload_def bindR_def split: if_splits sum.splits prod.splits)
qed

section \<open>Tasks and locks\<close>

definition tasks_ok ::
  "PacketTasks \<Rightarrow> (nat \<times> UdpSessionSpec \<times> bytes) list \<Rightarrow> nat list \<Rightarrow> nat \<Rightarrow> bool" where
  "tasks_ok pt queue working n \<longleftrightarrow>
     pt_reachable pt \<and> distinct (map fst (pt_handlers pt)) \<and> (\<forall>t \<in> fst ` set (pt_handlers pt). t < n) \<and>
     distinct (map fst queue @ working) \<and> set (map fst queue @ working) = fst ` set (pt_handlers pt) \<and>
     (\<forall>(t, spec, p) \<in> set queue. p \<noteq> [] \<and> (\<exists>l. (t, sp_key spec, l) \<in> set (pt_handlers pt))) \<and>
     (\<forall>t \<in> set working. \<forall>t' \<in> set working. lock_of pt t = lock_of pt t' \<longrightarrow> t = t')"

lemma spawn_handlers:
  "spawn_udp_packet_handler t key pt = (True, pt') \<Longrightarrow> \<exists>l. pt_handlers pt' = (t, key, l) # pt_handlers pt"
  by (auto simp: spawn_udp_packet_handler_def get_udp_key_lock_def split: if_splits option.splits)

lemma tasks_ok_reap: "tasks_ok pt queue working n \<Longrightarrow> tasks_ok (reap_idle_udp_key_locks pt) queue working n"
  using pt_reachable.reap [of pt] by (auto simp: tasks_ok_def lock_of_def reap_idle_udp_key_locks_def)

lemma tasks_ok_spawn:
  assumes ok: "tasks_ok pt queue working n" and sp: "spawn_udp_packet_handler n (sp_key spec) pt = (True, pt')" and p: "payload \<noteq> []"
  shows "tasks_ok pt' (queue @ [(n, spec, payload)]) working (n + 1)"
proof -
  obtain l where l: "pt_handlers pt' = (n, sp_key spec, l) # pt_handlers pt" using spawn_handlers [OF sp] by blast
  have fresh: "n \<notin> fst ` set (pt_handlers pt)" using ok by (auto simp: tasks_ok_def)
  have "lock_of pt' t = lock_of pt t" if "t \<in> set working" for t
  proof -
    have "t \<noteq> n" using ok fresh that by (auto simp: tasks_ok_def)
    then show ?thesis by (simp add: lock_of_def l)
  qed
  moreover have "pt_reachable pt'" using ok pt_reachable.spawn [of pt n "sp_key spec"] fresh sp by (auto simp: tasks_ok_def)
  ultimately show ?thesis using ok fresh p unfolding tasks_ok_def l by (auto simp: less_Suc_eq)
qed

lemma tasks_ok_take_up:
  assumes ok: "tasks_ok pt queue working n" and q: "(t, spec, payload) \<in> set queue"
    and free: "\<forall>t' \<in> set working. lock_of pt t' \<noteq> lock_of pt t"
  shows "tasks_ok pt (filter (\<lambda>(t', _). t' \<noteq> t) queue) (t # working) n"
proof -
  have "fst ` set (filter (\<lambda>(t', _). t' \<noteq> t) queue) = fst ` set queue - {t}" by force
  moreover have "t \<in> fst ` set queue" using q by force
  ultimately show ?thesis using ok free unfolding tasks_ok_def by (auto simp: distinct_map_filter)
qed

lemma tasks_ok_finish:
  assumes ok: "tasks_ok pt queue working n" and t: "t \<in> set working"
  shows "tasks_ok (finish_udp_packet_handler t pt) queue (removeAll t working) n"
proof -
  let ?pt = "finish_udp_packet_handler t pt"
  have h: "pt_handlers ?pt = filter (\<lambda>(t', _). t' \<noteq> t) (pt_handlers pt)" by (simp add: finish_udp_packet_handler_def)
  have ids: "fst ` set (pt_handlers ?pt) = fst ` set (pt_handlers pt) - {t}" unfolding h by force
  have lock: "lock_of ?pt t' = lock_of pt t'" if "t' \<noteq> t" for t'
  proof -
    have "map_of (filter (\<lambda>(x, _). x \<noteq> t) hs) t' = map_of hs t'" for hs :: "(nat \<times> UdpSessionKey \<times> nat) list"
      using that by (induction hs) auto
    then show ?thesis by (simp add: lock_of_def h)
  qed
  have "distinct (map fst queue @ working)" using ok by (simp add: tasks_ok_def)
  then have gone: "t \<notin> fst ` set queue" using t by auto
  then have other: "t' \<noteq> t" if "(t', x) \<in> set queue" for t' x using that by force
  show ?thesis unfolding tasks_ok_def
  proof (intro conjI)
    show "pt_reachable ?pt" using ok by (simp add: tasks_ok_def pt_reachable.finish)
    show "distinct (map fst (pt_handlers ?pt))" using ok by (simp add: tasks_ok_def h distinct_map_filter)
    show "\<forall>t \<in> fst ` set (pt_handlers ?pt). t < n" using ok unfolding ids tasks_ok_def by blast
    show "distinct (map fst queue @ removeAll t working)" using ok by (auto simp: tasks_ok_def distinct_removeAll)
    show "set (map fst queue @ removeAll t working) = fst ` set (pt_handlers ?pt)"
      using ok gone unfolding ids tasks_ok_def set_append set_map set_removeAll by blast
    show "\<forall>(t', spec, p) \<in> set queue. p \<noteq> [] \<and> (\<exists>l. (t', sp_key spec, l) \<in> set (pt_handlers ?pt))"
      using ok other unfolding tasks_ok_def h by fastforce
    show "\<forall>t' \<in> set (removeAll t working). \<forall>t'' \<in> set (removeAll t working). lock_of ?pt t' = lock_of ?pt t'' \<longrightarrow> t' = t''"
      using ok lock by (simp add: tasks_ok_def)
  qed
qed

section \<open>Accounting\<close>

text \<open>The packets that have not been handled, with their flows; empty ones do not count.\<close>

definition flow_of :: "UdpSessionSpec \<times> bytes \<Rightarrow> UdpSessionKey \<times> bytes" where
  "flow_of x = (sp_key (fst x), snd x)"

definition counted :: "(UdpSessionSpec \<times> bytes) list \<Rightarrow> (UdpSessionKey \<times> bytes) multiset" where
  "counted xs = mset (map flow_of (filter (\<lambda>x. snd x \<noteq> []) xs))"

definition unhandled :: "('n4, 'n6) UdpListener \<Rightarrow> (UdpSessionKey \<times> bytes) multiset" where
  "unhandled s =
     counted (ln_overload s) + counted (case ln_in_hand s of None \<Rightarrow> [] | Some x \<Rightarrow> [x]) +
     counted (map snd (ln_queue s)) + counted (ln_ignored s)"

definition handled :: "(UdpSessionKey \<times> bytes \<times> bool) list \<Rightarrow> (UdpSessionKey \<times> bytes) multiset" where
  "handled evs = mset (map (\<lambda>(k, p, _). (k, p)) evs)"

definition accounted ::
  "quic_crates \<Rightarrow> ('n4, 'n6) net_ops \<Rightarrow> ('n4, 'n6, nat) AppState \<Rightarrow> UdpSniffer list \<Rightarrow>
   (UdpSessionSpec \<times> bytes) list \<Rightarrow> ('n4, 'n6) UdpListener \<Rightarrow> bool" where
  "accounted C N app engines rs s \<longleftrightarrow>
     (\<exists>evs. udp_loop C N app engines evs (ln_loop s) \<and> counted rs = unhandled s + handled evs) \<and>
     (\<not> ln_reaping s \<longrightarrow> ul_reap_keys (ln_loop s) = [] \<and> ul_flushing (ln_loop s) = []) \<and>
     (ln_in_hand s = None \<longrightarrow> \<not> ln_reaping s)"

lemma counted_simps [simp]:
  "counted [] = {#}" "counted (xs @ ys) = counted xs + counted ys"
  "counted (x # xs) = (if snd x = [] then {#} else {#flow_of x#}) + counted xs"
  by (simp_all add: counted_def)

lemma handled_append [simp]: "handled (evs @ [(k, p, b)]) = handled evs + {#(k, p)#}"
  by (simp add: handled_def)

lemma counted_take_up:
  assumes "distinct (map fst queue)" and "(t, x) \<in> set queue"
  shows "counted (map snd queue) = (if snd x = [] then {#} else {#flow_of x#}) + counted (map snd (filter (\<lambda>(t', _). t' \<noteq> t) queue))"
  using assms
proof (induction queue)
  case (Cons y queue)
  show ?case
  proof (cases "fst y = t")
    case True
    then have "t \<notin> fst ` set queue" using Cons.prems(1) by auto
    moreover then have "filter (\<lambda>(t', _). t' \<noteq> t) queue = queue" by (force intro: filter_True)
    ultimately show ?thesis using True Cons.prems(2) by (cases y) (auto simp: image_iff)
  next
    case False
    then show ?thesis using Cons by (cases y) auto
  qed
qed simp

lemma accounted_receive:
  assumes a: "accounted C N app engines rs s" and h: "ln_in_hand s = None"
    and r: "listener_receive kind now (Inr (spec, n)) buf s = Inr s'"
  shows "accounted C N app engines (rs @ [(spec, take n buf)]) s'"
proof -
  let ?s = "s\<lparr>ln_in_hand := Some (spec, take n buf)\<rparr>"
  obtain evs where e: "udp_loop C N app engines evs (ln_loop s)" "counted rs = unhandled s + handled evs"
      "ul_reap_keys (ln_loop s) = []" "ul_flushing (ln_loop s) = []"
    using a h by (auto simp: accounted_def)
  have s': "s' = reap_begin now ?s" using r by (auto simp: listener_receive_def split_to_def split: if_splits)
  have u: "unhandled (reap_begin now ?s) = unhandled ?s" and i: "ln_in_hand (reap_begin now ?s) \<noteq> None"
    by (simp_all add: reap_begin_def Let_def unhandled_def)
  have "counted (rs @ [(spec, take n buf)]) = unhandled s' + handled evs"
    unfolding s' u using e(2) h by (simp add: unhandled_def)
  moreover have "udp_loop C N app engines evs (ln_loop s')"
    unfolding s' using e udp_loop.collect [OF e(1,3,4), of now] by (simp add: reap_begin_def Let_def)
  moreover have "\<not> ln_reaping s' \<Longrightarrow> ln_loop s' = ln_loop s"
    unfolding s' by (simp add: reap_begin_def Let_def split: if_splits)
  ultimately show ?thesis using e(3,4) i unfolding accounted_def s' by auto
qed

lemma accounted_dispatch:
  assumes a: "accounted C N app engines rs s"
    and k: "ul_reap_keys (ln_loop s) = []" "ul_flushing (ln_loop s) = []"
  shows "accounted C N app engines rs (listener_dispatch s)"
proof -
  obtain evs where e: "udp_loop C N app engines evs (ln_loop s)" "counted rs = unhandled s + handled evs"
    using a by (auto simp: accounted_def)
  have u: "unhandled (reap_end s) = unhandled s" by (simp add: reap_end_def Let_def unhandled_def)
  have l: "udp_loop C N app engines evs (ln_loop (reap_end s))"
    using e(1) udp_loop.capacity [OF e(1) k] by (simp add: reap_end_def Let_def)
  have f: "ul_reap_keys (ln_loop (reap_end s)) = []" "ul_flushing (ln_loop (reap_end s)) = []"
    using k by (simp_all add: reap_end_def Let_def flushing_enforce)
  have d: "unhandled (listener_dispatch s) = unhandled (reap_end s)" "ln_loop (listener_dispatch s) = ln_loop (reap_end s)"
    "\<not> ln_reaping (reap_end s)" "ln_reaping (listener_dispatch s) = ln_reaping (reap_end s)"
    by (auto simp: listener_dispatch_def Let_def unhandled_def reap_end_def split: option.split prod.split bool.split)
  show ?thesis using e(2) l f unfolding accounted_def d u using d(3) by blast
qed

lemma accounted_handle:
  assumes C: "quic_crates_ok C" and a: "accounted C N app engines rs s" and q: "distinct (map fst (ln_queue s))"
    and t: "(t, spec, payload) \<in> set (ln_queue s)" "payload \<noteq> []"
    and r: "handle_udp_client_payload C N False ready now spec payload (ln_loop s) = Inr l"
  shows "accounted C N app engines rs ((take_up t s)\<lparr>ln_loop := l\<rparr>)"
proof -
  obtain evs where e: "udp_loop C N app engines evs (ln_loop s)" "counted rs = unhandled s + handled evs"
    using a by (auto simp: accounted_def)
  have "ul_flushing l = ul_flushing (ln_loop s)"
    using client_payload_good [OF C, of "ln_loop s" N ready now spec payload] udp_loop_ok [OF C e(1)] r
    by (auto simp: good_step_def handles_def)
  moreover have "ul_reap_keys l = ul_reap_keys (ln_loop s)" by (rule reap_keys_payload [OF r])
  moreover have "unhandled s = unhandled ((take_up t s)\<lparr>ln_loop := l\<rparr>) + {#(sp_key spec, payload)#}"
    using counted_take_up [OF q t(1)] t(2) by (simp add: unhandled_def take_up_def flow_of_def)
  ultimately show ?thesis
    using a e(2) udp_loop.packet [OF e(1) r] unfolding accounted_def by (auto simp: take_up_def)
qed

lemma accounted_ignore:
  assumes a: "accounted C N app engines rs s" and q: "distinct (map fst (ln_queue s))"
    and t: "(t, spec, payload) \<in> set (ln_queue s)" "payload \<noteq> []"
  shows "accounted C N app engines rs ((take_up t s)\<lparr>ln_ignored := ln_ignored s @ [(spec, payload)]\<rparr>)"
proof -
  have "unhandled ((take_up t s)\<lparr>ln_ignored := ln_ignored s @ [(spec, payload)]\<rparr>) = unhandled s"
    using counted_take_up [OF q t(1)] t(2) by (simp add: unhandled_def take_up_def flow_of_def)
  with a show ?thesis unfolding accounted_def by (simp add: take_up_def)
qed

abbreviation ln_tasks_ok :: "('n4, 'n6) UdpListener \<Rightarrow> bool" where
  "ln_tasks_ok s \<equiv> tasks_ok (ln_tasks s) (ln_queue s) (ln_working s) (ln_next s)"

lemma tasks_ok_dispatch:
  assumes "ln_tasks_ok s"
  shows "ln_tasks_ok (listener_dispatch s)"
proof -
  have e: "ln_tasks_ok (reap_end s)"
    using assms tasks_ok_reap by (simp add: reap_end_def Let_def)
  show ?thesis
  proof (cases "ln_in_hand (reap_end s)")
    case (Some x)
    obtain spec payload where x: "x = (spec, payload)" by (cases x)
    obtain b pt where sp: "spawn_udp_packet_handler (ln_next (reap_end s)) (sp_key spec) (ln_tasks (reap_end s)) = (b, pt)"
      by fastforce
    from e tasks_ok_spawn [OF e, of spec pt payload] sp show ?thesis
      by (cases b) (auto simp: listener_dispatch_def Let_def Some x)
  qed (use e in \<open>simp add: listener_dispatch_def Let_def\<close>)
qed

lemma queuedD:
  assumes "ln_tasks_ok s" and "(t, spec, payload) \<in> set (ln_queue s)"
  shows "payload \<noteq> []" and "distinct (map fst (ln_queue s))"
  using assms by (auto simp: tasks_ok_def)

lemma listener_ok:
  assumes C: "quic_crates_ok C"
  shows "udp_listener C N kind app engines rs s \<Longrightarrow> ln_tasks_ok s \<and> accounted C N app engines rs s"
proof (induction rule: udp_listener.induct)
  case (start now)
  have "tasks_ok \<lparr>pt_locks = [], pt_handlers = [], pt_next = 0\<rparr> [] [] 0" by (simp add: tasks_ok_def pt_reachable.start)
  moreover have "accounted C N app engines [] (listener_new app engines now)"
    using udp_loop.start [of C N app engines] unfolding accounted_def
    by (auto simp: listener_new_def unhandled_def handled_def intro!: exI [of _ "[]"])
  ultimately show ?case by (simp add: listener_new_def)
next
  case (receive rs s spec n buf now s')
  then have "ln_tasks_ok s'"
    by (auto simp: listener_receive_def split_to_def reap_begin_def Let_def split: if_splits)
  with accounted_receive [OF _ receive.hyps(3,6)] receive.IH show ?case by blast
next
  case (failed rs s e now buf s')
  then show ?case
    by (auto simp: listener_receive_def accounted_def unhandled_def split: ListenerKind.splits)
next
  case (take rs s)
  then have "\<exists>evs. udp_loop C N app engines evs (reap_take (ln_loop s)) \<and> counted rs = unhandled s + handled evs"
    unfolding accounted_def by (meson udp_loop.take)
  with take show ?case unfolding accounted_def by (simp add: unhandled_def)
next
  case (forward rs s)
  then have "\<exists>evs. udp_loop C N app engines evs (reap_forward (ln_loop s)) \<and> counted rs = unhandled s + handled evs"
    unfolding accounted_def by (meson udp_loop.forward)
  with forward show ?case unfolding accounted_def by (simp add: unhandled_def)
next
  case (dispatch rs s)
  then show ?case using tasks_ok_dispatch accounted_dispatch by blast
next
  case (handle rs s t spec payload ready now l)
  note q = queuedD [OF conjunct1 [OF handle.IH] handle.hyps(2)]
  have "ln_tasks_ok (take_up t s)"
    using tasks_ok_take_up [OF conjunct1 [OF handle.IH] handle.hyps(2)] handle.hyps(3) by (simp add: take_up_def lock_free_def)
  with accounted_handle [OF C conjunct2 [OF handle.IH] q(2) handle.hyps(2) q(1) handle.hyps(4)] show ?case by simp
next
  case (ignore rs s t spec payload ready now l)
  note q = queuedD [OF conjunct1 [OF ignore.IH] ignore.hyps(2)]
  have "ln_tasks_ok (take_up t s)"
    using tasks_ok_take_up [OF conjunct1 [OF ignore.IH] ignore.hyps(2)] ignore.hyps(3) by (simp add: take_up_def lock_free_def)
  moreover have "l = ln_loop (take_up t s)" using ignore.hyps(4) by (simp add: handle_udp_client_payload_def take_up_def)
  ultimately show ?case
    using accounted_ignore [OF conjunct2 [OF ignore.IH] q(2) ignore.hyps(2) q(1)] by simp
next
  case (finish rs s t)
  with tasks_ok_finish show ?case by (simp add: accounted_def unhandled_def)
next
  case (cancel rs s)
  then show ?case by (simp add: accounted_def unhandled_def)
qed

section \<open>Properties\<close>

text \<open>The non-empty payloads of a flow, and the packets that wait in front of the handlers.\<close>

definition payloads :: "UdpSessionKey \<Rightarrow> (UdpSessionSpec \<times> bytes) list \<Rightarrow> bytes list" where
  "payloads k xs = map snd (filter (\<lambda>x. sp_key (fst x) = k \<and> snd x \<noteq> []) xs)"

definition ahead :: "('n4, 'n6) UdpListener \<Rightarrow> (UdpSessionSpec \<times> bytes) list" where
  "ahead s = (case ln_in_hand s of None \<Rightarrow> [] | Some x \<Rightarrow> [x]) @ map snd (ln_queue s)"

definition of_flow :: "UdpSessionKey \<Rightarrow> (UdpSessionKey \<times> bytes) multiset \<Rightarrow> bytes multiset" where
  "of_flow k M = image_mset snd (filter_mset (\<lambda>x. fst x = k) M)"

lemma of_flow_counted: "of_flow k (counted xs) = mset (payloads k xs)"
  by (induction xs) (auto simp: of_flow_def payloads_def flow_of_def)

lemma of_flow_handled: "of_flow k (handled evs) = mset (received k evs)"
  by (induction evs) (auto simp: of_flow_def handled_def received_def)

lemma of_flow_plus [simp]: "of_flow k (M + M') = of_flow k M + of_flow k M'"
  by (simp add: of_flow_def)

lemma exclusive_flows:
  assumes ok: "ln_tasks_ok s" and "t \<in> set (ln_working s)" "t' \<in> set (ln_working s)"
    and "(t, key, l) \<in> set (pt_handlers (ln_tasks s))" "(t', key, l') \<in> set (pt_handlers (ln_tasks s))"
  shows "t = t'"
proof -
  let ?hs = "pt_handlers (ln_tasks s)"
  have d: "distinct (map fst ?hs)" and r: "pt_ok (ln_tasks s)" using ok by (auto simp: tasks_ok_def intro: pt_reachable_ok)
  have "l = l'" using pt_okD(1) [OF r assms(4)] pt_okD(1) [OF r assms(5)] by simp
  then have "lock_of (ln_tasks s) t = lock_of (ln_tasks s) t'"
    using map_of_is_SomeI [OF d assms(4)] map_of_is_SomeI [OF d assms(5)] by (simp add: lock_of_def)
  with ok assms(2,3) show ?thesis by (simp add: tasks_ok_def)
qed

text \<open>
  C11: Every datagram is accounted for, from the socket to its end. In every interleaving of reading,
  reaping and packet tasks, the non-empty datagrams of a flow that were read are exactly those dropped
  for want of a permit, those ignored by a closed runtime, those waiting in front of the handlers, and
  those the sniffing stage has disposed of, is flushing or holds back. A packet is dropped only while
  4096 tasks are at work, two tasks of one flow never work at the same time, and no task panics.
\<close>

theorem udp_listener_conserves:
  assumes "quic_crates_ok C" and "udp_listener C N kind app engines rs s"
  shows "mset (payloads k rs) =
      mset (payloads k (ln_overload s)) + mset (payloads k (ln_ignored s)) + mset (payloads k (ahead s)) +
      mset (outs k (ln_loop s) @ inflight k (ln_loop s) @ held k (ln_loop s)) \<and>
    length (pt_handlers (ln_tasks s)) \<le> 4096 \<and>
    (length (pt_handlers (ln_tasks s)) < 4096 \<longrightarrow> ln_overload (listener_dispatch s) = ln_overload s) \<and>
    (\<forall>t \<in> set (ln_working s). \<forall>t' \<in> set (ln_working s). \<forall>key l l'.
       (t, key, l) \<in> set (pt_handlers (ln_tasks s)) \<and> (t', key, l') \<in> set (pt_handlers (ln_tasks s)) \<longrightarrow> t = t') \<and>
    handle_udp_client_payload C N is_closed ready now spec payload (ln_loop s) \<noteq> Inl Panic"
proof (intro conjI)
  note ok = listener_ok [OF assms]
  obtain evs where e: "udp_loop C N app engines evs (ln_loop s)" "counted rs = unhandled s + handled evs"
    using ok by (auto simp: accounted_def)
  note l = udp_loop_ok [OF assms(1) e(1), of k]
  have "of_flow k (counted rs) = of_flow k (unhandled s) + of_flow k (handled evs)" by (simp add: e(2))
  moreover have "mset (payloads k (ahead s)) =
      mset (payloads k (case ln_in_hand s of None \<Rightarrow> [] | Some x \<Rightarrow> [x])) + mset (payloads k (map snd (ln_queue s)))"
    by (simp add: ahead_def payloads_def)
  moreover have "mset (received k evs) = mset (outs k (ln_loop s) @ inflight k (ln_loop s) @ held k (ln_loop s))"
    using l by (simp add: conserved_def)
  ultimately show "mset (payloads k rs) =
      mset (payloads k (ln_overload s)) + mset (payloads k (ln_ignored s)) + mset (payloads k (ahead s)) +
      mset (outs k (ln_loop s) @ inflight k (ln_loop s) @ held k (ln_loop s))"
    by (simp add: unhandled_def of_flow_counted of_flow_handled)
  show "length (pt_handlers (ln_tasks s)) \<le> 4096"
    using ok pt_okD(3) [OF pt_reachable_ok, of "ln_tasks s"] by (simp add: tasks_ok_def UDP_PACKET_TASK_LIMIT_def)
  show "length (pt_handlers (ln_tasks s)) < 4096 \<longrightarrow> ln_overload (listener_dispatch s) = ln_overload s"
    by (auto simp: listener_dispatch_def Let_def reap_end_def spawn_udp_packet_handler_def UDP_PACKET_TASK_LIMIT_def
        reap_idle_udp_key_locks_def split: option.split prod.split bool.split)
  show "\<forall>t \<in> set (ln_working s). \<forall>t' \<in> set (ln_working s). \<forall>key l l'.
       (t, key, l) \<in> set (pt_handlers (ln_tasks s)) \<and> (t', key, l') \<in> set (pt_handlers (ln_tasks s)) \<longrightarrow> t = t'"
    using exclusive_flows [OF conjunct1 [OF ok]] by blast
  show "handle_udp_client_payload C N is_closed ready now spec payload (ln_loop s) \<noteq> Inl Panic"
    using client_payload_good [OF assms(1), of "ln_loop s" N ready now spec payload] l
    by (cases is_closed) (auto simp: handle_udp_client_payload_def)
qed

text \<open>A port forward reads one datagram, and its task holds it back for sniffing.\<close>

definition demo_kind :: ListenerKind where
  "demo_kind = Forwarding (SocketAddr (V4 1) 53) (SocketAddr (V4 3) 443) 0"

theorem udp_listener_conserves_witness:
  "\<exists>s. udp_listener null_crates word_net_ops demo_kind full_mode_app [QuicSniUdpSniffer] [(forward_spec, [0xc0])] s \<and>
     ahead s = [] \<and> ln_overload s = [] \<and>
     {#[0xc0]#} = mset (outs (sp_key forward_spec) (ln_loop s) @ inflight (sp_key forward_spec) (ln_loop s) @
       held (sp_key forward_spec) (ln_loop s))"
proof -
  let ?r = "udp_listener null_crates word_net_ops demo_kind full_mode_app [QuicSniUdpSniffer]"
  let ?s0 = "listener_new full_mode_app [QuicSniUdpSniffer] 0"
  let ?buf = "0xc0 # replicate 65535 0 :: bytes"
  let ?s1 = "?s0\<lparr>ln_in_hand := Some (forward_spec, [0xc0])\<rparr>"
  have "delivers demo_kind (Inr (forward_spec, 1))"
    unfolding delivers_def demo_kind_def ListenerKind.case
    by (rule exI [of _ "Inr (1, SocketAddr (V4 2) 4000)"]) (simp add: forward_recv_def forward_spec_def)
  moreover have "listener_receive demo_kind 0 (Inr (forward_spec, 1)) ?buf ?s0 = Inr ?s1"
    by (simp add: listener_receive_def split_to_def reap_begin_def listener_new_def UDP_SNIFF_REAP_INTERVAL_def
        produces_pending_def Let_def)
  ultimately have "?r ([] @ [(forward_spec, take 1 ?buf)]) ?s1"
    by (intro udp_listener.receive [OF udp_listener.start]) (simp_all add: listener_new_def UDP_RECV_BUF_SIZE_def)
  then have r1: "?r [(forward_spec, [0xc0])] ?s1" by simp
  have r2: "?r [(forward_spec, [0xc0])] (listener_dispatch ?s1)"
    by (rule udp_listener.dispatch [OF r1]) (simp_all add: listener_new_def)
  have d: "listener_dispatch ?s1 = ?s0\<lparr>ln_tasks := \<lparr>pt_locks = [(sp_key forward_spec, 0)],
      pt_handlers = [(0, sp_key forward_spec, 0)], pt_next = 1\<rparr>, ln_queue := [(0, forward_spec, [0xc0])], ln_next := 1\<rparr>"
    by (simp add: listener_dispatch_def Let_def reap_end_def listener_new_def spawn_udp_packet_handler_def
        get_udp_key_lock_def UDP_PACKET_TASK_LIMIT_def)
  have ok: "quic_crates_ok null_crates" by (simp add: quic_crates_ok_def null_crates_def)
  obtain l where l: "handle_udp_client_payload null_crates word_net_ops False False 0 forward_spec [0xc0]
      (ln_loop (listener_dispatch ?s1)) = Inr l"
    using udp_loop_ok [OF ok udp_loop.start] client_payload_good [OF ok, of "ln_loop (listener_dispatch ?s1)"]
    unfolding d by (fastforce simp: listener_new_def)
  let ?s = "(take_up 0 (listener_dispatch ?s1))\<lparr>ln_loop := l\<rparr>"
  have q: "(0, forward_spec, [0xc0]) \<in> set (ln_queue (listener_dispatch ?s1))" and f: "lock_free (listener_dispatch ?s1) 0"
    unfolding d by (simp_all add: lock_free_def listener_new_def)
  have r3: "?r [(forward_spec, [0xc0])] ?s" by (rule udp_listener.handle [OF r2 q f l])
  have "ahead ?s = []" "ln_overload ?s = []" "ln_ignored ?s = []"
    unfolding d by (simp_all add: take_up_def ahead_def listener_new_def)
  moreover have "payloads (sp_key forward_spec) [(forward_spec, [0xc0])] = [[0xc0]]" by (simp add: payloads_def)
  ultimately show ?thesis
    using udp_listener_conserves [OF ok r3, of "sp_key forward_spec"] r3
    by (intro exI [of _ ?s]) (simp add: payloads_def [of _ "[]"])
qed

end
