(* ===== verification/Fake_Udp.thy ===== *)
theory Fake_Udp
  imports Udp_Relay Sockets
begin

text \<open>
  The sockets that answer a client in the name of its target (\<open>udp/fake.rs\<close>). \<open>get_or_create\<close> is called
  by many receive loops at once and takes no lock between its sections, so a call is a sequence of five
  atomic sections (\<open>fake_section\<close>), and the relation \<open>fake_step\<close> interleaves the sections of all calls with
  those of \<open>cleanup_expired\<close> and \<open>close\<close>. The concurrent map works shard by shard: \<open>retain\<close> and \<open>clear\<close> hold
  the lock of one shard at a time. A socket is its number and the system calls that made it.
\<close>

section \<open>State\<close>

record FakeUdpKey =
  fk_src_addr :: SocketAddr
  fk_fwmark :: u32

type_synonym fake_socket = "nat \<times> socket"

record FakeUdpEntry =
  fe_socket :: fake_socket
  fe_last_used_secs :: nat

record FakeUdpManager =
  fm_sockets :: "(FakeUdpKey \<times> FakeUdpEntry) list"
  fm_closed :: bool

definition fake_new :: FakeUdpManager where
  "fake_new = \<lparr>fm_sockets = [], fm_closed = False\<rparr>"

abbreviation fake_entry :: "FakeUdpManager \<Rightarrow> FakeUdpKey \<Rightarrow> FakeUdpEntry option" where
  "fake_entry fm \<equiv> map_of (fm_sockets fm)"

section \<open>The sections of a call\<close>

text \<open>
  Where a call stands: before the first look at the flag, before the lookup, before the socket is made,
  with a socket before the second look at the flag, before the insertion, or back with its result.
\<close>

datatype FakeCall =
  FEnter | FLookup | FCreate | FRecheck fake_socket | FInsert fake_socket | FReturned "UdpError + fake_socket"

definition fake_put :: "FakeUdpKey \<Rightarrow> FakeUdpEntry \<Rightarrow> FakeUdpManager \<Rightarrow> FakeUdpManager" where
  "fake_put key e fm = fm\<lparr>fm_sockets := AList.update key e (fm_sockets fm)\<rparr>"

text \<open>
  One section of the call for a key at the time \<open>now\<close>; \<open>id\<close> numbers the socket that the kernel would make.
  An entry is stamped while its shard is locked, both on the fast path and at the insertion.
\<close>

fun fake_section ::
  "kernel \<Rightarrow> nat \<Rightarrow> FakeUdpKey \<Rightarrow> nat \<Rightarrow> FakeCall \<Rightarrow> FakeUdpManager \<Rightarrow> FakeCall \<times> FakeUdpManager" where
  "fake_section K n key now FEnter fm = (if fm_closed fm then FReturned (Inl FakeClosed) else FLookup, fm)"
| "fake_section K n key now FLookup fm =
     (case fake_entry fm key of
        Some e \<Rightarrow> (FReturned (Inr (fe_socket e)), fake_put key (e\<lparr>fe_last_used_secs := now\<rparr>) fm)
      | None \<Rightarrow> (FCreate, fm))"
| "fake_section K n key now FCreate fm =
     (case create_fake_udp_socket K (fk_src_addr key) (fk_fwmark key) of
        Inl _ \<Rightarrow> (FReturned (Inl FakeSocketFailed), fm)
      | Inr s \<Rightarrow> (FRecheck (n, s), fm))"
| "fake_section K n key now (FRecheck s) fm = (if fm_closed fm then FReturned (Inl FakeClosed) else FInsert s, fm)"
| "fake_section K n key now (FInsert s) fm =
     (let e = (case fake_entry fm key of Some e \<Rightarrow> e | None \<Rightarrow> \<lparr>fe_socket = s, fe_last_used_secs = now\<rparr>)
      in (FReturned (Inr (fe_socket e)), fake_put key (e\<lparr>fe_last_used_secs := now\<rparr>) fm))"
| "fake_section K n key now (FReturned r) fm = (FReturned r, fm)"

text \<open>A call that nothing interrupts, and the sending of one datagram by its socket.\<close>

definition fake_get_or_create ::
  "kernel \<Rightarrow> nat \<Rightarrow> nat \<Rightarrow> FakeUdpKey \<Rightarrow> FakeUdpManager \<Rightarrow> FakeCall \<times> FakeUdpManager" where
  "fake_get_or_create K n now key fm =
     ((\<lambda>(c, fm). fake_section K n key now c fm) ^^ 5) (FEnter, fm)"

definition fake_send_to ::
  "kernel \<Rightarrow> (fake_socket \<Rightarrow> bytes \<Rightarrow> SocketAddr \<Rightarrow> IoError + nat) \<Rightarrow> nat \<Rightarrow> nat \<Rightarrow> SocketAddr \<Rightarrow> SocketAddr \<Rightarrow> bytes \<Rightarrow> u32 \<Rightarrow>
   FakeUdpManager \<Rightarrow> (UdpError, nat) rres \<times> (fake_socket \<times> SocketAddr \<times> bytes) list \<times> FakeUdpManager" where
  "fake_send_to K send n now src_addr dst_addr payload fwmark fm =
     (case fake_get_or_create K n now \<lparr>fk_src_addr = src_addr, fk_fwmark = fwmark\<rparr> fm of
        (FReturned (Inr s), fm) \<Rightarrow>
          (case send s payload dst_addr of Inr sent \<Rightarrow> Inr sent | Inl _ \<Rightarrow> Inl (Fail SendFailed), [(s, dst_addr, payload)], fm)
      | (FReturned (Inl e), fm) \<Rightarrow> (Inl (Fail e), [], fm)
      | (_, fm) \<Rightarrow> (Inl Panic, [], fm))"

section \<open>Expiry and closing\<close>

text \<open>\<open>retain\<close> on one shard; \<open>shard\<close> is the shard of a key.\<close>

definition retain_shard :: "(FakeUdpKey \<Rightarrow> nat) \<Rightarrow> (FakeUdpEntry \<Rightarrow> bool) \<Rightarrow> nat \<Rightarrow> FakeUdpManager \<Rightarrow> FakeUdpManager" where
  "retain_shard shard P i fm = fm\<lparr>fm_sockets := filter (\<lambda>(key, e). shard key = i \<longrightarrow> P e) (fm_sockets fm)\<rparr>"

definition fake_alive :: "nat \<Rightarrow> nat \<Rightarrow> FakeUdpEntry \<Rightarrow> bool" where
  "fake_alive now_secs timeout_secs e \<longleftrightarrow> now_secs - fe_last_used_secs e < timeout_secs"

definition fake_cleanup_expired :: "(FakeUdpKey \<Rightarrow> nat) \<Rightarrow> nat \<Rightarrow> nat \<Rightarrow> nat \<Rightarrow> FakeUdpManager \<Rightarrow> FakeUdpManager" where
  "fake_cleanup_expired shard shards now_secs timeout_secs fm =
     fold (retain_shard shard (fake_alive now_secs timeout_secs)) [0..<shards] fm"

definition fake_mark_closed :: "FakeUdpManager \<Rightarrow> FakeUdpManager" where
  "fake_mark_closed fm = fm\<lparr>fm_closed := True\<rparr>"

definition fake_clear_shard :: "(FakeUdpKey \<Rightarrow> nat) \<Rightarrow> nat \<Rightarrow> FakeUdpManager \<Rightarrow> FakeUdpManager" where
  "fake_clear_shard shard i fm = retain_shard shard (\<lambda>_. False) i fm"

definition fake_close :: "(FakeUdpKey \<Rightarrow> nat) \<Rightarrow> nat \<Rightarrow> FakeUdpManager \<Rightarrow> FakeUdpManager" where
  "fake_close shard shards fm = fold (fake_clear_shard shard) [0..<shards] (fake_mark_closed fm)"

section \<open>Interleavings\<close>

record FakeRun =
  fr_mgr :: FakeUdpManager
  fr_calls :: "nat \<rightharpoonup> FakeUdpKey \<times> nat \<times> FakeCall"
  fr_next :: nat
  fr_cleared :: "nat set"

definition fake_run_new :: FakeRun where
  "fake_run_new = \<lparr>fr_mgr = fake_new, fr_calls = Map.empty, fr_next = 0, fr_cleared = {}\<rparr>"

text \<open>A task begins a call, and a call does its next section.\<close>

definition fake_begin :: "nat \<Rightarrow> FakeUdpKey \<Rightarrow> nat \<Rightarrow> FakeRun \<Rightarrow> FakeRun" where
  "fake_begin t key now r = r\<lparr>fr_calls := (fr_calls r)(t \<mapsto> (key, now, FEnter))\<rparr>"

definition fake_advance :: "kernel \<Rightarrow> nat \<Rightarrow> FakeRun \<Rightarrow> FakeRun" where
  "fake_advance K t r =
     (case fr_calls r t of
        None \<Rightarrow> r
      | Some (key, now, c) \<Rightarrow>
          (case fake_section K (fr_next r) key now c (fr_mgr r) of
             (c', fm) \<Rightarrow> r\<lparr>fr_mgr := fm, fr_calls := (fr_calls r)(t \<mapsto> (key, now, c')), fr_next := fr_next r + 1\<rparr>))"

text \<open>The kernel may answer every call of a socket's making differently, so it belongs to the step.\<close>

inductive fake_call_step :: "FakeRun \<Rightarrow> FakeRun \<Rightarrow> bool" where
  begins: "fr_calls r t = None \<Longrightarrow> fake_call_step r (fake_begin t key now r)"
| advance: "fake_call_step r (fake_advance K t r)"

inductive fake_step :: "(FakeUdpKey \<Rightarrow> nat) \<Rightarrow> FakeRun \<Rightarrow> FakeRun \<Rightarrow> bool" for shard where
  call: "fake_call_step r r' \<Longrightarrow> fake_step shard r r'"
| expire: "fake_step shard r (r\<lparr>fr_mgr := retain_shard shard (fake_alive now timeout) i (fr_mgr r)\<rparr>)"
| close: "fake_step shard r (r\<lparr>fr_mgr := fake_mark_closed (fr_mgr r)\<rparr>)"
| clear: "fm_closed (fr_mgr r) \<Longrightarrow>
     fake_step shard r (r\<lparr>fr_mgr := fake_clear_shard shard i (fr_mgr r), fr_cleared := insert i (fr_cleared r)\<rparr>)"

abbreviation fake_reachable :: "(FakeUdpKey \<Rightarrow> nat) \<Rightarrow> FakeRun \<Rightarrow> bool" where
  "fake_reachable shard \<equiv> (fake_step shard)\<^sup>*\<^sup>* fake_run_new"

inductive_cases fake_call_stepE: "fake_call_step r r'"
inductive_cases fake_stepE: "fake_step shard r r'"

section \<open>Invariant\<close>

text \<open>A socket that speaks in the name of the key's address: transparent, marked, sharing the port, then bound to it.\<close>

definition spoofs :: "FakeUdpKey \<Rightarrow> socket \<Rightarrow> bool" where
  "spoofs key s \<longleftrightarrow>
     last s = Bind (fk_src_addr key) \<and>
     (if is_ipv4 (fk_src_addr key) then TransparentV4 else TransparentV6) \<in> calls_before (\<lambda>c. \<exists>a. c = Bind a) s \<and>
     shares_port s \<and> marked (fk_fwmark key) s"

fun call_socket :: "FakeCall \<Rightarrow> fake_socket option" where
  "call_socket (FRecheck s) = Some s"
| "call_socket (FInsert s) = Some s"
| "call_socket (FReturned (Inr s)) = Some s"
| "call_socket _ = None"

text \<open>
  Of a manager: one entry per key, with a socket of that key. Of a run: the same of the manager, the
  sockets of the calls are those of their keys, and what a cleared shard holds was put there by a call.
\<close>

definition fm_ok :: "FakeUdpManager \<Rightarrow> bool" where
  "fm_ok fm \<longleftrightarrow> distinct (map fst (fm_sockets fm)) \<and> (\<forall>key e. fake_entry fm key = Some e \<longrightarrow> spoofs key (snd (fe_socket e)))"

definition fc_ok :: "FakeUdpKey \<Rightarrow> FakeCall \<Rightarrow> bool" where
  "fc_ok key c \<longleftrightarrow> (\<forall>s. call_socket c = Some s \<longrightarrow> spoofs key (snd s))"

definition fake_ok :: "FakeRun \<Rightarrow> bool" where
  "fake_ok r \<longleftrightarrow> fm_ok (fr_mgr r) \<and> (\<forall>t key now c. fr_calls r t = Some (key, now, c) \<longrightarrow> fc_ok key c)"

lemma created_spoofs: "create_fake_udp_socket K (fk_src_addr key) (fk_fwmark key) = Inr s \<Longrightarrow> spoofs key s"
  unfolding create_fake_udp_socket_def bind_udp_std_def
  by (drule sys_Inr)
    (simp add: spoofs_def shares_port_def marked_def calls_before_def apply_socket_options_def set_socket_reuse_def udp_socket_def)

lemma sys_all: "sys (\<lambda>_ _. True) made cs = Inr (made @ cs)"
  by (induction cs arbitrary: made) simp_all

lemma fake_entry_put [simp]: "fake_entry (fake_put key e fm) = (fake_entry fm)(key \<mapsto> e)"
  by (simp add: fake_put_def update_conv')

lemma fm_closed_simps [simp]:
  "fm_closed (fake_put key e fm) = fm_closed fm" "fm_closed (retain_shard shard P i fm) = fm_closed fm"
  "fm_closed (fake_clear_shard shard i fm) = fm_closed fm" "fm_closed (fake_mark_closed fm)"
  "fm_sockets (fake_mark_closed fm) = fm_sockets fm"
  by (simp_all add: fake_put_def retain_shard_def fake_clear_shard_def fake_mark_closed_def)

lemma fm_ok_put: "fm_ok fm \<Longrightarrow> spoofs key (snd (fe_socket e)) \<Longrightarrow> fm_ok (fake_put key e fm)"
  unfolding fm_ok_def by (auto simp: fake_put_def distinct_update update_conv')

lemma fm_ok_entry: "fm_ok fm \<Longrightarrow> fake_entry fm key = Some e \<Longrightarrow> spoofs key (snd (fe_socket e))"
  by (simp add: fm_ok_def)

lemma fm_ok_entry_pair: "fm_ok fm \<Longrightarrow> fake_entry fm key = Some e \<Longrightarrow> fe_socket e = (n, s) \<Longrightarrow> spoofs key s"
  using fm_ok_entry by fastforce

lemma map_of_retained:
  "distinct (map fst es) \<Longrightarrow> map_of (filter (\<lambda>(k, e). Q k e) es) key =
   (case map_of es key of Some e \<Rightarrow> if Q key e then Some e else None | None \<Rightarrow> None)"
  by (induction es) (auto simp: map_of_eq_None_iff image_iff split: option.split dest!: map_of_SomeD)

lemma fake_entry_retain:
  "fm_ok fm \<Longrightarrow> fake_entry (retain_shard shard P i fm) key =
   (case fake_entry fm key of Some e \<Rightarrow> if shard key = i \<longrightarrow> P e then Some e else None | None \<Rightarrow> None)"
  by (simp add: retain_shard_def map_of_retained fm_ok_def)

lemma fm_ok_retain: "fm_ok fm \<Longrightarrow> fm_ok (retain_shard shard P i fm)"
  using fake_entry_retain [of fm] unfolding fm_ok_def
  by (simp add: retain_shard_def distinct_map_filter split: option.splits if_splits)

lemma fake_section_ok:
  assumes "fm_ok fm" "fc_ok key c" "fake_section K n key now c fm = (c', fm')"
  shows "fm_ok fm' \<and> fc_ok key c'"
  using assms(3,1,2) fm_ok_entry_pair [OF assms(1)] fm_ok_entry [OF assms(1)]
  by (cases "(K, n, key, now, c, fm)" rule: fake_section.cases)
    (auto simp: fc_ok_def Let_def created_spoofs intro!: fm_ok_put split: option.splits sum.splits if_splits)

lemma fake_call_step_ok: "fake_call_step r r' \<Longrightarrow> fake_ok r \<Longrightarrow> fake_ok r'"
proof (induction rule: fake_call_step.induct)
  case (begins r t key now)
  then show ?case by (simp add: fake_ok_def fake_begin_def fc_ok_def)
next
  case (advance r K t)
  show ?case
  proof (cases "fr_calls r t")
    case (Some call)
    obtain key now c where call: "call = (key, now, c)" by (metis prod_cases3)
    obtain c' fm where sec: "fake_section K (fr_next r) key now c (fr_mgr r) = (c', fm)" by (meson surj_pair)
    have "fm_ok fm \<and> fc_ok key c'"
      using fake_section_ok [OF _ _ sec] advance Some call by (simp add: fake_ok_def)
    then show ?thesis using advance Some call sec by (simp add: fake_ok_def fake_advance_def)
  qed (use advance in \<open>simp add: fake_advance_def\<close>)
qed

lemma fm_ok_mark_closed: "fm_ok (fake_mark_closed fm) = fm_ok fm"
  by (simp add: fm_ok_def)

lemma fake_step_ok: "fake_step shard r r' \<Longrightarrow> fake_ok r \<Longrightarrow> fake_ok r'"
proof (induction rule: fake_step.induct)
  case (call r r')
  then show ?case by (rule fake_call_step_ok)
qed (simp_all add: fake_ok_def fm_ok_retain fake_clear_shard_def fm_ok_mark_closed)

lemma fake_run_new_ok: "fake_ok fake_run_new"
  by (simp add: fake_run_new_def fake_new_def fake_ok_def fm_ok_def)

lemma fake_reachable_ok: "fake_reachable shard r \<Longrightarrow> fake_ok r"
  by (induction rule: rtranclp_induct) (auto intro: fake_step_ok fake_run_new_ok)

section \<open>Calls that nothing interrupts\<close>

text \<open>The closed form of an undisturbed call: refused, the registered socket, or a new one.\<close>

lemma fake_get_or_create_alone:
  "fake_get_or_create K n now key fm =
     (if fm_closed fm then (FReturned (Inl FakeClosed), fm)
      else case fake_entry fm key of
             Some e \<Rightarrow> (FReturned (Inr (fe_socket e)), fake_put key (e\<lparr>fe_last_used_secs := now\<rparr>) fm)
           | None \<Rightarrow>
               (case create_fake_udp_socket K (fk_src_addr key) (fk_fwmark key) of
                  Inl _ \<Rightarrow> (FReturned (Inl FakeSocketFailed), fm)
                | Inr s \<Rightarrow> (FReturned (Inr (n, s)), fake_put key \<lparr>fe_socket = (n, s), fe_last_used_secs = now\<rparr> fm)))"
  by (simp add: fake_get_or_create_def numeral_eq_Suc split: option.split sum.split)

lemma fake_send_to_spoofs:
  assumes "fm_ok fm" "fake_send_to K send n now src dst payload fwmark fm = (res, out, fm')"
  shows "fm_ok fm' \<and> res \<noteq> Inl Panic \<and>
    (\<forall>(s, d, p) \<in> set out. d = dst \<and> p = payload \<and> spoofs \<lparr>fk_src_addr = src, fk_fwmark = fwmark\<rparr> (snd s))"
proof -
  let ?key = "\<lparr>fk_src_addr = src, fk_fwmark = fwmark\<rparr>"
  have "spoofs ?key s" if "create_fake_udp_socket K src fwmark = Inr s" for s
    using created_spoofs [of K ?key] that by simp
  with assms(2) fm_ok_entry [OF assms(1), of ?key] assms(1) show ?thesis
    unfolding fake_send_to_def fake_get_or_create_alone
    by (auto intro: fm_ok_put split: if_splits option.splits sum.splits)
qed

section \<open>One socket per key\<close>

definition fake_got :: "FakeRun \<Rightarrow> nat \<Rightarrow> FakeUdpKey \<Rightarrow> fake_socket \<Rightarrow> bool" where
  "fake_got r t key s \<longleftrightarrow> (\<exists>now. fr_calls r t = Some (key, now, FReturned (Inr s)))"

definition fake_has :: "FakeUdpManager \<Rightarrow> FakeUdpKey \<Rightarrow> fake_socket \<Rightarrow> bool" where
  "fake_has fm key s \<longleftrightarrow> map_option fe_socket (fake_entry fm key) = Some s"

lemma fake_section_has:
  assumes "fake_section K n key now c fm = (c', fm')"
  shows "fake_has fm k s \<Longrightarrow> fake_has fm' k s"
    and "c' = FReturned (Inr s) \<Longrightarrow> c = c' \<or> fake_has fm' key s"
  using assms
  by (cases "(K, n, key, now, c, fm)" rule: fake_section.cases;
      auto simp: fake_has_def Let_def split: option.splits sum.splits if_splits)+

lemma fake_call_step_has:
  assumes "fake_call_step r r'"
  shows "fake_has (fr_mgr r) k s \<Longrightarrow> fake_has (fr_mgr r') k s"
    and "fake_got r' t key s \<Longrightarrow> fake_got r t key s \<or> fake_has (fr_mgr r') key s"
proof (atomize (full), use assms in \<open>induction rule: fake_call_step.induct\<close>)
  case (begins r t' k' now)
  then show ?case by (auto simp: fake_begin_def fake_got_def split: if_splits)
next
  case (advance r K t')
  show ?case
  proof (cases "fr_calls r t'")
    case (Some call)
    obtain k' now c where call: "call = (k', now, c)" by (metis prod_cases3)
    obtain c' fm where sec: "fake_section K (fr_next r) k' now c (fr_mgr r) = (c', fm)" by (meson surj_pair)
    have step: "fake_advance K t' r = r\<lparr>fr_mgr := fm, fr_calls := (fr_calls r)(t' \<mapsto> (k', now, c')), fr_next := fr_next r + 1\<rparr>"
      using Some call sec by (simp add: fake_advance_def)
    show ?thesis
      using fake_section_has [OF sec] Some call unfolding step by (cases s) (auto simp: fake_got_def split: if_splits)
  qed (simp add: fake_advance_def)
qed

lemma fake_calls_has:
  assumes "fake_call_step\<^sup>*\<^sup>* r r'" "fake_got r' t key s" "\<not> fake_got r t key s"
  shows "fake_has (fr_mgr r') key s"
  using assms
  by (induction rule: rtranclp_induct) (use fake_call_step_has in blast)+

section \<open>Closing\<close>

text \<open>
  A manager that is closing: the flag is set, no call is between its second look at the flag and its
  insertion, and the shards that were cleared are empty. A call that had not looked at the flag is refused.
\<close>

definition inserting :: "FakeRun \<Rightarrow> bool" where
  "inserting r \<longleftrightarrow> (\<exists>t key now s. fr_calls r t = Some (key, now, FInsert s))"

definition fake_closing :: "(FakeUdpKey \<Rightarrow> nat) \<Rightarrow> FakeRun \<Rightarrow> bool" where
  "fake_closing shard r \<longleftrightarrow>
     fm_closed (fr_mgr r) \<and> \<not> inserting r \<and> (\<forall>key e. fake_entry (fr_mgr r) key = Some e \<longrightarrow> shard key \<notin> fr_cleared r)"

definition refused :: "FakeRun \<Rightarrow> nat \<Rightarrow> bool" where
  "refused r t \<longleftrightarrow> (case fr_calls r t of None \<Rightarrow> True | Some (key, now, c) \<Rightarrow> c \<in> {FEnter, FReturned (Inl FakeClosed)})"

lemma fake_section_closed:
  assumes "fake_section K n key now c fm = (c', fm')" "fm_closed fm" "\<And>s. c \<noteq> FInsert s"
  shows "fm_closed fm' \<and> (\<forall>s. c' \<noteq> FInsert s) \<and> (\<forall>k. fake_entry fm k = None \<longrightarrow> fake_entry fm' k = None) \<and>
    (c \<in> {FEnter, FReturned (Inl FakeClosed)} \<longrightarrow> c' = FReturned (Inl FakeClosed))"
  using assms
  by (cases "(K, n, key, now, c, fm)" rule: fake_section.cases) (auto split: option.splits sum.splits if_splits)

lemma fake_advance_closing:
  assumes "fake_closing shard r"
  shows "fake_closing shard (fake_advance K t r) \<and> (refused r t' \<longrightarrow> refused (fake_advance K t r) t')"
proof (cases "fr_calls r t")
  case (Some call)
  obtain key now c where call: "call = (key, now, c)" by (metis prod_cases3)
  obtain c' fm where sec: "fake_section K (fr_next r) key now c (fr_mgr r) = (c', fm)" by (meson surj_pair)
  have step: "fake_advance K t r = r\<lparr>fr_mgr := fm, fr_calls := (fr_calls r)(t \<mapsto> (key, now, c')), fr_next := fr_next r + 1\<rparr>"
    using Some call sec by (simp add: fake_advance_def)
  have c: "fm_closed (fr_mgr r)" "\<And>s. c \<noteq> FInsert s"
    using assms Some call by (auto simp: fake_closing_def inserting_def)
  note sec' = fake_section_closed [OF sec c]
  have "fake_closing shard (fake_advance K t r)"
    unfolding step fake_closing_def inserting_def
    using assms sec' by (simp add: fake_closing_def inserting_def) (metis option.exhaust)
  moreover have "refused r t' \<longrightarrow> refused (fake_advance K t r) t'"
    unfolding step using sec' Some call by (auto simp: refused_def)
  ultimately show ?thesis ..
qed (use assms in \<open>simp add: fake_advance_def\<close>)

lemma fake_begin_closing:
  "fake_closing shard r \<Longrightarrow>
   fake_closing shard (fake_begin t key now r) \<and> (refused r t' \<longrightarrow> refused (fake_begin t key now r) t')"
  by (auto simp: fake_begin_def fake_closing_def inserting_def refused_def)

lemma fake_step_closing:
  assumes "fake_step shard r r'" "fake_ok r" "fake_closing shard r"
  shows "fake_closing shard r' \<and> (refused r t \<longrightarrow> refused r' t)"
  using assms
proof (induction rule: fake_step.induct)
  case (call r r')
  then show ?case
    by (cases rule: fake_call_stepE [OF call.hyps]) (use fake_advance_closing fake_begin_closing in blast)+
next
  case (expire r now timeout i)
  then show ?case
    by (auto simp: fake_closing_def inserting_def refused_def fake_ok_def fake_entry_retain split: option.splits if_splits)
next
  case (close r)
  then show ?case by (simp add: fake_closing_def inserting_def refused_def)
next
  case (clear r i)
  then show ?case
    by (auto simp: fake_closing_def inserting_def refused_def fake_ok_def fake_clear_shard_def fake_entry_retain
        split: option.splits if_splits)
qed

lemma fake_run_closing:
  assumes "(fake_step shard)\<^sup>*\<^sup>* r r'" "fake_ok r" "fake_closing shard r"
  shows "fake_ok r' \<and> fake_closing shard r' \<and> (refused r t \<longrightarrow> refused r' t)"
  using assms
  by (induction rule: rtranclp_induct) (use fake_step_ok fake_step_closing in blast)+

lemma fm_closed_section: "fm_closed (snd (fake_section K n key now c fm)) = fm_closed fm"
  by (cases "(K, n, key, now, c, fm)" rule: fake_section.cases) (auto simp: Let_def split: option.splits sum.splits)

lemma fake_call_step_frame:
  "fake_call_step r r' \<Longrightarrow> fr_cleared r' = fr_cleared r \<and> fm_closed (fr_mgr r') = fm_closed (fr_mgr r)"
  by (induction rule: fake_call_step.induct)
    (auto simp: fake_begin_def fake_advance_def split: option.split prod.split dest: arg_cong [where f = "\<lambda>p. fm_closed (snd p)"]
      simp: fm_closed_section)

lemma fake_uncleared: "fake_reachable shard r \<Longrightarrow> \<not> fm_closed (fr_mgr r) \<Longrightarrow> fr_cleared r = {}"
proof (induction rule: rtranclp_induct)
  case (step r r')
  then show ?case by (cases rule: fake_stepE [OF step.hyps(2)]) (auto dest: fake_call_step_frame)
qed (simp add: fake_run_new_def)

text \<open>What a closing manager ends in, when no call was about to insert.\<close>

lemma fake_closed_run:
  assumes "fake_reachable shard r" "\<not> fm_closed (fr_mgr r)" "\<not> inserting r"
    and "(fake_step shard)\<^sup>*\<^sup>* (r\<lparr>fr_mgr := fake_mark_closed (fr_mgr r)\<rparr>) r'"
  shows "fake_closing shard r' \<and> (fr_calls r t = None \<longrightarrow> refused r' t)"
proof -
  let ?r = "r\<lparr>fr_mgr := fake_mark_closed (fr_mgr r)\<rparr>"
  have "fake_ok ?r" using fake_reachable_ok [OF assms(1)] by (simp add: fake_ok_def fm_ok_mark_closed)
  moreover have "fake_closing shard ?r"
    using assms(3) fake_uncleared [OF assms(1,2)] by (simp add: fake_closing_def inserting_def)
  ultimately show ?thesis using fake_run_closing [OF assms(4), of t] by (auto simp: refused_def)
qed

lemma fake_closed_empty:
  assumes "fake_reachable shard r" "\<not> fm_closed (fr_mgr r)" "\<not> inserting r"
    and "(fake_step shard)\<^sup>*\<^sup>* (r\<lparr>fr_mgr := fake_mark_closed (fr_mgr r)\<rparr>) r'" "\<forall>key. shard key \<in> fr_cleared r'"
  shows "fm_sockets (fr_mgr r') = []"
proof (rule ccontr)
  assume "fm_sockets (fr_mgr r') \<noteq> []"
  then obtain x xs where "fm_sockets (fr_mgr r') = x # xs" by (auto simp: neq_Nil_conv)
  then have "fake_entry (fr_mgr r') (fst x) = Some (snd x)" by simp
  with fake_closed_run [OF assms(1-4)] assms(5) show False unfolding fake_closing_def by blast
qed

text \<open>The clearing of all shards, and a call that stands before its insertion while it happens.\<close>

definition fake_cleared :: "(FakeUdpKey \<Rightarrow> nat) \<Rightarrow> nat \<Rightarrow> FakeRun \<Rightarrow> FakeRun" where
  "fake_cleared shard shards r =
     fold (\<lambda>i r. r\<lparr>fr_mgr := fake_clear_shard shard i (fr_mgr r), fr_cleared := insert i (fr_cleared r)\<rparr>) [0..<shards] r"

lemma fake_cleared_run:
  assumes "fm_closed (fr_mgr r)"
  shows "(fake_step shard)\<^sup>*\<^sup>* r (fake_cleared shard shards r) \<and> fm_closed (fr_mgr (fake_cleared shard shards r)) \<and>
    fr_cleared (fake_cleared shard shards r) = fr_cleared r \<union> {..<shards} \<and>
    fr_calls (fake_cleared shard shards r) = fr_calls r"
proof (induction shards)
  case (Suc n)
  let ?r = "fake_cleared shard n r"
  have "fake_cleared shard (Suc n) r =
      ?r\<lparr>fr_mgr := fake_clear_shard shard n (fr_mgr ?r), fr_cleared := insert n (fr_cleared ?r)\<rparr>"
    by (simp add: fake_cleared_def)
  moreover from Suc have "fake_step shard ?r (?r\<lparr>fr_mgr := fake_clear_shard shard n (fr_mgr ?r), fr_cleared := insert n (fr_cleared ?r)\<rparr>)"
    by (intro fake_step.clear) blast
  ultimately show ?case using Suc by (auto intro: rtranclp.rtrancl_into_rtrancl simp: lessThan_Suc)
qed (use assms in \<open>simp add: fake_cleared_def\<close>)

lemma fake_advances: "fake_call_step\<^sup>*\<^sup>* r ((fake_advance K t ^^ n) r)"
  by (induction n) (auto intro: rtranclp.rtrancl_into_rtrancl fake_call_step.advance)

lemma fake_calls_run: "fake_call_step\<^sup>*\<^sup>* r r' \<Longrightarrow> (fake_step shard)\<^sup>*\<^sup>* r r'"
  by (induction rule: rtranclp_induct) (auto intro: rtranclp.rtrancl_into_rtrancl fake_step.call)

lemma created_all: "\<exists>s. create_fake_udp_socket (\<lambda>_ _. True) src fwmark = Inr s"
  by (simp add: create_fake_udp_socket_def bind_udp_std_def sys_all)

lemmas fake_eval = fake_begin_def fake_advance_def fake_run_new_def fake_new_def numeral_eq_Suc

definition fake_racing :: "FakeUdpKey \<Rightarrow> FakeRun" where
  "fake_racing key = (fake_advance (\<lambda>_ _. True) 0 ^^ 4) (fake_begin 0 key 0 fake_run_new)"

lemma fake_racing_run:
  "fake_call_step\<^sup>*\<^sup>* fake_run_new (fake_racing key) \<and> (\<exists>s. fr_calls (fake_racing key) = [0 \<mapsto> (key, 0, FInsert s)])"
proof (intro conjI)
  have "fake_call_step fake_run_new (fake_begin 0 key 0 fake_run_new)"
    by (rule fake_call_step.begins) (simp add: fake_run_new_def)
  then show "fake_call_step\<^sup>*\<^sup>* fake_run_new (fake_racing key)"
    unfolding fake_racing_def by (rule converse_rtranclp_into_rtranclp [OF _ fake_advances])
  obtain s where "create_fake_udp_socket (\<lambda>_ _. True) (fk_src_addr key) (fk_fwmark key) = Inr s" using created_all by blast
  then have "fr_calls (fake_racing key) = [0 \<mapsto> (key, 0, FInsert (2, s))]" by (simp add: fake_racing_def fake_eval)
  then show "\<exists>s. fr_calls (fake_racing key) = [0 \<mapsto> (key, 0, FInsert s)]" ..
qed

text \<open>A run in which that call inserts into the closed and cleared manager.\<close>

lemma fake_leak:
  "\<exists>q. fake_reachable shard q \<and> fm_closed (fr_mgr q) \<and> {..<shards} \<subseteq> fr_cleared q \<and>
     ran (fr_calls q) \<subseteq> {(k, now, FReturned res) | k now res. True} \<and> fake_entry (fr_mgr q) key \<noteq> None"
proof -
  let ?q = "(fake_racing key)\<lparr>fr_mgr := fake_mark_closed (fr_mgr (fake_racing key))\<rparr>"
  let ?c = "fake_cleared shard shards ?q"
  let ?l = "fake_advance (\<lambda>_ _. True) 0 ?c"
  obtain s where racing: "fake_reachable shard (fake_racing key)" "fr_calls (fake_racing key) = [0 \<mapsto> (key, 0, FInsert s)]"
    using fake_racing_run fake_calls_run by blast
  have c: "(fake_step shard)\<^sup>*\<^sup>* ?q ?c" "fm_closed (fr_mgr ?c)" "{..<shards} \<subseteq> fr_cleared ?c"
      "fr_calls ?c = [0 \<mapsto> (key, 0, FInsert s)]"
    using fake_cleared_run [of ?q shard shards] racing(2) by auto
  have "fake_step shard (fake_racing key) ?q" by (rule fake_step.close)
  moreover have "fake_step shard ?c ?l" by (intro fake_step.call fake_call_step.advance)
  ultimately have "fake_reachable shard ?l" using racing(1) c(1) by (metis rtranclp.rtrancl_into_rtrancl rtranclp_trans)
  with c(2-4) show ?thesis by (intro exI [of _ ?l]) (simp add: fake_advance_def Let_def)
qed

section \<open>Properties\<close>

text \<open>
  C12: Replies are sent in the name of the right address, by one socket per address and mark. Whatever the
  calls, collections and closings that interleaved before, a socket that a call returns was made
  transparent, marked and bound to the address asked for; a datagram is sent by such a socket to its
  client or not at all; and calls for one key that end without a collection in between get the same socket.
\<close>

theorem fake_socket_of_flow:
  assumes "fake_reachable shard r"
  shows "(fake_got r t key s \<longrightarrow> spoofs key (snd s)) \<and>
    (fake_send_to K send n now src dst payload fwmark (fr_mgr r) = (res, out, fm') \<longrightarrow>
       res \<noteq> Inl Panic \<and>
       (\<forall>(s, d, p) \<in> set out. d = dst \<and> p = payload \<and> spoofs \<lparr>fk_src_addr = src, fk_fwmark = fwmark\<rparr> (snd s))) \<and>
    (fake_call_step\<^sup>*\<^sup>* r r' \<and> fake_got r' a key s1 \<and> fake_got r' b key s2 \<and>
     \<not> fake_got r a key s1 \<and> \<not> fake_got r b key s2 \<longrightarrow> s1 = s2)"
proof (intro conjI impI)
  note ok = fake_reachable_ok [OF assms]
  show "spoofs key (snd s)" if "fake_got r t key s"
    using ok that unfolding fake_got_def fake_ok_def fc_ok_def by (metis call_socket.simps(3))
  have "fm_ok (fr_mgr r)" using ok by (simp add: fake_ok_def)
  from fake_send_to_spoofs [OF this]
  show "res \<noteq> Inl Panic" "\<forall>(s, d, p) \<in> set out. d = dst \<and> p = payload \<and> spoofs \<lparr>fk_src_addr = src, fk_fwmark = fwmark\<rparr> (snd s)"
    if "fake_send_to K send n now src dst payload fwmark (fr_mgr r) = (res, out, fm')"
    using that by blast+
  show "s1 = s2" if "fake_call_step\<^sup>*\<^sup>* r r' \<and> fake_got r' a key s1 \<and> fake_got r' b key s2 \<and>
     \<not> fake_got r a key s1 \<and> \<not> fake_got r b key s2"
    using fake_calls_has [of r r' a key s1] fake_calls_has [of r r' b key s2] that by (auto simp: fake_has_def)
qed

text \<open>
  Closing the manager. If no call is between its second look at the flag and its insertion when the
  flag is set, then however the calls and the clearing of the shards interleave afterwards, the table is
  empty once all shards have been cleared, and no call that starts later gets a socket. A call in that
  window, however, registers its socket in the closed manager after the table was cleared.
\<close>

theorem fake_close_window:
  assumes "fake_reachable shard r" "\<not> fm_closed (fr_mgr r)" "\<not> inserting r"
    and "(fake_step shard)\<^sup>*\<^sup>* (r\<lparr>fr_mgr := fake_mark_closed (fr_mgr r)\<rparr>) r'"
  shows "((\<forall>key. shard key \<in> fr_cleared r') \<longrightarrow> fm_sockets (fr_mgr r') = []) \<and>
    (fr_calls r t = None \<longrightarrow> \<not> fake_got r' t key s) \<and>
    (\<exists>q. fake_reachable shard q \<and> fm_closed (fr_mgr q) \<and> {..<shards} \<subseteq> fr_cleared q \<and>
       ran (fr_calls q) \<subseteq> {(k, now, FReturned res) | k now res. True} \<and> fake_entry (fr_mgr q) key \<noteq> None)"
proof (intro conjI impI)
  show "fm_sockets (fr_mgr r') = []" if "\<forall>key. shard key \<in> fr_cleared r'"
    by (rule fake_closed_empty [OF assms that])
  show "\<not> fake_got r' t key s" if "fr_calls r t = None"
    using fake_closed_run [OF assms, of t] that by (auto simp: refused_def fake_got_def)
qed (rule fake_leak)

section \<open>Witnesses\<close>

text \<open>Two calls for one key that both make a socket before either of them inserts.\<close>

definition fake_two :: "FakeUdpKey \<Rightarrow> FakeRun" where
  "fake_two key = ((\<lambda>r. fake_advance (\<lambda>_ _. True) 1 (fake_advance (\<lambda>_ _. True) 0 r)) ^^ 5)
     (fake_begin 1 key 0 (fake_begin 0 key 0 fake_run_new))"

lemma fake_two_run: "fake_call_step\<^sup>*\<^sup>* fake_run_new (fake_two key)"
proof -
  have "fake_call_step\<^sup>*\<^sup>* r (((\<lambda>r. fake_advance K 1 (fake_advance K 0 r)) ^^ n) r)" for r K n
    by (induction n) (auto intro: rtranclp.rtrancl_into_rtrancl fake_call_step.advance)
  moreover have "fake_call_step (fake_begin 0 key 0 fake_run_new) (fake_begin 1 key 0 (fake_begin 0 key 0 fake_run_new))"
    by (rule fake_call_step.begins) (simp add: fake_run_new_def fake_begin_def)
  moreover have "fake_call_step fake_run_new (fake_begin 0 key 0 fake_run_new)"
    by (rule fake_call_step.begins) (simp add: fake_run_new_def)
  ultimately show ?thesis unfolding fake_two_def by (meson converse_rtranclp_into_rtranclp)
qed

lemma fake_round:
  assumes "fake_section K n key now c fm = (c', fm')" "fake_section K (n + 1) key now d fm' = (d', fm'')"
  shows "fake_advance K 1 (fake_advance K 0 \<lparr>fr_mgr = fm, fr_calls = [0 \<mapsto> (key, now, c), 1 \<mapsto> (key, now, d)], fr_next = n, fr_cleared = X\<rparr>) =
    \<lparr>fr_mgr = fm'', fr_calls = [0 \<mapsto> (key, now, c'), 1 \<mapsto> (key, now, d')], fr_next = n + 2, fr_cleared = X\<rparr>"
  using assms by (simp add: fake_advance_def fun_upd_twist)

lemma fake_two_eq:
  "\<exists>s. fake_two key = \<lparr>fr_mgr = fake_put key \<lparr>fe_socket = (4, s), fe_last_used_secs = 0\<rparr> fake_new,
     fr_calls = [0 \<mapsto> (key, 0, FReturned (Inr (4, s))), 1 \<mapsto> (key, 0, FReturned (Inr (4, s)))], fr_next = 10, fr_cleared = {}\<rparr>"
proof -
  obtain s where s: "create_fake_udp_socket (\<lambda>_ _. True) (fk_src_addr key) (fk_fwmark key) = Inr s" using created_all by blast
  show ?thesis
    unfolding fake_two_def fake_begin_def fake_run_new_def
    by (intro exI [of _ s]) (simp add: fake_round [unfolded One_nat_def] s fake_new_def fake_put_def numeral_eq_Suc)
qed

lemma fake_two_end:
  "\<exists>s now. fr_calls (fake_two key) = [0 \<mapsto> (key, now, FReturned (Inr s)), 1 \<mapsto> (key, now, FReturned (Inr s))] \<and>
     \<not> fm_closed (fr_mgr (fake_two key))"
proof -
  obtain s where "fake_two key = \<lparr>fr_mgr = fake_put key \<lparr>fe_socket = (4, s), fe_last_used_secs = 0\<rparr> fake_new,
     fr_calls = [0 \<mapsto> (key, 0, FReturned (Inr (4, s))), 1 \<mapsto> (key, 0, FReturned (Inr (4, s)))], fr_next = 10, fr_cleared = {}\<rparr>"
    using fake_two_eq by blast
  then show ?thesis by (simp add: fake_new_def) blast
qed

theorem fake_socket_of_flow_witness:
  "\<exists>s. fake_got (fake_two \<lparr>fk_src_addr = SocketAddr (V4 1) 53, fk_fwmark = 255\<rparr>) 0 \<lparr>fk_src_addr = SocketAddr (V4 1) 53, fk_fwmark = 255\<rparr> s \<and>
     spoofs \<lparr>fk_src_addr = SocketAddr (V4 1) 53, fk_fwmark = 255\<rparr> (snd s) \<and>
     (\<forall>s'. fake_got (fake_two \<lparr>fk_src_addr = SocketAddr (V4 1) 53, fk_fwmark = 255\<rparr>) 1 \<lparr>fk_src_addr = SocketAddr (V4 1) 53, fk_fwmark = 255\<rparr> s' \<longrightarrow> s' = s)"
proof -
  let ?key = "\<lparr>fk_src_addr = SocketAddr (V4 1) 53, fk_fwmark = 255\<rparr> :: FakeUdpKey"
  have run: "fake_call_step\<^sup>*\<^sup>* fake_run_new (fake_two ?key)" by (rule fake_two_run)
  obtain s where got: "fake_got (fake_two ?key) 0 ?key s" using fake_two_end [of ?key] by (auto simp: fake_got_def)
  have "\<not> fake_got fake_run_new t ?key s" for t s by (simp add: fake_got_def fake_run_new_def)
  then have "s' = s" if "fake_got (fake_two ?key) 1 ?key s'" for s'
    using fake_socket_of_flow [OF rtranclp.rtrancl_refl, where r' = "fake_two ?key" and key = ?key and a = 1 and b = 0] run got that
    by blast
  moreover have "spoofs ?key (snd s)"
    using fake_socket_of_flow [OF fake_calls_run [OF run]] got by blast
  ultimately show ?thesis using got by blast
qed

theorem fake_close_window_witness:
  "fm_sockets (fr_mgr (fake_cleared (\<lambda>_. 0) 1 ((fake_two \<lparr>fk_src_addr = SocketAddr (V4 1) 53, fk_fwmark = 255\<rparr>)
     \<lparr>fr_mgr := fake_mark_closed (fr_mgr (fake_two \<lparr>fk_src_addr = SocketAddr (V4 1) 53, fk_fwmark = 255\<rparr>))\<rparr>))) = []"
proof -
  let ?r = "fake_two \<lparr>fk_src_addr = SocketAddr (V4 1) 53, fk_fwmark = 255\<rparr>"
  let ?c = "?r\<lparr>fr_mgr := fake_mark_closed (fr_mgr ?r)\<rparr>"
  obtain s now where "fr_calls ?r = [0 \<mapsto> (\<lparr>fk_src_addr = SocketAddr (V4 1) 53, fk_fwmark = 255\<rparr>, now, FReturned (Inr s)),
      1 \<mapsto> (\<lparr>fk_src_addr = SocketAddr (V4 1) 53, fk_fwmark = 255\<rparr>, now, FReturned (Inr s))]" "\<not> fm_closed (fr_mgr ?r)"
    using fake_two_end by blast
  then have "\<not> fm_closed (fr_mgr ?r)" "\<not> inserting ?r" by (auto simp: inserting_def split: if_splits)
  moreover have "(fake_step (\<lambda>_. 0))\<^sup>*\<^sup>* ?c (fake_cleared (\<lambda>_. 0) 1 ?c)" "0 \<in> fr_cleared (fake_cleared (\<lambda>_. 0) 1 ?c)"
    using fake_cleared_run [of ?c "\<lambda>_. 0" 1] by simp_all
  ultimately show ?thesis
    using fake_close_window [OF fake_calls_run [OF fake_two_run]] by blast
qed

end
