(* ===== verification/Udp_Service.thy ===== *)
theory Udp_Service
  imports Fake_Udp
begin

text \<open>
  The collector and the shutdown of the UDP runtime (\<open>udp/mod.rs\<close>): the loop that removes idle sessions
  and idle reply sockets every ten seconds, and \<open>UdpRuntime::shutdown\<close>, which empties the session table,
  waits for the receive tasks up to a deadline, aborts those that are overdue and closes the reply sockets.
\<close>

section \<open>The collector\<close>

datatype GcEvent = GcCancelled | GcTick nat

definition gc_round ::
  "(FakeUdpKey \<Rightarrow> nat) \<Rightarrow> nat \<Rightarrow> nat \<Rightarrow> nat \<Rightarrow> UdpRuntime \<times> FakeUdpManager \<Rightarrow> UdpRuntime \<times> FakeUdpManager" where
  "gc_round shard shards timeout_secs now_secs s =
     (case s of (rt, fm) \<Rightarrow>
        (cleanup_expired_sessions now_secs timeout_secs (expired_snapshot now_secs timeout_secs rt) rt,
         fake_cleanup_expired shard shards now_secs timeout_secs fm))"

text \<open>\<open>run_udp_gc_loop\<close>; the flag tells whether the loop has ended.\<close>

fun run_udp_gc_loop ::
  "(FakeUdpKey \<Rightarrow> nat) \<Rightarrow> nat \<Rightarrow> nat \<Rightarrow> GcEvent list \<Rightarrow> UdpRuntime \<times> FakeUdpManager \<Rightarrow> bool \<times> UdpRuntime \<times> FakeUdpManager" where
  "run_udp_gc_loop shard shards timeout_secs [] s = (False, s)"
| "run_udp_gc_loop shard shards timeout_secs (GcCancelled # es) s = (True, s)"
| "run_udp_gc_loop shard shards timeout_secs (GcTick now_secs # es) s =
     run_udp_gc_loop shard shards timeout_secs es (gc_round shard shards timeout_secs now_secs s)"

section \<open>Shutdown\<close>

text \<open>The session table under its lock: the sessions whose tasks are awaited, and the emptied table.\<close>

definition shutdown_sessions :: "UdpRuntime \<Rightarrow> nat list \<times> UdpRuntime" where
  "shutdown_sessions rt = (List.map snd (ready_sessions (rt_sessions rt)), rt_clear rt)"

text \<open>
  The receive tasks in turn. \<open>ends h\<close> is when the task \<open>h\<close> ends by itself, if ever; a task that has ended
  is found so even after the deadline. \<open>stops h\<close> is the time an aborted task takes until it is gone. The
  result is the time, the aborted tasks and whether there were none.
\<close>

fun await_recv_tasks :: "(nat \<Rightarrow> nat option) \<Rightarrow> (nat \<Rightarrow> nat) \<Rightarrow> nat \<Rightarrow> nat \<Rightarrow> bool \<Rightarrow> nat list \<Rightarrow> nat \<times> nat list \<times> bool" where
  "await_recv_tasks ends stops deadline now ok [] = (now, [], ok)"
| "await_recv_tasks ends stops deadline now ok (h # hs) =
     (let limit = max now deadline
      in case ends h of
           Some e \<Rightarrow>
             if e \<le> limit then await_recv_tasks ends stops deadline (max now e) ok hs
             else (case await_recv_tasks ends stops deadline (limit + stops h) False hs of (t, aborted, ok) \<Rightarrow> (t, h # aborted, ok))
         | None \<Rightarrow> (case await_recv_tasks ends stops deadline (limit + stops h) False hs of (t, aborted, ok) \<Rightarrow> (t, h # aborted, ok)))"

text \<open>
  \<open>shutdown\<close>. Other tasks run between its sections: \<open>locked\<close> is what they make of the runtime until the
  table is locked, \<open>awaited\<close> what they make of it and of the reply sockets until the tasks have been awaited.
\<close>

definition udp_shutdown ::
  "(FakeUdpKey \<Rightarrow> nat) \<Rightarrow> nat \<Rightarrow> (UdpRuntime \<Rightarrow> UdpRuntime) \<Rightarrow> (UdpRuntime \<Rightarrow> UdpRuntime) \<Rightarrow> (FakeRun \<Rightarrow> FakeRun) \<Rightarrow>
   (nat \<Rightarrow> nat option) \<Rightarrow> (nat \<Rightarrow> nat) \<Rightarrow> nat \<Rightarrow> nat \<Rightarrow> UdpRuntime \<times> FakeRun \<Rightarrow> bool \<times> nat \<times> nat list \<times> UdpRuntime \<times> FakeRun" where
  "udp_shutdown shard shards locked awaited awaited_fake ends stops timeout now s =
     (case s of (rt, fr) \<Rightarrow>
      case shutdown_sessions (locked (rt_close rt)) of (tasks, rt) \<Rightarrow>
      case await_recv_tasks ends stops (now + timeout) now True tasks of (t, aborted, ok) \<Rightarrow>
      let fr = awaited_fake fr
      in (ok, t, aborted, awaited rt, fake_cleared shard shards (fr\<lparr>fr_mgr := fake_mark_closed (fr_mgr fr)\<rparr>)))"

section \<open>Lemmas on the collector\<close>

lemma session_expired_simps [simp]:
  "session_expired now tmo (cancel_session q rt) p = session_expired now tmo rt p"
  "session_expired now tmo (rt_remove key rt) p = session_expired now tmo rt p"
  by (auto simp: session_expired_def cancel_session_def cancel_in_def rt_remove_def split: option.split)

lemma session_expired_sweep [simp]: "session_expired now tmo (sweep_expired now tmo e rt) p = session_expired now tmo rt p"
  by (simp add: sweep_expired_def split: prod.split)

text \<open>The sweep of a list: what is listed, still registered and still expired goes, and is cancelled.\<close>

lemma cleanup_entry:
  "entry (cleanup_expired_sessions now tmo es rt) key =
   (case entry rt key of
      Some (Ready p) \<Rightarrow> if (key, p) \<in> set es \<and> session_expired now tmo rt p then None else Some (Ready p)
    | x \<Rightarrow> x)"
proof (induction es arbitrary: rt)
  case (Cons e es)
  obtain k q where e: "e = (k, q)" by fastforce
  show ?case
    using Cons [of "sweep_expired now tmo e rt"]
    by (auto simp: cleanup_expired_sessions_def e sweep_expired_def delete_conv' split: option.split UdpSessionEntry.split)
qed (simp add: cleanup_expired_sessions_def split: option.split UdpSessionEntry.split)

lemma cleanup_cancelled:
  assumes "session_cancelled (cleanup_expired_sessions now tmo es rt) p" "\<not> session_cancelled rt p"
  shows "\<exists>key. entry rt key = Some (Ready p) \<and> session_expired now tmo rt p"
  using assms
proof (induction es arbitrary: rt)
  case (Cons e es)
  obtain k q where e: "e = (k, q)" by fastforce
  show ?case
  proof (cases "session_cancelled (sweep_expired now tmo e rt) p")
    case True
    with Cons.prems(2) show ?thesis by (auto simp: e sweep_expired_def split: if_splits)
  next
    case False
    have "session_cancelled (cleanup_expired_sessions now tmo es (sweep_expired now tmo e rt)) p"
      using Cons.prems(1) by (simp add: cleanup_expired_sessions_def)
    from Cons.IH [OF this False]
    have "\<exists>key. entry (sweep_expired now tmo e rt) key = Some (Ready p) \<and> session_expired now tmo rt p" by simp
    then show ?thesis by (auto simp: e sweep_expired_def delete_conv' split: if_splits)
  qed
qed (simp add: cleanup_expired_sessions_def)

lemma cleanup_expired_kept: "session_expired now' tmo' (cleanup_expired_sessions now tmo es rt) p = session_expired now' tmo' rt p"
proof (induction es arbitrary: rt)
  case (Cons e es)
  obtain k q where "e = (k, q)" by fastforce
  then have "session_expired now' tmo' (sweep_expired now tmo e rt) p = session_expired now' tmo' rt p"
    by (simp add: sweep_expired_def)
  with Cons show ?case by (simp add: cleanup_expired_sessions_def)
qed (simp add: cleanup_expired_sessions_def)

lemma ready_sessions_set: "(key, p) \<in> set (ready_sessions es) \<longleftrightarrow> (key, Ready p) \<in> set es"
  by (induction es rule: ready_sessions.induct) auto

lemma fake_entry_fold_retain:
  "fm_ok fm \<Longrightarrow> fm_ok (fold (retain_shard shard P) is fm) \<and>
   fake_entry (fold (retain_shard shard P) is fm) key =
     (case fake_entry fm key of Some e \<Rightarrow> if shard key \<in> set is \<longrightarrow> P e then Some e else None | None \<Rightarrow> None)"
  by (induction "is" arbitrary: fm) (auto simp: fm_ok_retain fake_entry_retain split: option.split)

text \<open>One round over the sessions, and the loop: it only removes, and a tick removes what has expired.\<close>

lemma gc_round_ready:
  "entry (fst (gc_round shard shards tmo now (rt, fm))) key = Some (Ready p) \<longleftrightarrow>
   entry rt key = Some (Ready p) \<and> \<not> session_expired now tmo rt p"
proof -
  have "(key, p) \<in> set (expired_snapshot now tmo rt) \<longleftrightarrow> session_expired now tmo rt p" if "entry rt key = Some (Ready p)" for p
    using map_of_SomeD [OF that] by (auto simp: expired_snapshot_def ready_sessions_set)
  then show ?thesis
    by (auto simp: gc_round_def cleanup_entry split: option.split UdpSessionEntry.split)
qed

lemma gc_loop_removes:
  "entry (fst (snd (run_udp_gc_loop shard shards tmo es (rt, fm)))) key = Some (Ready p) \<Longrightarrow> entry rt key = Some (Ready p)"
proof (induction es arbitrary: rt fm)
  case (Cons ev es)
  show ?case
  proof (cases ev)
    case (GcTick now)
    obtain rt1 fm1 where r: "gc_round shard shards tmo now (rt, fm) = (rt1, fm1)" by (meson surj_pair)
    have "entry rt1 key = Some (Ready p)" using Cons.IH [of rt1 fm1] Cons.prems by (simp add: GcTick r)
    then show ?thesis using gc_round_ready [of shard shards tmo now rt fm key p] by (simp add: r)
  qed (use Cons.prems in simp)
qed simp

lemma gc_loop_collects:
  assumes "session_expired now tmo rt p" "GcCancelled \<notin> set before"
  shows "entry (fst (snd (run_udp_gc_loop shard shards tmo (before @ GcTick now # after) (rt, fm)))) key \<noteq> Some (Ready p)"
  using assms
proof (induction before arbitrary: rt fm)
  case Nil
  obtain rt1 fm1 where r: "gc_round shard shards tmo now (rt, fm) = (rt1, fm1)" by (meson surj_pair)
  have "entry rt1 key \<noteq> Some (Ready p)" using gc_round_ready [of shard shards tmo now rt fm key p] Nil r by simp
  then show ?case using gc_loop_removes [of shard shards tmo "after" rt1 fm1 key p] by (auto simp: r)
next
  case (Cons ev before)
  then obtain now1 where ev: "ev = GcTick now1" by (cases ev) auto
  obtain rt1 fm1 where r: "gc_round shard shards tmo now1 (rt, fm) = (rt1, fm1)" by (meson surj_pair)
  then have "session_expired now tmo rt1 p" using Cons.prems(1) by (auto simp: gc_round_def cleanup_expired_kept)
  with Cons.IH [of rt1 fm1] Cons.prems(2) show ?case by (simp add: ev r)
qed

section \<open>Lemmas on the shutdown\<close>

lemma await_recv_tasks_spec:
  assumes "await_recv_tasks ends stops deadline now ok hs = (t, aborted, ok')"
  shows "(ok' \<longleftrightarrow> ok \<and> aborted = []) \<and> now \<le> t \<and> t \<le> max now deadline + sum_list (List.map stops aborted) \<and>
    set aborted \<subseteq> set hs \<and> (\<forall>h \<in> set hs - set aborted. \<exists>e. ends h = Some e \<and> e \<le> t)"
  using assms
proof (induction hs arbitrary: now ok t aborted ok')
  case (Cons h hs)
  show ?case
  proof (cases "\<exists>e. ends h = Some e \<and> e \<le> max now deadline")
    case True
    then obtain e where e: "ends h = Some e" "e \<le> max now deadline" by blast
    with Cons.prems have "await_recv_tasks ends stops deadline (max now e) ok hs = (t, aborted, ok')" by simp
    from Cons.IH [OF this] e show ?thesis by auto
  next
    case False
    then have h: "await_recv_tasks ends stops deadline now ok (h # hs) =
        (case await_recv_tasks ends stops deadline (max now deadline + stops h) False hs of (t, aborted, ok) \<Rightarrow> (t, h # aborted, ok))"
      by (auto simp: Let_def split: option.split)
    obtain t' a' o' where r: "await_recv_tasks ends stops deadline (max now deadline + stops h) False hs = (t', a', o')"
      by (metis prod_cases3)
    with Cons.prems h have "t = t'" "aborted = h # a'" "ok' = o'" by auto
    with Cons.IH [OF r] show ?thesis by auto
  qed
qed simp

text \<open>A session object that has been cancelled stays so, and a cleared table stays cleared.\<close>

definition cancelled_object :: "UdpRuntime \<Rightarrow> nat \<Rightarrow> bool" where
  "cancelled_object rt p \<longleftrightarrow> p < rt_next rt \<and> (\<exists>se. rt_objects rt p = Some se \<and> se_cancelled se)"

lemma cancelled_object_simps [simp]:
  "cancelled_object (set_call t key c rt) p = cancelled_object rt p" "cancelled_object (rt_remove key rt) p = cancelled_object rt p"
  "cancelled_object (notify_waiters ns rt) p = cancelled_object rt p"
  "cancelled_object (rt\<lparr>rt_sessions := es\<rparr>) p = cancelled_object rt p" "cancelled_object (rt_close rt) p = cancelled_object rt p"
  by (simp_all add: cancelled_object_def rt_close_def)

lemma cancelled_object_cancel: "cancelled_object rt p \<Longrightarrow> cancelled_object (cancel_session q rt) p"
  by (auto simp: cancelled_object_def cancel_session_def cancel_in_def)

lemma rt_step_kept:
  assumes "rt_step rt rt'"
  shows "cancelled_object rt p \<Longrightarrow> cancelled_object rt' p"
    and "rt_cleared rt \<Longrightarrow> rt_cleared rt'" and "rt_closed rt \<Longrightarrow> rt_closed rt'"
proof (atomize (full), use assms in \<open>induction rule: rt_step.induct\<close>)
  case (reserve rt t key)
  then show ?case
    by (auto simp: lookup_or_reserve_def cancelled_object_def Let_def split: option.split UdpSessionEntry.split)
next
  case (created rt t key n created)
  then show ?case by (auto simp: creation_done_def cancelled_object_def Let_def split: sum.split)
next
  case (register rt t key n created)
  then show ?case by (auto simp: register_def cancelled_object_cancel split: sum.split)
next
  case (touch rt p se now)
  then show ?case by (auto simp: cancelled_object_def touch_def)
next
  case (clear rt)
  then show ?case by (auto simp: rt_clear_def cancelled_object_def cancel_in_def Let_def)
next
  case (close rt)
  then show ?case by (simp add: rt_close_def cancelled_object_def)
qed (auto simp: cancelled_object_cancel recv_loop_unregister_def sweep_expired_def split: prod.split)

lemma rt_steps_kept:
  assumes "rt_step\<^sup>*\<^sup>* rt rt'"
  shows "cancelled_object rt p \<Longrightarrow> cancelled_object rt' p"
    and "rt_cleared rt \<Longrightarrow> rt_cleared rt'" and "rt_closed rt \<Longrightarrow> rt_closed rt'"
  using assms by (induction rule: rtranclp_induct; use rt_step_kept in blast)+

lemma rt_steps_reachable: "rt_step\<^sup>*\<^sup>* rt rt' \<Longrightarrow> rt_reachable rt \<Longrightarrow> rt_reachable rt'"
  by (induction rule: rtranclp_induct) (auto intro: rt_reachable.step)

lemma shutdown_sessions_cancels:
  assumes "rt_ok rt" "entry rt key = Some (Ready p)"
  shows "cancelled_object (rt_clear rt) p"
proof -
  have "has_object rt p key" by (rule rt_okD(2) [OF assms])
  moreover have "p \<in> snd ` set (ready_sessions (rt_sessions rt))"
    using map_of_SomeD [OF assms(2)] ready_sessions_set by force
  ultimately show ?thesis by (auto simp: cancelled_object_def rt_clear_def cancel_in_def has_object_def Let_def)
qed

section \<open>Properties\<close>

text \<open>
  C15: A round of the collector removes exactly what is idle. A session stays in the table exactly when it
  was used within the timeout, creations under way are untouched, a session is cancelled only when it was
  registered and idle, and a reply socket stays exactly when it was used within the timeout, in whatever
  shard of the map it is. In the loop, a session that stays idle is gone after the first tick at which it
  has been idle for the timeout, whatever the ticks before and after.
\<close>

theorem udp_gc_exact:
  assumes "fake_reachable shard fr" and "\<And>key. shard key < shards"
    and "gc_round shard shards tmo now (rt, fr_mgr fr) = (rt', fm')"
  shows "(entry rt' key = Some (Ready p) \<longleftrightarrow> entry rt key = Some (Ready p) \<and> \<not> session_expired now tmo rt p) \<and>
    (entry rt' key = Some (Creating n) \<longleftrightarrow> entry rt key = Some (Creating n)) \<and>
    (session_cancelled rt' p \<and> \<not> session_cancelled rt p \<longrightarrow>
       (\<exists>key. entry rt key = Some (Ready p)) \<and> session_expired now tmo rt p) \<and>
    (fake_entry fm' fkey = Some e \<longleftrightarrow> fake_entry (fr_mgr fr) fkey = Some e \<and> now - fe_last_used_secs e < tmo) \<and>
    (session_expired now tmo rt p \<and> GcCancelled \<notin> set before \<longrightarrow>
       entry (fst (snd (run_udp_gc_loop shard shards tmo (before @ GcTick now # after) (rt, fr_mgr fr)))) key \<noteq> Some (Ready p))"
proof -
  have rt': "rt' = cleanup_expired_sessions now tmo (expired_snapshot now tmo rt) rt"
    and fm': "fm' = fold (retain_shard shard (fake_alive now tmo)) [0..<shards] (fr_mgr fr)"
    using assms(3) by (simp_all add: gc_round_def fake_cleanup_expired_def)
  have "fm_ok (fr_mgr fr)" using fake_reachable_ok [OF assms(1)] by (simp add: fake_ok_def)
  from fake_entry_fold_retain [OF this, of shard "fake_alive now tmo" "[0..<shards]" fkey]
  have "fake_entry fm' fkey = Some e \<longleftrightarrow> fake_entry (fr_mgr fr) fkey = Some e \<and> now - fe_last_used_secs e < tmo"
    using assms(2) [of fkey] by (auto simp: fm' fake_alive_def split: option.split)
  moreover have "entry rt' key = Some (Ready p) \<longleftrightarrow> entry rt key = Some (Ready p) \<and> \<not> session_expired now tmo rt p"
    using gc_round_ready [of shard shards tmo now rt "fr_mgr fr"] assms(3) by simp
  moreover have "entry rt' key = Some (Creating n) \<longleftrightarrow> entry rt key = Some (Creating n)"
    unfolding rt' cleanup_entry by (auto split: option.split UdpSessionEntry.split)
  ultimately show ?thesis
    using cleanup_cancelled [of now tmo _ rt p] gc_loop_collects [of now tmo rt p before shard shards "after" "fr_mgr fr" key]
    unfolding rt' by blast
qed


section \<open>Witnesses\<close>

text \<open>A runtime with one ready session.\<close>

definition one_session :: UdpRuntime where
  "one_session =
     (let key = sp_key forward_spec
      in register 0 key 0 (Inr 1) (creation_done 0 key 0 (Inr (new_session 1 0 forward_spec (ODirect 0)))
           (lookup_or_reserve 0 key (set_call 0 key Entering udp_runtime_new))))"

lemma one_session_entry: "rt_sessions one_session = [(sp_key forward_spec, Ready 1)]"
  by (simp add: one_session_def Let_def udp_runtime_new_def lookup_or_reserve_def creation_done_def register_def
      session_cancelled_def new_session_def set_call_def notify_waiters_def)

lemma one_session_object: "rt_objects one_session = [1 \<mapsto> new_session 1 0 forward_spec (ODirect 0)]"
  by (simp add: one_session_def Let_def udp_runtime_new_def lookup_or_reserve_def creation_done_def register_def
      session_cancelled_def new_session_def set_call_def notify_waiters_def)

lemma one_session_reachable: "rt_reachable one_session"
proof -
  let ?key = "sp_key forward_spec" and ?se = "new_session 1 0 forward_spec (ODirect 0)"
  let ?a = "set_call 0 ?key Entering udp_runtime_new"
  let ?b = "lookup_or_reserve 0 ?key ?a"
  let ?c = "creation_done 0 ?key 0 (Inr ?se) ?b"
  have "rt_step udp_runtime_new ?a" using rt_step.call [of udp_runtime_new 0 ?key] by (simp add: udp_runtime_new_def)
  moreover have "rt_step ?a ?b" by (rule rt_step.reserve) simp
  moreover have "rt_step ?b ?c" by (intro rt_step.created) (auto simp: lookup_or_reserve_new new_session_def)
  moreover have "rt_step ?c (register 0 ?key 0 (Inr 1) ?c)"
    by (rule rt_step.register) (simp add: creation_done_calls lookup_or_reserve_new)
  ultimately have "rt_step\<^sup>*\<^sup>* udp_runtime_new one_session"
    unfolding one_session_def Let_def by (meson converse_rtranclp_into_rtranclp rtranclp.rtrancl_refl)
  then show ?thesis by (rule rt_steps_reachable [OF _ rt_reachable.start])
qed

theorem udp_gc_exact_witness:
  "\<exists>rt fm. gc_round (\<lambda>_. 0) 1 30 100 (one_session, fr_mgr (fake_two \<lparr>fk_src_addr = SocketAddr (V4 1) 53, fk_fwmark = 255\<rparr>)) = (rt, fm) \<and>
     entry rt (sp_key forward_spec) \<noteq> Some (Ready 1) \<and> (\<forall>e. fake_entry fm \<lparr>fk_src_addr = SocketAddr (V4 1) 53, fk_fwmark = 255\<rparr> \<noteq> Some e)"
proof -
  let ?key = "\<lparr>fk_src_addr = SocketAddr (V4 1) 53, fk_fwmark = 255\<rparr> :: FakeUdpKey"
  obtain rt fm where r: "gc_round (\<lambda>_. 0) 1 30 100 (one_session, fr_mgr (fake_two ?key)) = (rt, fm)" by (meson surj_pair)
  note gc = udp_gc_exact [OF fake_calls_run [OF fake_two_run] _ r]
  have "session_expired 100 30 one_session 1" by (simp add: session_expired_def one_session_object new_session_def)
  moreover have "fe_last_used_secs e = 0" if "fake_entry (fr_mgr (fake_two ?key)) ?key = Some e" for e
    using fake_two_eq [of ?key] that by (auto simp: fake_new_def)
  ultimately show ?thesis using r gc by fastforce
qed


end
