(* ===== verification/Udp_Replies.thy ===== *)
theory Udp_Replies
  imports Fake_Udp
begin

text \<open>
  Replies from a receive loop to the client (\<open>UdpSession::send_reply\<close> in \<open>udp/mod.rs\<close>, composed with
  \<open>udp/fake.rs\<close> and \<open>socket_factory.rs\<close>): the replies that the loop of a session produces, each sent by a reply
  socket or by the listening socket, while all other tasks use the reply sockets too. A failed send is
  logged and the loop goes on.
\<close>

section \<open>Sending the replies\<close>

datatype ReplySocket = ReplyFake fake_socket | ReplyListener nat

text \<open>The surroundings of one reply: what other tasks do before it, the kernel and the time.\<close>

record ReplyEnv =
  re_others :: "FakeRun \<Rightarrow> FakeRun"
  re_kernel :: kernel
  re_send :: "fake_socket \<Rightarrow> bytes \<Rightarrow> SocketAddr \<Rightarrow> IoError + nat"
  re_now :: nat

definition deliver_reply ::
  "ReplyEnv \<Rightarrow> u32 \<Rightarrow> Reply \<Rightarrow> FakeRun \<Rightarrow> (ReplySocket \<times> SocketAddr \<times> bytes) list \<times> FakeRun" where
  "deliver_reply env fwmark reply r =
     (let r = re_others env r
      in case reply of
           Spoofed src dst payload \<Rightarrow>
             (case fake_send_to (re_kernel env) (re_send env) (fr_next r) (re_now env) src dst payload fwmark (fr_mgr r) of
                (res, out, fm) \<Rightarrow>
                  (List.map (\<lambda>(s, d, p). (ReplyFake s, d, p)) out, r\<lparr>fr_mgr := fm, fr_next := fr_next r + 1\<rparr>))
         | FromListener sock dst payload \<Rightarrow> ([(ReplyListener sock, dst, payload)], r))"

fun deliver_replies ::
  "(nat \<Rightarrow> ReplyEnv) \<Rightarrow> nat \<Rightarrow> u32 \<Rightarrow> Reply list \<Rightarrow> FakeRun \<Rightarrow> (ReplySocket \<times> SocketAddr \<times> bytes) list \<times> FakeRun" where
  "deliver_replies envs i fwmark [] r = ([], r)"
| "deliver_replies envs i fwmark (reply # rs) r =
     (case deliver_reply (envs i) fwmark reply r of (out, r) \<Rightarrow>
      case deliver_replies envs (i + 1) fwmark rs r of (out', r) \<Rightarrow> (out @ out', r))"

section \<open>Lemmas\<close>

fun reply_payload :: "Reply \<Rightarrow> bytes" where
  "reply_payload (Spoofed src dst payload) = payload"
| "reply_payload (FromListener sock dst payload) = payload"

abbreviation sent_payloads :: "(ReplySocket \<times> SocketAddr \<times> bytes) list \<Rightarrow> bytes list" where
  "sent_payloads out \<equiv> List.map (\<lambda>(s, d, p). p) out"

text \<open>A datagram as the client of a session may get it.\<close>

definition reply_from :: "UdpSession \<Rightarrow> u32 \<Rightarrow> ReplySocket \<times> SocketAddr \<times> bytes \<Rightarrow> bool" where
  "reply_from se fwmark d =
     (case d of (s, dst, p) \<Rightarrow>
        dst = k_client_addr (sp_key (se_spec se)) \<and>
        (case sp_reply_path (se_spec se) of
           RTproxy \<Rightarrow> \<exists>f. s = ReplyFake f \<and>
             spoofs \<lparr>fk_src_addr = k_target_addr (sp_key (se_spec se)), fk_fwmark = fwmark\<rparr> (snd f)
         | RPortForward sock \<Rightarrow> s = ReplyListener sock))"

lemma fake_steps_ok: "(fake_step shard)\<^sup>*\<^sup>* r r' \<Longrightarrow> fake_ok r \<Longrightarrow> fake_ok r'"
  by (induction rule: rtranclp_induct) (auto intro: fake_step_ok)

lemma fake_steps_closed: "(fake_step shard)\<^sup>*\<^sup>* r r' \<Longrightarrow> fm_closed (fr_mgr r) \<Longrightarrow> fm_closed (fr_mgr r')"
proof (induction rule: rtranclp_induct)
  case (step r' r'')
  then show ?case by (cases rule: fake_stepE [OF step.hyps(2)]) (auto dest: fake_call_step_frame)
qed

lemma fake_send_to_keeps:
  assumes "fake_send_to K send n now src dst payload fwmark fm = (res, out, fm')"
  shows "fm_closed fm' = fm_closed fm" and "subseq (List.map (\<lambda>(s, d, p). p) out) [payload]"
    and "K = (\<lambda>_ _. True) \<Longrightarrow> \<not> fm_closed fm \<Longrightarrow> List.map (\<lambda>(s, d, p). p) out = [payload]"
proof -
  obtain s where "create_fake_udp_socket (\<lambda>_ _. True) src fwmark = Inr s" using created_all by blast
  then show "K = (\<lambda>_ _. True) \<Longrightarrow> \<not> fm_closed fm \<Longrightarrow> List.map (\<lambda>(s, d, p). p) out = [payload]"
    using assms by (auto simp: fake_send_to_def fake_get_or_create_alone split: option.splits)
qed (use assms in \<open>auto simp: fake_send_to_def fake_get_or_create_alone split: if_splits option.splits sum.splits\<close>)

lemma deliver_reply_from:
  assumes "fake_ok r" "(fake_step shard)\<^sup>*\<^sup>* r (re_others env r)" "reply_authentic se reply"
    and "deliver_reply env fwmark reply r = (out, r')"
  shows "fake_ok r' \<and> (fm_closed (fr_mgr r) \<longrightarrow> fm_closed (fr_mgr r')) \<and> (\<forall>d \<in> set out. reply_from se fwmark d) \<and>
    subseq (sent_payloads out) [reply_payload reply] \<and>
    (re_kernel env = (\<lambda>_ _. True) \<and> \<not> fm_closed (fr_mgr r') \<longrightarrow> sent_payloads out = [reply_payload reply])"
proof -
  let ?r = "re_others env r"
  have ok: "fake_ok ?r" by (rule fake_steps_ok [OF assms(2,1)])
  then have fm: "fm_ok (fr_mgr ?r)" by (simp add: fake_ok_def)
  note closed = fake_steps_closed [OF assms(2)]
  show ?thesis
  proof (cases reply)
    case (Spoofed src dst payload)
    obtain res o1 fm' where send: "fake_send_to (re_kernel env) (re_send env) (fr_next ?r) (re_now env) src dst payload fwmark (fr_mgr ?r) = (res, o1, fm')"
      by (metis prod_cases3)
    have out: "out = List.map (\<lambda>(s, d, p). (ReplyFake s, d, p)) o1" "r' = ?r\<lparr>fr_mgr := fm', fr_next := fr_next ?r + 1\<rparr>"
      using assms(4) send by (auto simp: deliver_reply_def Spoofed Let_def)
    have pay: "sent_payloads out = List.map (\<lambda>(s, d, p). p) o1" by (auto simp: out)
    note sp = fake_send_to_spoofs [OF fm send] and keep = fake_send_to_keeps [OF send]
    have auth: "sp_reply_path (se_spec se) = RTproxy" "src = k_target_addr (sp_key (se_spec se))" "dst = k_client_addr (sp_key (se_spec se))"
      using assms(3) by (auto simp: reply_authentic_def Spoofed)
    have "fake_ok r'" using ok sp by (simp add: out fake_ok_def)
    moreover have "\<forall>d \<in> set out. reply_from se fwmark d" using sp by (auto simp: out reply_from_def auth)
    moreover have "fm_closed (fr_mgr r') = fm_closed (fr_mgr ?r)" using keep(1) by (simp add: out)
    ultimately show ?thesis using keep(2,3) closed unfolding pay Spoofed reply_payload.simps by blast
  next
    case (FromListener sock dst payload)
    then show ?thesis
      using assms(3,4) ok closed by (auto simp: deliver_reply_def reply_authentic_def reply_from_def Let_def)
  qed
qed

lemma deliver_replies_from:
  assumes "fake_ok r" "\<And>i r. (fake_step shard)\<^sup>*\<^sup>* r (re_others (envs i) r)" "\<forall>reply \<in> set rs. reply_authentic se reply"
    and "deliver_replies envs i fwmark rs r = (out, r')"
  shows "(fm_closed (fr_mgr r) \<longrightarrow> fm_closed (fr_mgr r')) \<and> (\<forall>d \<in> set out. reply_from se fwmark d) \<and>
    subseq (sent_payloads out) (List.map reply_payload rs) \<and>
    ((\<forall>i. re_kernel (envs i) = (\<lambda>_ _. True)) \<and> \<not> fm_closed (fr_mgr r') \<longrightarrow> sent_payloads out = List.map reply_payload rs)"
  using assms(1,3,4)
proof (induction rs arbitrary: i r out)
  case (Cons reply rs)
  obtain o1 r1 where d1: "deliver_reply (envs i) fwmark reply r = (o1, r1)" by (meson surj_pair)
  obtain o2 r2 where d2: "deliver_replies envs (i + 1) fwmark rs r1 = (o2, r2)" by (meson surj_pair)
  have out: "out = o1 @ o2" "r' = r2" using Cons.prems(3) d1 d2 by auto
  have one: "fake_ok r1 \<and> (fm_closed (fr_mgr r) \<longrightarrow> fm_closed (fr_mgr r1)) \<and> (\<forall>d \<in> set o1. reply_from se fwmark d) \<and>
      subseq (sent_payloads o1) [reply_payload reply] \<and>
      (re_kernel (envs i) = (\<lambda>_ _. True) \<and> \<not> fm_closed (fr_mgr r1) \<longrightarrow> sent_payloads o1 = [reply_payload reply])"
    by (rule deliver_reply_from [OF Cons.prems(1) assms(2) _ d1]) (use Cons.prems(2) in simp)
  note rest = Cons.IH [OF conjunct1 [OF one] _ d2 [folded out(2)]]
  have "subseq (sent_payloads o1 @ sent_payloads o2) ([reply_payload reply] @ List.map reply_payload rs)"
    using one rest Cons.prems(2) by (intro list_emb_append_mono) auto
  with one rest Cons.prems(2) show ?case by (auto simp: out)
qed simp

section \<open>Properties\<close>

text \<open>
  C13: What the client of a session gets. Whatever the outbound delivers, in whatever order cancellation and
  the watchdog come, and whatever other tasks do with the reply sockets meanwhile, the loop of a session never
  panics, and every datagram it sends goes to the client of the session: on the transparent path from a marked
  transparent socket bound to the target that the client addressed, on a port forward from the listening
  socket. The payloads sent are those of the replies, in their order and none twice; and as long as the
  manager of the reply sockets is open and the kernel grants the sockets, none is missing.
\<close>

theorem udp_replies_end_to_end:
  assumes "fake_reachable shard r" "\<And>i r. (fake_step shard)\<^sup>*\<^sup>* r (re_others (envs i) r)"
    and "run_udp_session_recv_loop idle se start es = (res, replies)"
    and "deliver_replies envs 0 fwmark replies r = (out, r')"
  shows "res \<noteq> Some (Inl Panic) \<and> (\<forall>d \<in> set out. reply_from se fwmark d) \<and>
    subseq (sent_payloads out) (List.map reply_payload replies) \<and>
    ((\<forall>i. re_kernel (envs i) = (\<lambda>_ _. True)) \<and> \<not> fm_closed (fr_mgr r') \<longrightarrow>
       sent_payloads out = List.map reply_payload replies)"
proof -
  have "res \<noteq> Some (Inl Panic) \<and> (\<forall>reply \<in> set replies. reply_authentic se reply)"
    using assms(3) direct_loop_authentic [of se es] socks5_loop_authentic [of idle se "make_idle_deadline idle start" es]
    by (cases "se_outbound se") (auto simp: run_udp_session_recv_loop_def)
  then show ?thesis
    using deliver_replies_from [OF fake_reachable_ok [OF assms(1)] assms(2) _ assms(4)] by blast
qed

section \<open>Witnesses\<close>

theorem udp_replies_end_to_end_witness:
  "\<exists>se out r. sp_reply_path (se_spec se) = RTproxy \<and>
     deliver_replies (\<lambda>_. \<lparr>re_others = id, re_kernel = \<lambda>_ _. True, re_send = \<lambda>_ p _. Inr (length p), re_now = 1\<rparr>) 0 255
       (snd (run_udp_session_recv_loop 31 se 0 [(5, Received (Inr [1, 2])), (9, Received (Inr [3]))])) fake_run_new = (out, r) \<and>
     sent_payloads out = [[1, 2], [3]] \<and> (\<forall>d \<in> set out. reply_from se 255 d)"
proof -
  let ?se = "new_session 1 0 (for_tproxy (SocketAddr (V4 2) 4000) (SocketAddr (V4 3) 443)) (ODirect 7)"
  let ?env = "\<lparr>re_others = id, re_kernel = \<lambda>_ _. True, re_send = \<lambda>_ p _. Inr (length p), re_now = 1\<rparr> :: ReplyEnv"
  let ?es = "[(5, Received (Inr [1, 2])), (9, Received (Inr [3]))]"
  have loop: "run_udp_session_recv_loop 31 ?se 0 ?es =
      (None, [Spoofed (SocketAddr (V4 3) 443) (SocketAddr (V4 2) 4000) [1, 2], Spoofed (SocketAddr (V4 3) 443) (SocketAddr (V4 2) 4000) [3]])"
    by (simp add: run_udp_session_recv_loop_def new_session_def for_tproxy_def connected_udp_recv_result_def send_reply_def)
  obtain out r where d: "deliver_replies (\<lambda>_. ?env) 0 255 (snd (run_udp_session_recv_loop 31 ?se 0 ?es)) fake_run_new = (out, r)"
    by (meson surj_pair)
  obtain s where "create_fake_udp_socket (\<lambda>_ _. True) (SocketAddr (V4 3) 443) 255 = Inr s" using created_all by blast
  then have opened: "\<not> fm_closed (fr_mgr r)"
    using d unfolding loop
    by (auto simp: deliver_reply_def fake_send_to_def fake_get_or_create_alone fake_run_new_def fake_new_def split: option.splits)
  note sent = udp_replies_end_to_end [OF rtranclp.rtrancl_refl [of "fake_step (\<lambda>_. 0)"] _ loop d [unfolded loop snd_conv]]
  have "sent_payloads out = [[1, 2], [3]]" "\<forall>d \<in> set out. reply_from ?se 255 d" using sent opened by auto
  moreover have "sp_reply_path (se_spec ?se) = RTproxy" by (simp add: new_session_def for_tproxy_def)
  ultimately show ?thesis using d by - (rule exI [of _ ?se], rule exI [of _ out], rule exI [of _ r], intro conjI)
qed

end
