(* ===== verification/Udp_Routing.thy ===== *)
theory Udp_Routing
  imports Udp_Relay
begin

text \<open>
  Routing of UDP sessions (\<open>create_udp_session\<close> and \<open>connect_socks5_udp\<close> in \<open>udp/mod.rs\<close>) composed with the
  state that the configuration yields and with the pickers of the upstream set, through the interface
  \<open>upstream_picker\<close>.
\<close>

section \<open>Lemmas\<close>

text \<open>Where a SOCKS5 session may go: the group of the client tables, or the default group when that is empty.\<close>

definition udp_candidates :: "UpstreamSet \<Rightarrow> rstr \<Rightarrow> nat list" where
  "udp_candidates us grp = (if members us grp = [] then members us ''default'' else members us grp)"

lemma connect_socks5_udp_cases:
  assumes "us_live us" "fastrand_ok rnd" "\<And>addr. associate addr \<noteq> Some (Inl Panic)"
    and "connect_socks5_udp N rnd now associate st spec us = (r, us')"
    and "grp = lookup_upstream_group N st (sa_ip (k_client_addr (sp_key spec))) (sa_ip (k_target_addr (sp_key spec))) (sp_sniffed_host spec)"
  shows "r \<noteq> Inl Panic \<and> r \<noteq> Inl (Fail DirectSocketFailed) \<and> us_reachable us us' \<and>
    (r = Inl (Fail (NoUpstreamForGroup grp)) \<longleftrightarrow> udp_candidates us grp = []) \<and>
    (\<forall>out. r = Inr out \<longrightarrow> (\<exists>k sock assoc. k \<in> set (udp_candidates us grp) \<and>
       associate (up_addr (us_up us k)) = Some (Inr (sock, assoc)) \<and> out = OSocks5 sock assoc))"
proof -
  have eq: "connect_socks5_udp N rnd now associate st spec us =
      (case pick_or_else (\<lambda>rnd now. pick_from_group rnd now grp) pick rnd now us of
         Inl _ \<Rightarrow> (Inl Panic, us)
       | Inr (None, us) \<Rightarrow> (Inl (Fail (NoUpstreamForGroup grp)), us)
       | Inr (Some k, us) \<Rightarrow>
           (case associate (up_addr (us_up us k)) of
              None \<Rightarrow> Inl (Fail AssociateTimeout)
            | Some r \<Rightarrow> bindR (map_err AssociateFailed r) (\<lambda>(sock, assoc). Inr (OSocks5 sock assoc)), us))"
    unfolding connect_socks5_udp_def pick_or_else_def Let_def assms(5) ..
  show ?thesis
  proof (rule group_then_default.pick_cases [OF assms(1,2), of grp now])
    assume "(if members us grp = [] then members us ''default'' else members us grp) = []"
      "pick_or_else (\<lambda>rnd now. pick_from_group rnd now grp) pick rnd now us = Inr (None, us)"
    then show ?thesis using assms(4) unfolding eq by (auto simp: udp_candidates_def us_reachable.start split: if_splits)
  next
    fix k us1
    assume k: "pick_or_else (\<lambda>rnd now. pick_from_group rnd now grp) pick rnd now us = Inr (Some k, us1)"
      "k \<in> set (if members us grp = [] then members us ''default'' else members us grp)"
      "us_reachable us us1" "us_all_items us1 = us_all_items us"
    then have ne: "udp_candidates us grp \<noteq> []" "k \<in> set (udp_candidates us grp)" by (auto simp: udp_candidates_def)
    have "us' = us1" "r = (case associate (up_addr (us_up us k)) of
              None \<Rightarrow> Inl (Fail AssociateTimeout)
            | Some r \<Rightarrow> bindR (map_err AssociateFailed r) (\<lambda>(sock, assoc). Inr (OSocks5 sock assoc)))"
      using assms(4) unfolding eq k(1) by (simp_all add: k(4))
    with k(3) ne assms(3) [of "up_addr (us_up us k)"] show ?thesis
      by (cases "associate (up_addr (us_up us k))")
        (auto simp: map_err_def bindR_eq_Inl_iff split: sum.splits fault.splits)
  qed
qed

section \<open>Properties\<close>

text \<open>
  C5: A UDP session is routed as the configuration says. In a running process the creation of a session
  never panics; it goes out directly exactly when it is not a port forward and the rules of the
  configuration decide so for the target and the sniffed name, and then fails only for want of a socket;
  otherwise it goes through an upstream of the group that the client tables name, or of the default group
  when that group has no member, and the error that there is none is reported exactly when both are empty.
  A created session is the one asked for and alive, and the state and the upstream set it leaves are again
  those of a running process.
\<close>

theorem udp_session_routed:
  assumes "trie_laws N" and "\<And>s. be_to_lowercase env (be_to_lowercase env s) = be_to_lowercase env s"
    and "app_build env N c = Inr ab" and "app_reachable N (ab_state ab) st"
    and "us_live us" "fastrand_ok rnd" "\<And>addr. associate addr \<noteq> Some (Inl Panic)"
    and "create_udp_session N rnd now associate direct_socket sid now_secs polled spec st us = (r, st', us')"
    and "grp = lookup_upstream_group N st (sa_ip (k_client_addr (sp_key spec))) (sa_ip (k_target_addr (sp_key spec))) (sp_sniffed_host spec)"
    and "direct \<longleftrightarrow> sp_routing spec = RAuto \<and> config_decision env N c (proxy_mode_from_u8 (st_proxy_mode st))
       (sa_ip (k_target_addr (sp_key spec))) (sp_sniffed_host spec)"
  shows "r \<noteq> Inl Panic \<and> app_reachable N (ab_state ab) st' \<and> us_live us' \<and>
    (\<forall>se. r = Inr se \<longrightarrow> polled \<and> se_spec se = spec \<and> \<not> se_cancelled se \<and>
       (if direct then \<exists>s. direct_socket (k_target_addr (sp_key spec)) = Some s \<and> se_outbound se = ODirect s
        else \<exists>k sock assoc. k \<in> set (udp_candidates us grp) \<and>
          associate (up_addr (us_up us k)) = Some (Inr (sock, assoc)) \<and> se_outbound se = OSocks5 sock assoc)) \<and>
    (r = Inl (Fail DirectSocketFailed) \<longleftrightarrow> direct \<and> direct_socket (k_target_addr (sp_key spec)) = None) \<and>
    (r = Inl (Fail (NoUpstreamForGroup grp)) \<longleftrightarrow> \<not> direct \<and> udp_candidates us grp = [])"
proof -
  let ?ip = "sa_ip (k_target_addr (sp_key spec))" and ?D = "config_decision env N c (proxy_mode_from_u8 (st_proxy_mode st))"
  obtain st1 where s1: "should_direct N now st ?ip (sp_sniffed_host spec) = (?D ?ip (sp_sniffed_host spec), st1)"
      "app_reachable N (ab_state ab) st1"
    by (rule reachable_should_direct [OF assms(1-4)])
  define st2 where "st2 = (if sp_routing spec = RAuto then st1 else st)"
  have r2: "app_reachable N (ab_state ab) st2" using s1(2) assms(4) by (simp add: st2_def)
  have grp: "grp = lookup_upstream_group N st2 (sa_ip (k_client_addr (sp_key spec))) ?ip (sp_sniffed_host spec)"
    using reachable_same_group [OF r2 assms(4)] assms(9) by simp
  obtain o' us1 where conn: "connect_socks5_udp N rnd now associate st2 spec us = (o', us1)" by (meson surj_pair)
  note up = connect_socks5_udp_cases [OF assms(5-7) conn grp]
  have out: "create_outbound N rnd now associate direct_socket spec st us =
      (if direct then (case direct_socket (k_target_addr (sp_key spec)) of None \<Rightarrow> Inl (Fail DirectSocketFailed) | Some s \<Rightarrow> Inr (ODirect s), st2, us)
       else (o', st2, us1))"
    using conn s1(1) assms(10)
    by (cases "sp_routing spec") (auto simp: create_outbound_def st2_def split: option.split)
  show ?thesis
  proof (cases direct)
    case True
    with assms(8) out r2 assms(5) show ?thesis
      by (cases "direct_socket (k_target_addr (sp_key spec))")
        (auto simp: create_udp_session_def new_session_def split: if_splits)
  next
    case False
    have live: "us_live us1" using us_live_reachable [OF assms(5)] up by blast
    with False assms(8) out r2 live up show ?thesis
      by (cases o') (auto simp: create_udp_session_def new_session_def split: if_splits)
  qed
qed

section \<open>Witnesses\<close>

theorem udp_session_routed_witness:
  "\<exists>ab r st us. app_build no_files word_net_ops routed_config = Inr ab \<and>
     create_udp_session word_net_ops fixed_rand 0 (\<lambda>_. Some (Inr (7, \<lparr>ua_control = undefined, ua_relay_addr = SocketAddr (V4 1) 1080\<rparr>)))
       (\<lambda>_. Some 3) 1 0 True (for_tproxy (SocketAddr (V4 0x0A000001) 5000) (SocketAddr (V4 0x08080808) 443)) (ab_state ab) (two_upstreams 0) =
       (r, st, us) \<and>
     r \<noteq> Inl Panic \<and> (\<forall>se. r = Inr se \<longrightarrow> (\<exists>assoc. se_outbound se = OSocks5 7 assoc)) \<and> us_live us"
proof -
  let ?spec = "for_tproxy (SocketAddr (V4 0x0A000001) 5000) (SocketAddr (V4 0x08080808) 443)"
  let ?assoc = "\<lparr>ua_control = undefined, ua_relay_addr = SocketAddr (V4 1) 1080\<rparr> :: Socks5UdpAssoc"
  obtain ab where ab: "app_build no_files word_net_ops routed_config = Inr ab" using routed_config_builds by blast
  then have mode: "proxy_mode_from_u8 (st_proxy_mode (ab_state ab)) = Smart" and "st_direct_cache (ab_state ab) = []"
    by (elim app_buildE, simp add: assemble_def proxy_mode_from_u8_def)+
  then have reach: "app_reachable word_net_ops (ab_state ab) (ab_state ab)" by (intro app_reachable.start)
  have "\<not> net_listed word_net_ops [] (V4 0x08080808)" by (simp add: net_listed_def)
  moreover have "\<not> is_must_direct_local_ip (V4 0x08080808)" by code_simp
  ultimately have dec: "\<not> config_decision no_files word_net_ops routed_config Smart (V4 0x08080808) None"
    by (simp add: config_decision_def config_rules_def domain_opinion_def opinion_def force_list_def country_direct_def)
  obtain r st us where r: "create_udp_session word_net_ops fixed_rand 0 (\<lambda>_. Some (Inr (7, ?assoc))) (\<lambda>_. Some 3) 1 0 True ?spec
      (ab_state ab) (two_upstreams 0) = (r, st, us)"
    by (metis prod_cases3)
  have live: "us_live (two_upstreams 0)" by (rule two_upstreams_live) simp
  note routed = udp_session_routed [OF word_net_ops_laws no_files_lower ab reach live fixed_rand_ok(1) _ r refl refl]
  show ?thesis
    using ab r routed dec mode by (intro exI [of _ ab] exI [of _ r] exI [of _ st] exI [of _ us]) (auto simp: for_tproxy_def)
qed

end
