(* ===== verification/Tcp_Handler.thy ===== *)
theory Tcp_Handler
  imports App_Build
begin

text \<open>
  TCP connections (\<open>tcp.rs\<close>): the routing of an accepted connection, the choice of an upstream with
  retries over a group and the default group, and the connection handler up to the relay. What other
  tasks do to the upstream set between two attempts, the random generator, the clock and the network
  are the rounds \<open>nat \<Rightarrow> Round\<close>.
\<close>

section \<open>Targets\<close>

datatype TcpUpstreamTarget = Direct SocketAddr | Socks5Ip SocketAddr | Socks5Domain rstr u16

datatype TcpError = ConnectTimeout | DirectConnectFailed | Socks5Failed Socks5Error | AllUpstreamsFailed

definition decide_tcp_upstream_target :: "SocketAddr \<Rightarrow> bool \<Rightarrow> rstr option \<Rightarrow> TcpUpstreamTarget" where
  "decide_tcp_upstream_target orig_dst direct sniffed_sni =
     (if direct then Direct orig_dst
      else case sniffed_sni of
             Some host \<Rightarrow> Socks5Domain host (sa_port orig_dst)
           | None \<Rightarrow> Socks5Ip orig_dst)"

record Round =
  rd_rnd :: fastrand
  rd_now :: nat
  rd_dial :: "SocketAddr \<Rightarrow> TcpStream option"
  rd_in_time :: bool
  rd_others :: "UpstreamSet \<Rightarrow> UpstreamSet"

definition direct_connect :: "Round \<Rightarrow> SocketAddr \<Rightarrow> (TcpError, TcpStream) rres" where
  "direct_connect rd addr = ok_or (rd_dial rd addr) DirectConnectFailed"

definition connect_tcp_upstream ::
  "Round \<Rightarrow> TcpUpstreamTarget \<Rightarrow> SocketAddr \<Rightarrow> (rstr \<times> rstr) option \<Rightarrow> (TcpError, TcpStream) rres" where
  "connect_tcp_upstream rd target socks5_addr creds =
     (if \<not> rd_in_time rd then Inl (Fail ConnectTimeout)
      else case target of
             Direct addr \<Rightarrow> direct_connect rd addr
           | Socks5Ip addr \<Rightarrow> map_err Socks5Failed (socks5_connect (rd_dial rd) (TIp addr) socks5_addr creds)
           | Socks5Domain host port \<Rightarrow>
               map_err Socks5Failed (socks5_connect (rd_dial rd) (TDomain host port) socks5_addr creds))"

section \<open>Trying a group\<close>

text \<open>
  The loop of \<open>try_connect_socks5_group\<close>: the result, the upstreams tried with the group they were
  tried for, and the upstream set. The fuel bounds the iterations.
\<close>

fun try_connect_loop ::
  "nat \<Rightarrow> (nat \<Rightarrow> Round) \<Rightarrow> Config \<Rightarrow> TcpUpstreamTarget \<Rightarrow> nat \<Rightarrow> rstr \<Rightarrow> rstr set \<Rightarrow> UpstreamSet \<Rightarrow>
   ((TcpError, TcpStream \<times> nat) rres \<times> (rstr \<times> nat) list \<times> UpstreamSet) option" where
  "try_connect_loop 0 rds c target i grp failed us = None"
| "try_connect_loop (Suc fuel) rds c target i grp failed us =
     (let rd = rds i;
          us = rd_others rd us
      in case (if failed = {} then pick_from_group (rd_rnd rd) (rd_now rd) grp us
               else pick_excluding_many_from_group (rd_rnd rd) (rd_now rd) grp failed us) of
           Inl _ \<Rightarrow> Some (Inl Panic, [], us)
         | Inr (None, us) \<Rightarrow>
             if grp = ''default'' then Some (Inl (Fail AllUpstreamsFailed), [], us)
             else try_connect_loop fuel rds c target (i + 1) ''default'' {} us
         | Inr (Some k, us) \<Rightarrow>
             (case connect_tcp_upstream rd target (up_addr (us_up us k)) (socks5_credentials c) of
                Inr s \<Rightarrow> Some (Inr (s, k), [(grp, k)], us)
              | Inl Panic \<Rightarrow> Some (Inl Panic, [(grp, k)], us)
              | Inl (Fail e) \<Rightarrow>
                  let us = (if c_disable_upstream_score c then us else us_update k (penalize (rd_now rd)) us)
                  in map_option (\<lambda>(r, tried, us). (r, (grp, k) # tried, us))
                       (try_connect_loop fuel rds c target (i + 1) grp (insert (up_id (us_up us k)) failed) us)))"

definition try_connect_socks5_group ::
  "nat \<Rightarrow> (nat \<Rightarrow> Round) \<Rightarrow> Config \<Rightarrow> TcpUpstreamTarget \<Rightarrow> nat \<Rightarrow> rstr \<Rightarrow> rstr option \<Rightarrow> UpstreamSet \<Rightarrow>
   ((TcpError, TcpStream \<times> nat) rres \<times> (rstr \<times> nat) list \<times> UpstreamSet) option" where
  "try_connect_socks5_group fuel rds c target i grp exclude us =
     try_connect_loop fuel rds c target i grp (set_option exclude) us"

section \<open>The connection handler\<close>

text \<open>
  The route of a connection: its target, the domain that was sniffed and the state after the routing
  decisions. \<open>runs\<close> is what the socket does while each sniffer peeks and \<open>meanwhile\<close> what the other tasks do to the
  state until the sniffing is over.
\<close>

definition tcp_route ::
  "('n4, 'n6) net_ops \<Rightarrow> nat \<Rightarrow> (Sniffer \<times> PeekEvent list) list \<Rightarrow>
   (('n4, 'n6, nat) AppState \<Rightarrow> ('n4, 'n6, nat) AppState) \<Rightarrow> SocketAddr \<Rightarrow> SocketAddr \<Rightarrow>
   ('n4, 'n6, nat) AppState \<Rightarrow> (unit, TcpUpstreamTarget \<times> rstr option \<times> ('n4, 'n6, nat) AppState) rres" where
  "tcp_route N now runs meanwhile client_addr orig_dst st =
     (let (direct_by_ip, st) = should_direct N now st (sa_ip orig_dst) None;
          need_sniff_for_geosite = need_geosite_sniff st;
          need_sniff_for_upstream = need_upstream_domain_sniff N st (sa_ip client_addr)
      in if direct_by_ip \<and> \<not> need_sniff_for_geosite \<and> \<not> need_sniff_for_upstream
         then Inr (decide_tcp_upstream_target orig_dst True None, None, st)
         else
           bindR (if need_sniff_for_geosite \<or> (\<not> direct_by_ip \<and> need_sniff_for_upstream)
                  then sniff_domain runs (c_tcp_peek_buffer_size (st_config st)) else Inr None) (\<lambda>domain.
           let st = meanwhile st;
               (direct, st) = (if need_sniff_for_geosite then should_direct N now st (sa_ip orig_dst) domain
                               else (direct_by_ip, st))
           in Inr (decide_tcp_upstream_target orig_dst direct domain, domain, st)))"

definition pick_and_connect ::
  "('n4, 'n6) net_ops \<Rightarrow> nat \<Rightarrow> (nat \<Rightarrow> Round) \<Rightarrow> TcpUpstreamTarget \<Rightarrow> ('n4, 'n6, nat) AppState \<Rightarrow> SocketAddr \<Rightarrow>
   SocketAddr \<Rightarrow> rstr option \<Rightarrow> rstr option \<Rightarrow> UpstreamSet \<Rightarrow>
   ((TcpError, TcpStream \<times> nat) rres \<times> (rstr \<times> nat) list \<times> UpstreamSet) option" where
  "pick_and_connect N fuel rds target st client_addr orig_dst domain exclude us =
     (let grp = lookup_upstream_group N st (sa_ip client_addr) (sa_ip orig_dst) domain
      in try_connect_socks5_group fuel rds (st_config st) target 1 grp exclude us)"

text \<open>The connection of the chosen target, over the cached upstream or a picked one.\<close>

definition tcp_connect ::
  "('n4, 'n6) net_ops \<Rightarrow> nat \<Rightarrow> nat \<Rightarrow> (nat \<Rightarrow> Round) \<Rightarrow> SocketAddr \<Rightarrow> SocketAddr \<Rightarrow> TcpUpstreamTarget \<Rightarrow> rstr option \<Rightarrow>
   ('n4, 'n6, nat) AppState \<Rightarrow> UpstreamSet \<Rightarrow>
   ((TcpError, TcpStream \<times> nat option) rres \<times> ('n4, 'n6, nat) AppState \<times> UpstreamSet) option" where
  "tcp_connect N fuel now rds client_addr orig_dst target domain st us =
     (case target of
        Direct addr \<Rightarrow>
          Some (if rd_in_time (rds 0) then bindR (direct_connect (rds 0) addr) (\<lambda>s. Inr (s, None))
                else Inl (Fail ConnectTimeout), st, us)
      | _ \<Rightarrow>
          (let picked = (\<lambda>st exclude us.
                 map_option (\<lambda>(r, _, us). (bindR r (\<lambda>(s, k). Inr (s, Some k)), st, us))
                   (pick_and_connect N fuel rds target st client_addr orig_dst domain exclude us))
           in case get_cached_upstream now st (sa_ip client_addr) (sa_ip orig_dst) domain of
                (None, st) \<Rightarrow> picked st None us
              | (Some k, st) \<Rightarrow>
                  (case connect_tcp_upstream (rds 0) target (up_addr (us_up us k)) (socks5_credentials (st_config st)) of
                     Inr s \<Rightarrow> Some (Inr (s, Some k), st, us)
                   | Inl Panic \<Rightarrow> Some (Inl Panic, st, us)
                   | Inl (Fail e) \<Rightarrow>
                       let st = remove_cached_upstream st (sa_ip client_addr) (sa_ip orig_dst) domain;
                           us = (if c_disable_upstream_score (st_config st) then us
                                 else us_update k (penalize (rd_now (rds 0))) us)
                       in picked st (Some (up_id (us_up us k))) us)))"

text \<open>
  The handler up to the relay: route, connect, remember the upstream and register the connection
  with it. The last component is the upstream of the connection to be relayed.
\<close>

definition handle_tcp_connection ::
  "('n4, 'n6) net_ops \<Rightarrow> nat \<Rightarrow> nat \<Rightarrow> (nat \<Rightarrow> Round) \<Rightarrow> (Sniffer \<times> PeekEvent list) list \<Rightarrow>
   (('n4, 'n6, nat) AppState \<Rightarrow> ('n4, 'n6, nat) AppState) \<Rightarrow> nat \<times> nat \<Rightarrow>
   SocketAddr \<Rightarrow> SocketAddr \<Rightarrow> ('n4, 'n6, nat) AppState \<Rightarrow> UpstreamSet \<Rightarrow>
   ((TcpError, TcpStream \<times> nat option) rres \<times> ('n4, 'n6, nat) AppState \<times> UpstreamSet) option" where
  "handle_tcp_connection N fuel now rds runs meanwhile track_ids client_addr orig_dst st us =
     (case tcp_route N now runs meanwhile client_addr orig_dst st of
        Inl _ \<Rightarrow> Some (Inl Panic, st, us)
      | Inr (target, domain, st) \<Rightarrow>
          map_option (\<lambda>(r, st, us).
            case r of
              Inr (s, Some k) \<Rightarrow>
                (r, cache_upstream now st (sa_ip client_addr) (sa_ip orig_dst) domain k,
                 us_update k (track (fst track_ids) (snd track_ids)) us)
            | _ \<Rightarrow> (r, st, us))
            (tcp_connect N fuel now rds client_addr orig_dst target domain st us))"

section \<open>Lemmas on the retry loop\<close>

definition rounds_ok :: "(nat \<Rightarrow> Round) \<Rightarrow> bool" where
  "rounds_ok rds \<longleftrightarrow> (\<forall>i. fastrand_ok (rd_rnd (rds i)) \<and> (\<forall>us. us_reachable us (rd_others (rds i) us)))"

lemma connect_no_panic: "connect_tcp_upstream rd target addr creds \<noteq> Inl Panic"
proof -
  have "socks5_connect dial t addr creds \<noteq> Inl Panic" for dial t
    using safeS_connect_on [of t creds]
    by (auto simp: socks5_connect_def safeS_def safe_def ok_or_def split: option.splits prod.splits sum.splits) (metis fst_conv)
  then show ?thesis
    by (simp add: connect_tcp_upstream_def direct_connect_def split: TcpUpstreamTarget.split)
qed

abbreviation pick_round :: "Round \<Rightarrow> rstr \<Rightarrow> rstr set \<Rightarrow> UpstreamSet \<Rightarrow> (unit, nat option \<times> UpstreamSet) rres" where
  "pick_round rd grp failed us \<equiv>
     (if failed = {} then pick_from_group (rd_rnd rd) (rd_now rd) grp us
      else pick_excluding_many_from_group (rd_rnd rd) (rd_now rd) grp failed us)"

lemma pick_round_cases:
  assumes "us_live us" and "fastrand_ok (rd_rnd rd)"
  obtains (none) "pick_round rd grp failed us = Inr (None, us)" and "\<forall>k \<in> set (members us grp). up_id (us_up us k) \<in> failed"
  | (some) k us' where "pick_round rd grp failed us = Inr (Some k, us')" and "k \<in> set (members us grp)"
      and "up_id (us_up us k) \<notin> failed" and "us_reachable us us'" and "us_all_items us' = us_all_items us"
  using group_picker.picks [OF assms, where grp = grp and now = "rd_now rd"]
    excluding_picker.picks [OF assms, where grp = grp and exclude = failed and now = "rd_now rd"] none some
  by (cases "failed = {}") (auto simp: filter_empty_conv)

text \<open>The iterations left: those for the group, the switch, and those for the default group.\<close>

definition ids_of :: "UpstreamSet \<Rightarrow> rstr set" where
  "ids_of us = up_id ` set (us_all_items us)"

definition tries_left :: "UpstreamSet \<Rightarrow> rstr \<Rightarrow> rstr set \<Rightarrow> nat" where
  "tries_left us grp failed =
     (if grp = ''default'' then 0 else card (ids_of us) + 1) + card (ids_of us - failed)"

lemma fixed_view:
  assumes "us_fixed us' = us_fixed us"
  shows "ids_of us' = ids_of us" and "members us' = members us" and "length (us_all_items us') = length (us_all_items us)"
    and "k < length (us_all_items us) \<Longrightarrow> up_id (us_up us' k) = up_id (us_up us k)"
    and "tries_left us' = tries_left us"
proof -
  from assms have m: "map (\<lambda>up. (up_id up, up_groups up)) (us_all_items us') = map (\<lambda>up. (up_id up, up_groups up)) (us_all_items us)"
    and g: "us_groups us' = us_groups us" by (auto simp: us_fixed_def)
  from arg_cong [OF m, of "map fst"] have ids: "map up_id (us_all_items us') = map up_id (us_all_items us)"
    by (simp add: comp_def)
  then show i: "ids_of us' = ids_of us" unfolding ids_of_def by (metis set_map)
  show "members us' = members us" by (simp add: members_def [abs_def] g)
  show len: "length (us_all_items us') = length (us_all_items us)" using ids by (metis length_map)
  show "up_id (us_up us' k) = up_id (us_up us k)" if "k < length (us_all_items us)"
    using ids that len by (metis nth_map)
  show "tries_left us' = tries_left us" unfolding tries_left_def [abs_def] i ..
qed

text \<open>What a run of the loop achieves: a connection to a member, or every member tried.\<close>

definition exhausted :: "UpstreamSet \<Rightarrow> rstr \<Rightarrow> rstr set \<Rightarrow> (rstr \<times> nat) list \<Rightarrow> bool" where
  "exhausted us grp failed tried \<longleftrightarrow>
     (\<forall>k \<in> set (members us grp). up_id (us_up us k) \<in> failed \<or>
        (\<exists>j. (grp, j) \<in> set tried \<and> up_id (us_up us j) = up_id (us_up us k)))"

definition tried_well ::
  "UpstreamSet \<Rightarrow> rstr \<Rightarrow> rstr set \<Rightarrow> (TcpError, TcpStream \<times> nat) rres \<Rightarrow> (rstr \<times> nat) list \<Rightarrow> bool" where
  "tried_well us grp failed r tried \<longleftrightarrow>
     (\<forall>(g, k) \<in> set tried. (g = grp \<or> g = ''default'') \<and> k \<in> set (members us g)) \<and>
     ((\<exists>s g k. r = Inr (s, k) \<and> tried \<noteq> [] \<and> last tried = (g, k)) \<or>
      (r = Inl (Fail AllUpstreamsFailed) \<and> exhausted us grp failed tried \<and>
       (grp \<noteq> ''default'' \<longrightarrow> exhausted us ''default'' {} tried)))"

definition tried_once :: "UpstreamSet \<Rightarrow> rstr \<Rightarrow> rstr set \<Rightarrow> (rstr \<times> nat) list \<Rightarrow> bool" where
  "tried_once us grp failed tried \<longleftrightarrow>
     distinct (map (\<lambda>(g, k). (g, up_id (us_up us k))) tried) \<and>
     (\<forall>(g, k) \<in> set tried. g = grp \<longrightarrow> up_id (us_up us k) \<notin> failed)"

lemma members_bound: "us_live us \<Longrightarrow> k \<in> set (members us grp) \<Longrightarrow> k < length (us_all_items us)"
  using us_liveD(2) by blast

lemma tried_well_fixed:
  assumes "us_live us" and "us_fixed us' = us_fixed us" and "tried_well us' grp failed r tried"
  shows "tried_well us grp failed r tried"
proof -
  note v = fixed_view [OF assms(2)]
  have b: "k < length (us_all_items us)" if "(g, k) \<in> set tried" for g k
    using assms(3) that members_bound [OF assms(1)] unfolding tried_well_def v(2) by fast
  have ex: "exhausted us g f tried" if h: "exhausted us' g f tried" for g f
    unfolding exhausted_def
  proof
    fix k assume k: "k \<in> set (members us g)"
    with h have "up_id (us_up us' k) \<in> f \<or> (\<exists>j. (g, j) \<in> set tried \<and> up_id (us_up us' j) = up_id (us_up us' k))"
      unfolding exhausted_def v(2) by simp
    then show "up_id (us_up us k) \<in> f \<or> (\<exists>j. (g, j) \<in> set tried \<and> up_id (us_up us j) = up_id (us_up us k))"
      using v(4) b v(4) [OF members_bound [OF assms(1) k]] by auto
  qed
  show ?thesis using assms(3) ex [of grp failed] ex [of "''default''" "{}"] unfolding tried_well_def v(2) by argo
qed

lemma tried_once_fixed:
  assumes "us_live us" and "us_fixed us' = us_fixed us" and "tried_well us grp failed r tried"
    and "tried_once us' g f tried"
  shows "tried_once us g f tried"
proof -
  have id: "up_id (us_up us' k) = up_id (us_up us k)" if "(g, k) \<in> set tried" for g k
    using assms(3) that members_bound [OF assms(1)] fixed_view(4) [OF assms(2)] unfolding tried_well_def by fast
  have "map (\<lambda>(g, k). (g, up_id (us_up us' k))) tried = map (\<lambda>(g, k). (g, up_id (us_up us k))) tried"
    using id by (intro map_cong) auto
  moreover have "\<forall>(h, k) \<in> set tried. h = g \<longrightarrow> up_id (us_up us k) \<notin> f"
    using assms(4) id unfolding tried_once_def by force
  ultimately show ?thesis using assms(4) unfolding tried_once_def by argo
qed

lemma tried_once_insert:
  assumes "tried_once us grp (insert (up_id (us_up us k)) failed) tried" and "up_id (us_up us k) \<notin> failed"
  shows "tried_once us grp failed ((grp, k) # tried)"
  using assms unfolding tried_once_def by force

lemma exhausted_Cons: "exhausted us grp failed tried \<Longrightarrow> exhausted us grp failed (e # tried)"
  by (auto simp: exhausted_def)

lemma exhausted_insert:
  assumes "exhausted us grp (insert (up_id (us_up us k)) failed) tried"
  shows "exhausted us grp failed ((grp, k) # tried)"
  unfolding exhausted_def
proof
  fix j assume "j \<in> set (members us grp)"
  with assms consider "up_id (us_up us j) = up_id (us_up us k)" | "up_id (us_up us j) \<in> failed"
    | l where "(grp, l) \<in> set tried" "up_id (us_up us l) = up_id (us_up us j)"
    unfolding exhausted_def by blast
  then show "up_id (us_up us j) \<in> failed \<or>
      (\<exists>l. (grp, l) \<in> set ((grp, k) # tried) \<and> up_id (us_up us l) = up_id (us_up us j))"
    by cases (metis list.set_intros)+
qed

lemma loop_none:
  "pick_round (rds i) grp failed (rd_others (rds i) us) = Inr (None, us1) \<Longrightarrow>
   try_connect_loop (Suc fuel) rds c target i grp failed us =
     (if grp = ''default'' then Some (Inl (Fail AllUpstreamsFailed), [], us1)
      else try_connect_loop fuel rds c target (i + 1) ''default'' {} us1)"
  by (simp only: try_connect_loop.simps Let_def) simp

lemma loop_some:
  "pick_round (rds i) grp failed (rd_others (rds i) us) = Inr (Some k, us1) \<Longrightarrow>
   try_connect_loop (Suc fuel) rds c target i grp failed us =
     (case connect_tcp_upstream (rds i) target (up_addr (us_up us1 k)) (socks5_credentials c) of
        Inr s \<Rightarrow> Some (Inr (s, k), [(grp, k)], us1)
      | Inl Panic \<Rightarrow> Some (Inl Panic, [(grp, k)], us1)
      | Inl (Fail e) \<Rightarrow>
          let us = (if c_disable_upstream_score c then us1 else us_update k (penalize (rd_now (rds i))) us1)
          in map_option (\<lambda>(r, tried, us). (r, (grp, k) # tried, us))
               (try_connect_loop fuel rds c target (i + 1) grp (insert (up_id (us_up us k)) failed) us))"
  by (simp only: try_connect_loop.simps Let_def) simp

lemma try_connect_loop_complete:
  assumes "rounds_ok rds"
  shows "us_live us \<Longrightarrow> tries_left us grp failed < fuel \<Longrightarrow>
    \<exists>r tried us'. try_connect_loop fuel rds c target i grp failed us = Some (r, tried, us') \<and>
      us_reachable us us' \<and> tried_well us grp failed r tried \<and> tried_once us grp failed tried"
proof (induction fuel arbitrary: i grp failed us)
  case (Suc fuel)
  let ?rd = "rds i" and ?us = "rd_others (rds i) us"
  have rd: "fastrand_ok (rd_rnd ?rd)" "us_reachable us ?us" using assms by (auto simp: rounds_ok_def)
  note live = us_live_reachable [OF Suc.prems(1) rd(2)]
  note v = fixed_view [OF conjunct2 [OF live]]
  show ?case
  proof (cases rule: pick_round_cases [OF conjunct1 [OF live] rd(1), where grp = grp and failed = failed, case_names none some])
    case none
    have ex: "exhausted us grp failed tried" for tried
      using none(2) members_bound [OF Suc.prems(1)] v(4) unfolding exhausted_def v(2) by auto
    show ?thesis
    proof (cases "grp = ''default''")
      case True
      have "tried_well us grp failed (Inl (Fail AllUpstreamsFailed)) []"
        and "tried_once us grp failed []" using True ex by (simp_all add: tried_well_def tried_once_def)
      then show ?thesis using loop_none [where rds = rds and i = i, OF none(1)] True rd(2) by auto
    next
      case False
      then have "tries_left ?us ''default'' {} < fuel" using Suc.prems(2) by (simp add: tries_left_def v(1))
      from Suc.IH [OF conjunct1 [OF live] this, of "i + 1"] obtain r tried us' where
        rec: "try_connect_loop fuel rds c target (i + 1) ''default'' {} ?us = Some (r, tried, us')"
          "us_reachable ?us us'" "tried_well ?us ''default'' {} r tried" "tried_once ?us ''default'' {} tried" by blast
      note well = tried_well_fixed [OF Suc.prems(1) conjunct2 [OF live] rec(3)]
      from well ex have "tried_well us grp failed r tried" by (auto simp: tried_well_def)
      moreover have "tried_once us grp failed tried"
        using tried_once_fixed [OF Suc.prems(1) conjunct2 [OF live] well rec(4)] well False
        unfolding tried_once_def tried_well_def by fast
      ultimately show ?thesis using loop_none [where rds = rds and i = i, OF none(1)] False rec(1) us_reachable_trans [OF rec(2) rd(2)] by auto
    qed
  next
    case (some k us1)
    have k: "k \<in> set (members us grp)" "k < length (us_all_items us)" "up_id (us_up us k) \<notin> failed"
      using some(2,3) members_bound [OF Suc.prems(1)] v by auto
    note reach1 = us_reachable_trans [OF some(4) rd(2)]
    show ?thesis
    proof (cases "connect_tcp_upstream ?rd target (up_addr (us_up us1 k)) (socks5_credentials c)")
      case (Inr s)
      have "tried_well us grp failed (Inr (s, k)) [(grp, k)]" "tried_once us grp failed [(grp, k)]"
        using k(1,3) by (simp_all add: tried_well_def tried_once_def)
      then show ?thesis using loop_some [where rds = rds and i = i, OF some(1)] Inr reach1 by auto
    next
      case (Inl f)
      then obtain e where e: "f = Fail e" using connect_no_panic by (cases f) auto
      let ?us2 = "if c_disable_upstream_score c then us1 else us_update k (penalize (rd_now ?rd)) us1"
      have "us_step us1 (us_update k (\<lambda>_. penalize (rd_now ?rd) (us_up us1 k)) us1)"
        using k(2) v(3) some(5) by (intro us_step.upstream upstream_step.penalty) simp
      then have "us_reachable us1 ?us2"
        by (auto simp: us_update_def intro: us_reachable.step [OF us_reachable.start] us_reachable.start)
      from us_reachable_trans [OF this reach1] have reach2: "us_reachable us ?us2" .
      note live2 = us_live_reachable [OF Suc.prems(1) reach2]
      note v2 = fixed_view [OF conjunct2 [OF live2]]
      let ?id = "up_id (us_up ?us2 k)"
      have id: "?id = up_id (us_up us k)" using v2(4) k(2) by simp
      have "?id \<in> ids_of us - failed" using k(2,3) id by (auto simp: ids_of_def)
      then have "card (ids_of us - insert ?id failed) < card (ids_of us - failed)"
        by (intro psubset_card_mono) (auto simp: ids_of_def)
      then have "tries_left ?us2 grp (insert ?id failed) < fuel"
        using Suc.prems(2) unfolding v2(5) by (simp add: tries_left_def)
      from Suc.IH [OF conjunct1 [OF live2] this, of "i + 1"] obtain r tried us' where
        rec: "try_connect_loop fuel rds c target (i + 1) grp (insert ?id failed) ?us2 = Some (r, tried, us')"
          "us_reachable ?us2 us'" "tried_well ?us2 grp (insert ?id failed) r tried"
          "tried_once ?us2 grp (insert ?id failed) tried" by blast
      have well: "tried_well us grp (insert ?id failed) r tried"
        by (rule tried_well_fixed [OF Suc.prems(1) conjunct2 [OF live2] rec(3)])
      note exhausted_insert [of us grp k failed tried, folded id]
      with well k(1) have "tried_well us grp failed r ((grp, k) # tried)"
        by (auto simp: tried_well_def exhausted_Cons)
      moreover have "tried_once us grp failed ((grp, k) # tried)"
        using tried_once_insert [of us grp k, folded id] tried_once_fixed [OF Suc.prems(1) conjunct2 [OF live2] well rec(4)]
          k(3) id by auto
      moreover have "try_connect_loop (Suc fuel) rds c target i grp failed us = Some (r, (grp, k) # tried, us')"
        using Inl e rec(1) by (simp only: loop_some [where rds = rds and i = i, OF some(1)] Let_def) simp
      ultimately show ?thesis using us_reachable_trans [OF rec(2) reach2] by blast
    qed
  qed
qed simp

lemma tries_left_bound: "tries_left us grp failed < 2 * length (us_all_items us) + 2"
proof -
  have "card (ids_of us) \<le> length (us_all_items us)"
    unfolding ids_of_def using card_image_le [of "set (us_all_items us)" up_id] card_length [of "us_all_items us"] by simp
  moreover have "card (ids_of us - failed) \<le> card (ids_of us)" by (rule card_mono) (auto simp: ids_of_def)
  ultimately show ?thesis by (simp add: tries_left_def)
qed

section \<open>Lemmas on the route\<close>

lemma domain_set_empty_matches: "domain_set_is_empty ds \<Longrightarrow> \<not> matches_canonical ds d"
proof -
  have "\<not> suffix_scan {} d"
    by (induction "{} :: rstr set" d rule: suffix_scan.induct) (subst suffix_scan.simps, auto split: option.split)
  then show "domain_set_is_empty ds \<Longrightarrow> ?thesis" by (simp add: domain_set_is_empty_def matches_canonical_def)
qed

lemma tcp_route_mode:
  assumes "\<And>s. st_proxy_mode (meanwhile s) = st_proxy_mode s"
    and "tcp_route N now runs meanwhile client dst st = Inr (target, used, st')"
  shows "st_proxy_mode st' = st_proxy_mode st"
proof -
  have m: "st_proxy_mode s' = st_proxy_mode s" if "should_direct N now s ip d = (b, s')" for s s' ip d b
    using should_direct_mode [of N now s ip d] that by simp
  obtain b st1 where s1: "should_direct N now st (sa_ip dst) None = (b, st1)" by fastforce
  obtain b2 st2 where s2: "should_direct N now (meanwhile st1) (sa_ip dst) used = (b2, st2)" by fastforce
  show ?thesis using assms(2) m [OF s1] m [OF s2] s2 by (auto simp: tcp_route_def Let_def s1 assms(1) split: if_splits prod.splits)
qed

text \<open>When no domain rule can apply, the domain does not matter.\<close>

lemma no_sniff_no_matter:
  assumes "\<not> need_geosite_sniff st"
  shows "route_decision N st ip domain = route_decision N st ip None"
proof (cases "proxy_mode_from_u8 (st_proxy_mode st) = Smart")
  case True
  from assms have e: "domain_set_is_empty (st_force_direct_domains st)" "domain_set_is_empty (st_force_socks5_domains st)"
    and g: "st_compiled_geosite st = None \<or> c_proxy_geosite_tags (st_config st) = [] \<and> c_direct_geosite_tags (st_config st) = []"
    using True by (auto simp: need_geosite_sniff_def split: if_splits)
  have "force_domain_rules st domain = None"
    using e by (simp add: force_domain_rules_def domain_set_empty_matches Let_def split: option.split)
  moreover have "geosite_rules st domain = None"
    using g by (auto simp: geosite_rules_def split: option.split)
  ultimately show ?thesis
    by (simp add: route_decision_def True first_opinion_domain_rules force_domain_rules_def geosite_rules_def split: option.split)
qed (simp add: route_decision_def split: ProxyMode.split)

lemma ccr_lookup_None_find:
  "ccr_lookup N r ip = None \<Longrightarrow> ccr_find_map_matching N r ip f = None"
  by (cases ip) (auto simp: ccr_lookup_def ccr_find_map_matching_def ccr_search4_def ccr_search6_def find_None_iff
      find_map_None_iff)

lemma no_sniff_same_group:
  assumes "app_build env N c = Inr ab" and "app_reachable N (ab_state ab) st"
    and "\<not> need_upstream_domain_sniff N st client"
  shows "lookup_upstream_group N st client dst domain = lookup_upstream_group N st client dst None"
proof -
  have st: "st_config st = st_config (ab_state ab)" "st_client_domain_routes st = st_client_domain_routes (ab_state ab)"
    using app_reachable_static [OF assms(2)] by (metis static_part_simps)+
  have "ccr_lookup N (st_client_domain_routes st) client = None"
  proof (cases "c_client_domain_routes c = []")
    case True
    then show ?thesis unfolding st using assms(1)
      by (elim app_buildE) (cases client, auto simp: build_client_domain_routes_def ccr_build_def ccr_lookup_def
        ccr_search4_def ccr_search6_def ccr_finalize_def ccr_new_def sort_by_key_rev_def)
  next
    case False
    moreover have "st_config st = c" unfolding st using assms(1) by (elim app_buildE) simp
    ultimately show ?thesis using assms(3) by (simp add: need_upstream_domain_sniff_def)
  qed
  then show ?thesis
    by (simp add: lookup_upstream_group_def ccr_lookup_None_find split: option.split)
qed

text \<open>The target that follows from a routing decision.\<close>

lemma decided_target:
  assumes "target = decide_tcp_upstream_target dst direct used"
    and "used = sniffed \<or> used = None \<and> (direct \<or> group_of sniffed = group_of None)"
  shows "if direct then target = Direct dst
    else (used = None \<and> target = Socks5Ip dst \<or> used = sniffed \<and> (\<exists>h. sniffed = Some h \<and> target = Socks5Domain h (sa_port dst))) \<and>
      group_of used = group_of sniffed"
  using assms by (auto simp: decide_tcp_upstream_target_def split: option.split)

section \<open>Properties\<close>

text \<open>
  C6: Connecting through a group terminates and is exhaustive. Whatever the other tasks do to the
  upstream set between the attempts, twice the number of upstreams plus two iterations are enough: the
  loop returns and never panics, tries only members of the group or of the default group, and tries no
  upstream twice for the same group and never the excluded one for the requested group. It returns the
  last upstream tried, or fails after every member of the group but the excluded one and then every
  member of the default group has been tried.
\<close>

theorem tcp_connect_exhausts_groups:
  assumes "us_live us" and "rounds_ok rds" and "2 * length (us_all_items us) + 2 \<le> fuel"
  shows "\<exists>r tried us'. try_connect_socks5_group fuel rds c target i grp exclude us = Some (r, tried, us') \<and>
    us_reachable us us' \<and>
    (\<forall>(g, k) \<in> set tried. (g = grp \<or> g = ''default'') \<and> k \<in> set (members us g) \<and>
       (g = grp \<longrightarrow> Some (up_id (us_up us k)) \<noteq> exclude)) \<and>
    distinct (map (\<lambda>(g, k). (g, up_id (us_up us k))) tried) \<and>
    ((\<exists>s k. r = Inr (s, k) \<and> tried \<noteq> [] \<and> snd (last tried) = k) \<or>
     r = Inl (Fail AllUpstreamsFailed) \<and>
     (\<forall>k \<in> set (members us grp). Some (up_id (us_up us k)) = exclude \<or>
        (\<exists>j. (grp, j) \<in> set tried \<and> up_id (us_up us j) = up_id (us_up us k))) \<and>
     (grp \<noteq> ''default'' \<longrightarrow> (\<forall>k \<in> set (members us ''default'').
        \<exists>j. (''default'', j) \<in> set tried \<and> up_id (us_up us j) = up_id (us_up us k))))"
proof -
  have ex: "x \<in> set_option exclude \<longleftrightarrow> Some x = exclude" for x by (cases exclude) auto
  have "tries_left us grp (set_option exclude) < fuel"
    using tries_left_bound [of us grp "set_option exclude"] assms(3) by simp
  from try_connect_loop_complete [OF assms(2,1) this, of c target i] obtain r tried us' where
    run: "try_connect_loop fuel rds c target i grp (set_option exclude) us = Some (r, tried, us')" "us_reachable us us'"
      and w: "tried_well us grp (set_option exclude) r tried" and once: "tried_once us grp (set_option exclude) tried"
    by blast
  have tr: "\<forall>(g, k) \<in> set tried. (g = grp \<or> g = ''default'') \<and> k \<in> set (members us g) \<and>
       (g = grp \<longrightarrow> Some (up_id (us_up us k)) \<noteq> exclude)"
    using w once unfolding tried_well_def tried_once_def ex by fast
  show ?thesis
    using run tr once w unfolding try_connect_socks5_group_def tried_well_def tried_once_def exhausted_def ex
    by (intro exI [of _ r] exI [of _ tried] exI [of _ us']) (auto; fail)
qed

text \<open>
  C2: A TCP connection is routed as the configuration says for the domain that sniffing finds, also
  when the handler skips sniffing: for a state of a running process the route is direct exactly when
  the rules of the configuration say so for the mode at the start or after the sniffing; else the
  target is the sniffed name or the original address, and the group is the one of the client tables for
  that domain.
\<close>

theorem tcp_connection_routed:
  assumes "trie_laws N" and "\<And>s. be_to_lowercase env (be_to_lowercase env s) = be_to_lowercase env s"
    and "app_build env N c = Inr ab" and "app_reachable N (ab_state ab) st"
    and "\<And>s. app_reachable N (ab_state ab) s \<Longrightarrow> app_reachable N (ab_state ab) (meanwhile s)"
    and "sniff_domain runs (c_tcp_peek_buffer_size c) = Inr sniffed"
  shows "\<exists>target used st' mode. tcp_route N now runs meanwhile client dst st = Inr (target, used, st') \<and>
    app_reachable N (ab_state ab) st' \<and>
    mode \<in> {proxy_mode_from_u8 (st_proxy_mode st), proxy_mode_from_u8 (st_proxy_mode st')} \<and>
    (if config_decision env N c mode (sa_ip dst) sniffed then target = Direct dst
     else (used = None \<and> target = Socks5Ip dst \<or> used = sniffed \<and> (\<exists>h. sniffed = Some h \<and> target = Socks5Domain h (sa_port dst))) \<and>
       lookup_upstream_group N st' (sa_ip client) (sa_ip dst) used =
       lookup_upstream_group N st (sa_ip client) (sa_ip dst) sniffed)"
proof -
  let ?ip = "sa_ip dst" and ?D = "config_decision env N c" and ?m = "\<lambda>s. proxy_mode_from_u8 (st_proxy_mode s)"
  let ?group = "lookup_upstream_group N st (sa_ip client) ?ip"
  note decide = reachable_should_direct [OF assms(1-3), where now = now and ip = ?ip]
  obtain st1 where s1: "should_direct N now st ?ip None = (?D (?m st) ?ip None, st1)"
      "app_reachable N (ab_state ab) st1" "st_proxy_mode st1 = st_proxy_mode st" by (rule decide [OF assms(4)])
  note r2 = assms(5) [OF s1(2)]
  obtain st3 where s3: "should_direct N now (meanwhile st1) ?ip sniffed = (?D (?m (meanwhile st1)) ?ip sniffed, st3)"
      "app_reachable N (ab_state ab) st3" "st_proxy_mode st3 = st_proxy_mode (meanwhile st1)" by (rule decide [OF r2])
  note cfg = reachable_config [OF assms(3) s1(2)]
  let ?g = "need_geosite_sniff st1" and ?u = "need_upstream_domain_sniff N st1 (sa_ip client)"
  have same: "?D (?m st) ?ip sniffed = ?D (?m st) ?ip None" if "\<not> ?g"
    using no_sniff_no_matter [OF that, of N ?ip sniffed] s1(3) reachable_route_decision [OF assms(1-3) s1(2)] by simp
  note grp = reachable_same_group [OF _ assms(4)]
  note route = tcp_route_def s1(1) Let_def prod.case cfg assms(6) s3(1)
  have routed: ?thesis
    if "tcp_route N now runs meanwhile client dst st = Inr (decide_tcp_upstream_target dst (?D mode ?ip sniffed) used, used, s)"
      and "app_reachable N (ab_state ab) s" and "mode \<in> {?m st, ?m s}"
      and "used = sniffed \<or> used = None \<and> (?D mode ?ip sniffed \<or> ?group sniffed = ?group None)" for mode used s
    by (intro exI conjI, rule that(1), rule that(2), rule that(3))
      (unfold grp [OF that(2)], rule decided_target [OF refl that(4)])
  consider (geo) "?g" | (up) "\<not> ?g" "\<not> ?D (?m st) ?ip None" "?u" | (skip) "\<not> ?g" "?D (?m st) ?ip None \<or> \<not> ?u" by blast
  then show ?thesis
  proof cases
    case geo
    then show ?thesis using s3(3) by (intro routed [of "?m st3" sniffed, OF _ s3(2)]) (simp_all add: route)
  next
    case up
    then show ?thesis by (intro routed [of "?m st" sniffed, OF _ r2]) (simp_all add: route same)
  next
    case skip
    let ?s = "if ?D (?m st) ?ip None \<and> \<not> ?u then st1 else meanwhile st1"
    have r: "app_reachable N (ab_state ab) ?s" using s1(2) r2 by simp
    have "?D (?m st) ?ip sniffed \<or> ?group sniffed = ?group None"
      using skip(2) same [OF skip(1)] no_sniff_same_group [OF assms(3) s1(2), of "sa_ip client" ?ip sniffed]
      unfolding grp [OF s1(2)] by blast
    with skip show ?thesis by (intro routed [of "?m st" None, OF _ r]) (auto simp: route same)
  qed
qed

text \<open>
  Only the score task removes entries from the registry of an upstream, in which every connection is
  tracked; without that task the registry only grows.
\<close>

theorem unscored_registry_grows:
  assumes "upstream_step up up'" and "\<forall>relative live tcp_info now. up' \<noteq> score_tick relative live tcp_info now up"
  shows "\<exists>entries. up_registry up' = up_registry up @ entries"
proof -
  have "up_registry up' = up_registry up \<or> (\<exists>token fd. up' = track token fd up)"
    using assms by (elim upstream_stepE)
      (auto simp: set_quic_weight_def set_quic_stale_secs_def apply_report_def set_probe_quality_def
        update_uplink_score_def update_downlink_score_def health_check_step_def penalize_def store_relative_def Let_def
        split: prod.split option.split)
  then show ?thesis by (auto simp: track_def)
qed

section \<open>Witnesses\<close>

definition dead_rounds :: "nat \<Rightarrow> Round" where
  "dead_rounds i = \<lparr>rd_rnd = fixed_rand, rd_now = i, rd_dial = \<lambda>_. None, rd_in_time = True, rd_others = id\<rparr>"

theorem tcp_connect_exhausts_groups_witness:
  "\<exists>r tried us'. try_connect_socks5_group 6 dead_rounds routed_config (Socks5Ip (SocketAddr (V4 1) 80)) 1 ''eu'' (Some ''a'')
       (two_upstreams 0) = Some (r, tried, us') \<and>
     ((\<exists>s k. r = Inr (s, k)) \<or> (\<exists>j. (''default'', j) \<in> set tried \<and> up_id (us_up (two_upstreams 0) j) = ''b''))"
proof -
  have "rounds_ok dead_rounds" by (simp add: rounds_ok_def dead_rounds_def us_reachable.start)
  moreover have "1 \<in> set (members (two_upstreams 0) ''default'')" by (simp add: members_def listed_def)
  ultimately show ?thesis
    using tcp_connect_exhausts_groups [OF two_upstreams_live [of 0], of dead_rounds 6 routed_config
        "Socks5Ip (SocketAddr (V4 1) 80)" 1 "''eu''" "Some ''a''"]
    by force
qed

theorem tcp_connection_routed_witness:
  "\<exists>ab st'. app_build no_files word_net_ops routed_config = Inr ab \<and>
     tcp_route word_net_ops 0 [] id (SocketAddr (V4 0x0A000001) 5000) (SocketAddr (V4 0x08080808) 443) (ab_state ab) =
       Inr (Socks5Ip (SocketAddr (V4 0x08080808) 443), None, st')"
proof -
  obtain ab where ab: "app_build no_files word_net_ops routed_config = Inr ab" using routed_config_builds by blast
  then have mode: "proxy_mode_from_u8 (st_proxy_mode (ab_state ab)) = Smart" and "st_direct_cache (ab_state ab) = []"
    by (elim app_buildE, simp add: assemble_def proxy_mode_from_u8_def)+
  then have reach: "app_reachable word_net_ops (ab_state ab) (ab_state ab)" by (intro app_reachable.start)
  have "\<not> net_listed word_net_ops [] (V4 0x08080808)" by (simp add: net_listed_def)
  moreover have "\<not> is_must_direct_local_ip (V4 0x08080808)" by code_simp
  ultimately have dec: "\<not> config_decision no_files word_net_ops routed_config Smart (V4 0x08080808) None"
    by (simp add: config_decision_def config_rules_def domain_opinion_def opinion_def force_list_def country_direct_def)
  obtain target used st' m where
    r: "tcp_route word_net_ops 0 [] id (SocketAddr (V4 0x0A000001) 5000) (SocketAddr (V4 0x08080808) 443) (ab_state ab) =
        Inr (target, used, st')"
      and m: "m \<in> {Smart, proxy_mode_from_u8 (st_proxy_mode st')}"
      and t: "if config_decision no_files word_net_ops routed_config m (V4 0x08080808) None
        then target = Direct (SocketAddr (V4 0x08080808) 443)
        else used = None \<and> target = Socks5Ip (SocketAddr (V4 0x08080808) 443)"
    using tcp_connection_routed [OF word_net_ops_laws no_files_lower ab reach, of id "[]" None 0
        "SocketAddr (V4 0x0A000001) 5000" "SocketAddr (V4 0x08080808) 443"] mode
    by (fastforce split: if_splits)
  moreover have "m = Smart" using m tcp_route_mode [OF _ r] mode by simp
  ultimately show ?thesis using ab dec by auto
qed

end
