(* ===== verification/Relay.thy ===== *)
theory Relay
  imports App_Build
begin

text \<open>
  The relay of an established TCP connection (\<open>relay.rs\<close>, \<open>relay_tcp_streams\<close> of \<open>util.rs\<close>): the
  observation of both streams, the half-close timer around tokio's bidirectional copy, and what the
  caller does with the outcome. The copy itself is code of tokio: a run is the list of its polls, each
  with its time, the stream operations it made and its result. The property gives the timer a
  declarative meaning over that history.
\<close>

section \<open>Observing the streams\<close>

datatype ErrorKind = TimedOut | OtherKind

datatype InnerError = HalfCloseMarker | ForeignError

record io_error =
  ie_kind :: ErrorKind
  ie_inner :: "InnerError option"

definition is_half_close_timeout :: "io_error \<Rightarrow> bool" where
  "is_half_close_timeout e \<longleftrightarrow> ie_kind e = TimedOut \<and> ie_inner e = Some HalfCloseMarker"

definition half_close_timeout :: io_error where
  "half_close_timeout = \<lparr>ie_kind = TimedOut, ie_inner = Some HalfCloseMarker\<rparr>"

text \<open>
  What an inner stream answers to \<open>poll_read\<close> (with the bytes it filled into a buffer with \<open>remaining\<close>
  free ones) and \<open>poll_write\<close>; the other operations are passed through unobserved.
\<close>

datatype 'a Poll = Pending | Ready "io_error + 'a"

datatype IoOp = PollRead nat "nat Poll" | PollWrite "nat Poll" | PollFlush "unit Poll" | PollShutdown "unit Poll"

record RelayTimer =
  hc_eof :: bool
  hc_activity :: bool
  hc_armed :: bool
  hc_deadline :: nat

definition tracked_poll_read :: "nat \<Rightarrow> nat Poll \<Rightarrow> RelayTimer \<Rightarrow> RelayTimer" where
  "tracked_poll_read remaining result s =
     (case result of
        Ready (Inr filled) \<Rightarrow>
          if 0 < filled then s\<lparr>hc_activity := True\<rparr>
          else if 0 < remaining then s\<lparr>hc_eof := True\<rparr>
          else s
      | _ \<Rightarrow> s)"

definition tracked_poll_write :: "nat Poll \<Rightarrow> RelayTimer \<Rightarrow> RelayTimer" where
  "tracked_poll_write result s =
     (case result of
        Ready (Inr n) \<Rightarrow> if 0 < n then s\<lparr>hc_activity := True\<rparr> else s
      | _ \<Rightarrow> s)"

fun tracked :: "IoOp \<Rightarrow> RelayTimer \<Rightarrow> RelayTimer" where
  "tracked (PollRead remaining result) s = tracked_poll_read remaining result s"
| "tracked (PollWrite result) s = tracked_poll_write result s"
| "tracked (PollFlush result) s = s"
| "tracked (PollShutdown result) s = s"

section \<open>The copy with its timer\<close>

record CopyPoll =
  cp_now :: nat
  cp_ops :: "IoOp list"
  cp_result :: "(io_error + nat \<times> nat) option"

definition relay_poll :: "nat \<Rightarrow> CopyPoll \<Rightarrow> RelayTimer \<Rightarrow> (io_error + nat \<times> nat) option \<times> RelayTimer" where
  "relay_poll grace p s =
     (let s = fold tracked (cp_ops p) s
      in case cp_result p of
           Some result \<Rightarrow> (Some result, s)
         | None \<Rightarrow>
             (let moved = hc_activity s; s = s\<lparr>hc_activity := False\<rparr>
              in if \<not> hc_eof s then (None, s)
                 else
                   let s = (if \<not> hc_armed s \<or> moved then s\<lparr>hc_deadline := cp_now p + grace, hc_armed := True\<rparr> else s)
                   in if hc_deadline s \<le> cp_now p then (Some (Inl half_close_timeout), s) else (None, s)))"

fun relay_polls :: "nat \<Rightarrow> RelayTimer \<Rightarrow> CopyPoll list \<Rightarrow> (io_error + nat \<times> nat) option" where
  "relay_polls grace s [] = None"
| "relay_polls grace s (p # ps) =
     (case relay_poll grace p s of
        (Some result, _) \<Rightarrow> Some result
      | (None, s) \<Rightarrow> relay_polls grace s ps)"

fun plain_copy :: "CopyPoll list \<Rightarrow> (io_error + nat \<times> nat) option" where
  "plain_copy [] = None"
| "plain_copy (p # ps) = (case cp_result p of Some result \<Rightarrow> Some result | None \<Rightarrow> plain_copy ps)"

definition copy_bidirectional :: "nat option \<Rightarrow> nat \<Rightarrow> CopyPoll list \<Rightarrow> (io_error + nat \<times> nat) option" where
  "copy_bidirectional grace start polls =
     (case grace of
        None \<Rightarrow> plain_copy polls
      | Some g \<Rightarrow>
          relay_polls g \<lparr>hc_eof = False, hc_activity = False, hc_armed = False, hc_deadline = start + g\<rparr> polls)"

section \<open>The relay (util.rs)\<close>

definition half_close_grace :: "nat \<Rightarrow> nat option" where
  "half_close_grace secs = (if 0 < secs then Some (from_secs secs) else None)"

datatype RelayEnd = Finished nat nat | HalfCloseTimeout nat

datatype RelayError = SpliceError | CopyError io_error

text \<open>The process-wide counters, and whether both sockets were set to close with a reset.\<close>

record RelayEffects =
  tcp_relay_half_close_timeouts :: "64 word"
  tcp_relay_copy_errors :: "64 word"
  aborted_with_rst :: bool

text \<open>\<open>splice_result\<close> is the outcome of \<open>zero_copy_bidirectional\<close> of the crate \<open>tokio_splice\<close>.\<close>

definition relay_tcp_streams ::
  "bool \<Rightarrow> nat option \<Rightarrow> (unit + nat \<times> nat) option \<Rightarrow> nat \<Rightarrow> CopyPoll list \<Rightarrow> RelayEffects \<Rightarrow>
   (RelayError + RelayEnd) option \<times> RelayEffects" where
  "relay_tcp_streams use_splice grace splice_result start polls fx =
     (if use_splice
      then (map_option (\<lambda>r. case r of Inl _ \<Rightarrow> Inl SpliceError | Inr (sent, recv) \<Rightarrow> Inr (Finished sent recv)) splice_result, fx)
      else case copy_bidirectional grace start polls of
             None \<Rightarrow> (None, fx)
           | Some (Inr (sent, recv)) \<Rightarrow> (Some (Inr (Finished sent recv)), fx)
           | Some (Inl e) \<Rightarrow>
               if is_half_close_timeout e
               then (Some (Inr (HalfCloseTimeout ((case grace of Some g \<Rightarrow> g | None \<Rightarrow> 0) div 1000))),
                     fx\<lparr>tcp_relay_half_close_timeouts := tcp_relay_half_close_timeouts fx + 1, aborted_with_rst := True\<rparr>)
               else (Some (Inl (CopyError e)), fx\<lparr>tcp_relay_copy_errors := tcp_relay_copy_errors fx + 1\<rparr>))"

text \<open>\<open>relay_tcp\<close> of \<open>tcp.rs\<close>: the result for the connection handler; the rest of it is logging.\<close>

definition relay_tcp ::
  "bool \<Rightarrow> nat option \<Rightarrow> (unit + nat \<times> nat) option \<Rightarrow> nat \<Rightarrow> CopyPoll list \<Rightarrow> RelayEffects \<Rightarrow>
   (RelayError + unit) option \<times> RelayEffects" where
  "relay_tcp use_splice half_close splice_result start polls fx =
     (case relay_tcp_streams use_splice half_close splice_result start polls fx of
        (r, fx) \<Rightarrow> (map_option (\<lambda>r. case r of Inl e \<Rightarrow> Inl e | Inr _ \<Rightarrow> Inr ()) r, fx))"

section \<open>The specification: silence after an end of stream\<close>

fun sees_eof :: "IoOp \<Rightarrow> bool" where
  "sees_eof (PollRead remaining (Ready (Inr filled))) \<longleftrightarrow> filled = 0 \<and> 0 < remaining"
| "sees_eof _ \<longleftrightarrow> False"

fun moves_bytes :: "IoOp \<Rightarrow> bool" where
  "moves_bytes (PollRead remaining (Ready (Inr filled))) \<longleftrightarrow> 0 < filled"
| "moves_bytes (PollWrite (Ready (Inr n))) \<longleftrightarrow> 0 < n"
| "moves_bytes _ \<longleftrightarrow> False"

definition half_closed :: "CopyPoll list \<Rightarrow> bool" where
  "half_closed ps \<longleftrightarrow> (\<exists>p \<in> set ps. list_ex sees_eof (cp_ops p))"

text \<open>
  The times at which the silence starts anew: the poll that sees the first end of stream, and every
  later one that moves bytes.
\<close>

definition progress_times :: "CopyPoll list \<Rightarrow> nat list" where
  "progress_times ps =
     map (\<lambda>i. cp_now (ps ! i))
       (filter (\<lambda>i. half_closed (take (Suc i) ps) \<and> (half_closed (take i ps) \<longrightarrow> list_ex moves_bytes (cp_ops (ps ! i))))
          [0..<length ps])"

definition silent :: "nat \<Rightarrow> CopyPoll list \<Rightarrow> bool" where
  "silent grace ps \<longleftrightarrow> half_closed ps \<and> (\<forall>t \<in> set (progress_times ps). t + grace \<le> cp_now (last ps))"

definition ends_at :: "nat \<Rightarrow> CopyPoll list \<Rightarrow> nat \<Rightarrow> bool" where
  "ends_at grace ps i \<longleftrightarrow> cp_result (ps ! i) \<noteq> None \<or> silent grace (take (Suc i) ps)"

definition poll_outcome :: "CopyPoll \<Rightarrow> io_error + nat \<times> nat" where
  "poll_outcome p = (case cp_result p of Some result \<Rightarrow> result | None \<Rightarrow> Inl half_close_timeout)"

definition relay_spec :: "nat \<Rightarrow> CopyPoll list \<Rightarrow> (io_error + nat \<times> nat) option" where
  "relay_spec grace ps = map_option (\<lambda>i. poll_outcome (ps ! i)) (find (ends_at grace ps) [0..<length ps])"

section \<open>Lemmas\<close>

lemma tracked_flags [simp]:
  "hc_eof (tracked op s) \<longleftrightarrow> hc_eof s \<or> sees_eof op" "hc_activity (tracked op s) \<longleftrightarrow> hc_activity s \<or> moves_bytes op"
  "hc_armed (tracked op s) = hc_armed s" "hc_deadline (tracked op s) = hc_deadline s"
  by (cases op rule: sees_eof.cases; auto simp: tracked_poll_read_def tracked_poll_write_def split: Poll.split sum.split)+

lemma fold_tracked [simp]:
  "hc_eof (fold tracked ops s) \<longleftrightarrow> hc_eof s \<or> list_ex sees_eof ops"
  "hc_activity (fold tracked ops s) \<longleftrightarrow> hc_activity s \<or> list_ex moves_bytes ops"
  "hc_armed (fold tracked ops s) = hc_armed s" "hc_deadline (fold tracked ops s) = hc_deadline s"
  by (induction ops arbitrary: s) auto

lemma half_closed_snoc: "half_closed (ps @ [p]) \<longleftrightarrow> half_closed ps \<or> list_ex sees_eof (cp_ops p)"
  by (auto simp: half_closed_def)

lemma progress_times_snoc:
  "progress_times (ps @ [p]) = progress_times ps @
     (if half_closed (ps @ [p]) \<and> (half_closed ps \<longrightarrow> list_ex moves_bytes (cp_ops p)) then [cp_now p] else [])"
proof -
  let ?P = "\<lambda>ps i. half_closed (take (Suc i) ps) \<and> (half_closed (take i ps) \<longrightarrow> list_ex moves_bytes (cp_ops (ps ! i)))"
  have "filter (?P (ps @ [p])) [0..<length ps] = filter (?P ps) [0..<length ps]"
    by (intro filter_cong) (auto simp: nth_append)
  moreover have "map (\<lambda>i. cp_now ((ps @ [p]) ! i)) (filter (?P ps) [0..<length ps]) =
      map (\<lambda>i. cp_now (ps ! i)) (filter (?P ps) [0..<length ps])"
    by (intro map_cong) (auto simp: nth_append)
  ultimately show ?thesis by (simp add: progress_times_def)
qed

lemma progress_times_sub: "set (progress_times ps) \<subseteq> cp_now ` set ps"
  by (auto simp: progress_times_def)

text \<open>The timer after a history of pending polls.\<close>

definition timer_ok :: "nat \<Rightarrow> CopyPoll list \<Rightarrow> RelayTimer \<Rightarrow> bool" where
  "timer_ok grace ps s \<longleftrightarrow> \<not> hc_activity s \<and> hc_eof s = half_closed ps \<and> hc_armed s = half_closed ps \<and>
     (half_closed ps \<longrightarrow> (\<forall>t. hc_deadline s \<le> t \<longleftrightarrow> (\<forall>u \<in> set (progress_times ps). u + grace \<le> t)))"

lemma relay_poll_step:
  assumes "timer_ok grace ps s" and "\<forall>q \<in> set ps. cp_now q \<le> cp_now p" and "cp_result p = None"
  shows "(silent grace (ps @ [p]) \<and> fst (relay_poll grace p s) = Some (Inl half_close_timeout)) \<or>
    (\<not> silent grace (ps @ [p]) \<and> fst (relay_poll grace p s) = None \<and> timer_ok grace (ps @ [p]) (snd (relay_poll grace p s)))"
proof -
  let ?s = "fold tracked (cp_ops p) s" and ?new = "half_closed (ps @ [p])"
  let ?reset = "half_closed ps \<longrightarrow> list_ex moves_bytes (cp_ops p)"
  have before: "\<forall>u \<in> set (progress_times ps). u \<le> cp_now p" using assms(2) progress_times_sub [of ps] by auto
  have eof: "hc_eof ?s = ?new" using assms(1) by (simp add: timer_ok_def half_closed_snoc)
  have eof': "hc_eof s \<or> list_ex sees_eof (cp_ops p) \<longleftrightarrow> ?new" using eof by simp
  have armed: "\<not> hc_armed ?s \<or> hc_activity ?s \<longleftrightarrow> ?reset" using assms(1) by (auto simp: timer_ok_def)
  define d where "d = (if ?reset then cp_now p + grace else hc_deadline s)"
  have d: "d \<le> t \<longleftrightarrow> (\<forall>u \<in> set (progress_times (ps @ [p])). u + grace \<le> t)" if "?new" for t
  proof (cases ?reset)
    case True
    then show ?thesis using that before by (auto simp: d_def progress_times_snoc)
  next
    case False
    then show ?thesis using assms(1) by (simp add: d_def progress_times_snoc timer_ok_def)
  qed
  have step: "relay_poll grace p s =
      (if \<not> ?new then (None, ?s\<lparr>hc_activity := False\<rparr>)
       else (if d \<le> cp_now p then Some (Inl half_close_timeout) else None,
             ?s\<lparr>hc_activity := False, hc_deadline := d, hc_armed := True\<rparr>))"
    using armed assms(1) by (cases ?reset) (auto simp: relay_poll_def assms(3) eof d_def Let_def timer_ok_def half_closed_snoc)
  show ?thesis
  proof (cases ?new)
    case True
    then show ?thesis using d [OF True] by (simp add: step silent_def timer_ok_def eof')
  next
    case False
    then show ?thesis using assms(1) by (simp add: step silent_def timer_ok_def half_closed_snoc)
  qed
qed

lemma relay_polls_spec:
  "timer_ok grace done s \<Longrightarrow> \<forall>p \<in> set done. cp_result p = None \<Longrightarrow> sorted (map cp_now (done @ ps)) \<Longrightarrow>
   relay_polls grace s ps =
     map_option (\<lambda>i. poll_outcome ((done @ ps) ! i))
       (find (ends_at grace (done @ ps)) [length done..<length done + length ps])"
proof (induction ps arbitrary: "done" s)
  case (Cons p ps)
  have le: "\<forall>q \<in> set done. cp_now q \<le> cp_now p" using Cons.prems(3) by (auto simp: sorted_append)
  have upt: "[length done..<Suc (length done + length ps)] = length done # [Suc (length done)..<Suc (length done + length ps)]"
    by (subst upt_conv_Cons) simp_all
  have here: "ends_at grace (done @ p # ps) (length done) \<longleftrightarrow> cp_result p \<noteq> None \<or> silent grace (done @ [p])"
    by (simp add: ends_at_def)
  obtain r s' where rp: "relay_poll grace p s = (r, s')" by fastforce
  show ?case
  proof (cases "cp_result p")
    case None
    from relay_poll_step [OF Cons.prems(1) le None] show ?thesis
    proof (elim disjE conjE)
      assume "silent grace (done @ [p])" "fst (relay_poll grace p s) = Some (Inl half_close_timeout)"
      then show ?thesis by (simp add: upt here rp poll_outcome_def None del: upt_Suc)
    next
      assume a: "\<not> silent grace (done @ [p])" "fst (relay_poll grace p s) = None"
        "timer_ok grace (done @ [p]) (snd (relay_poll grace p s))"
      from Cons.IH [OF a(3)] Cons.prems(2,3) None a(1,2) show ?thesis
        by (simp add: upt here rp del: upt_Suc)
    qed
  next
    case (Some x)
    then have "r = Some x" using rp by (simp add: relay_poll_def Let_def)
    then show ?thesis by (simp add: upt here rp Some poll_outcome_def del: upt_Suc)
  qed
qed simp

lemma copy_is_spec:
  assumes "sorted (map cp_now ps)"
  shows "copy_bidirectional (Some grace) start ps = relay_spec grace ps"
proof -
  have "timer_ok grace [] \<lparr>hc_eof = False, hc_activity = False, hc_armed = False, hc_deadline = start + grace\<rparr>"
    by (simp add: timer_ok_def half_closed_def)
  from relay_polls_spec [OF this, of ps] assms show ?thesis
    by (simp add: copy_bidirectional_def relay_spec_def)
qed

lemma relay_spec_timeout_iff:
  assumes "\<forall>p \<in> set ps. \<forall>e. cp_result p = Some (Inl e) \<longrightarrow> \<not> is_half_close_timeout e"
  shows "(\<exists>e. relay_spec grace ps = Some (Inl e) \<and> is_half_close_timeout e) \<longleftrightarrow>
    (\<exists>i < length ps. silent grace (take (Suc i) ps) \<and> (\<forall>j \<le> i. cp_result (ps ! j) = None))"
proof -
  have m: "is_half_close_timeout half_close_timeout" by (simp add: is_half_close_timeout_def half_close_timeout_def)
  show ?thesis
  proof (cases "find (ends_at grace ps) [0..<length ps]")
    case None
    then have "\<forall>i < length ps. \<not> ends_at grace ps i" by (simp add: find_None_iff)
    then show ?thesis by (auto simp: relay_spec_def None ends_at_def)
  next
    case (Some i)
    then have i: "i < length ps" "ends_at grace ps i" "\<And>j. j < i \<Longrightarrow> \<not> ends_at grace ps j" by (auto simp: find_Some_iff)
    have "cp_result (ps ! i) = None \<longleftrightarrow>
        (\<exists>j < length ps. silent grace (take (Suc j) ps) \<and> (\<forall>k \<le> j. cp_result (ps ! k) = None))"
      using i unfolding ends_at_def by (metis le_less linorder_not_less)
    then show ?thesis using Some m assms i(1) by (cases "cp_result (ps ! i)") (auto simp: relay_spec_def poll_outcome_def)
  qed
qed

lemma plain_copy_result: "plain_copy ps = Some r \<Longrightarrow> \<exists>p \<in> set ps. cp_result p = Some r"
  by (induction ps) (auto split: option.splits)

section \<open>Properties\<close>

text \<open>
  C9: The half-close timer is exact. For any history of polls in the order of time, the relay ends at
  the first poll at which the copy is done, with its result, or, failing that, at which a stream has
  ended and no byte has moved, in either direction, for the grace period since that end or the last
  progress; until then it runs. So a connection without an end of stream is never cut, however idle.
\<close>

theorem half_close_timer_exact:
  assumes "sorted (map cp_now ps)"
  shows "copy_bidirectional (Some grace) start ps = relay_spec grace ps"
  by (rule copy_is_spec [OF assms])

text \<open>
  A connection is reset only for silence. With the copy's own errors free of the marker, the relay
  of a connection aborts both sockets exactly when splicing is off, a half-close timeout is configured
  and at some poll before the copy is done the connection has been half-closed and silent for that
  many seconds; it then reports this timeout and counts it, and it never counts it otherwise.
\<close>

theorem relay_resets_only_silent:
  assumes "sorted (map cp_now ps)" and "\<forall>p \<in> set ps. \<forall>e. cp_result p = Some (Inl e) \<longrightarrow> \<not> is_half_close_timeout e"
    and "\<not> aborted_with_rst fx" and "relay_tcp_streams use_splice (half_close_grace secs) sr start ps fx = (r, fx')"
  shows "(aborted_with_rst fx' \<longleftrightarrow> \<not> use_splice \<and> 0 < secs \<and>
      (\<exists>i < length ps. silent (from_secs secs) (take (Suc i) ps) \<and> (\<forall>j \<le> i. cp_result (ps ! j) = None))) \<and>
    (aborted_with_rst fx' \<longleftrightarrow> r = Some (Inr (HalfCloseTimeout secs))) \<and>
    tcp_relay_half_close_timeouts fx' = tcp_relay_half_close_timeouts fx + (if aborted_with_rst fx' then 1 else 0)"
proof (cases "use_splice \<or> secs = 0")
  case True
  have "\<not> is_half_close_timeout e" if "plain_copy ps = Some (Inl e)" for e
    using plain_copy_result [OF that] assms(2) by blast
  with True assms(3,4) show ?thesis
    by (auto simp: relay_tcp_streams_def half_close_grace_def copy_bidirectional_def split: if_splits option.splits sum.splits)
next
  case False
  note iff = relay_spec_timeout_iff [OF assms(2), of "from_secs secs"]
  have "relay_tcp_streams use_splice (half_close_grace secs) sr start ps fx =
      (case relay_spec (from_secs secs) ps of
         None \<Rightarrow> (None, fx)
       | Some (Inr (sent, recv)) \<Rightarrow> (Some (Inr (Finished sent recv)), fx)
       | Some (Inl e) \<Rightarrow>
           if is_half_close_timeout e
           then (Some (Inr (HalfCloseTimeout secs)),
                 fx\<lparr>tcp_relay_half_close_timeouts := tcp_relay_half_close_timeouts fx + 1, aborted_with_rst := True\<rparr>)
           else (Some (Inl (CopyError e)), fx\<lparr>tcp_relay_copy_errors := tcp_relay_copy_errors fx + 1\<rparr>))"
    using False unfolding relay_tcp_streams_def half_close_grace_def
    by (cases "relay_spec (from_secs secs) ps")
      (simp_all add: copy_is_spec [OF assms(1)] from_secs_def split: sum.split)
  with assms(3,4) False iff show ?thesis
    by (cases "relay_spec (from_secs secs) ps") (auto split: sum.splits if_splits)
qed

section \<open>Witnesses\<close>

text \<open>An end of stream at 0, bytes in the other direction at 300, then silence.\<close>

definition silent_polls :: "CopyPoll list" where
  "silent_polls =
     [\<lparr>cp_now = 0, cp_ops = [PollRead 8192 (Ready (Inr 0)), PollShutdown (Ready (Inr ()))], cp_result = None\<rparr>,
      \<lparr>cp_now = 300, cp_ops = [PollRead 8192 (Ready (Inr 10)), PollWrite (Ready (Inr 10))], cp_result = None\<rparr>,
      \<lparr>cp_now = 1299, cp_ops = [PollRead 8192 Pending], cp_result = None\<rparr>,
      \<lparr>cp_now = 1300, cp_ops = [PollRead 8192 Pending], cp_result = None\<rparr>]"

lemma silent_polls_sorted: "sorted (map cp_now silent_polls)"
  by (simp add: silent_polls_def)

lemma silent_polls_spec: "relay_spec 1000 silent_polls = Some (Inl half_close_timeout)" "relay_spec 1000 (take 3 silent_polls) = None"
  by (simp_all add: silent_polls_def relay_spec_def ends_at_def silent_def half_closed_def progress_times_def
      poll_outcome_def nth_Cons') (rule exI [of _ 300], simp)

theorem half_close_timer_exact_witness:
  "copy_bidirectional (Some 1000) 0 silent_polls = Some (Inl half_close_timeout)"
  using half_close_timer_exact [OF silent_polls_sorted, of 1000 0] silent_polls_spec(1) by simp

theorem relay_resets_only_silent_witness:
  "aborted_with_rst (snd (relay_tcp_streams False (half_close_grace 1) None 0 silent_polls
     \<lparr>tcp_relay_half_close_timeouts = 0, tcp_relay_copy_errors = 0, aborted_with_rst = False\<rparr>))"
proof -
  let ?fx = "\<lparr>tcp_relay_half_close_timeouts = 0, tcp_relay_copy_errors = 0, aborted_with_rst = False\<rparr>"
  have "\<forall>p \<in> set silent_polls. \<forall>e. cp_result p = Some (Inl e) \<longrightarrow> \<not> is_half_close_timeout e"
    and r: "\<forall>j \<le> 3. cp_result (silent_polls ! j) = None"
    by (simp_all add: silent_polls_def le_Suc_eq numeral_3_eq_3)
  moreover have "3 < length silent_polls \<and> silent (from_secs 1) (take (Suc 3) silent_polls)"
    by (simp add: silent_polls_def silent_def half_closed_def progress_times_def from_secs_def nth_Cons')
  ultimately show ?thesis
    using relay_resets_only_silent [OF silent_polls_sorted, of ?fx False 1 None 0] by (auto simp: prod_eq_iff)
qed

end
