(* ===== verification/Lifecycle.thy ===== *)
theory Lifecycle
  imports Udp_Runtime Sockets
begin

text \<open>
  Generations of the process state: \<open>TaskGuard\<close> (\<open>util.rs\<close>), the tasks a generation starts and how it
  is stopped (\<open>state.rs\<close>) and the reload of the configuration on SIGHUP (\<open>main.rs\<close>). Tasks are numbers;
  a running process is the current generation, those it replaced, and the set of running tasks. The
  kernel that binds the sockets, given those the new generation has made already, and which tasks exit
  in time are the record \<open>LifeEnv\<close>. The properties are that a reload is atomic and that the listeners of
  the running generation do not make it fail.
\<close>

section \<open>Task guards (util.rs)\<close>

record Tasks =
  tk_running :: "nat set"
  tk_next :: nat

record TaskGuard =
  tg_cancelled :: bool
  tg_handles :: "nat list"

definition task_guard_new :: TaskGuard where
  "task_guard_new = \<lparr>tg_cancelled = False, tg_handles = []\<rparr>"

definition tg_spawn :: "TaskGuard \<Rightarrow> Tasks \<Rightarrow> TaskGuard \<times> Tasks" where
  "tg_spawn g ts =
     (g\<lparr>tg_handles := filter (\<lambda>h. h \<in> tk_running ts) (tg_handles g) @ [tk_next ts]\<rparr>,
      ts\<lparr>tk_running := insert (tk_next ts) (tk_running ts), tk_next := tk_next ts + 1\<rparr>)"

text \<open>
  Awaiting the handles up to a deadline: once a task is overdue, it and all that follow are aborted.
  An aborted task is awaited too, so in the end none of them runs.
\<close>

fun await_handles :: "(nat \<Rightarrow> bool) \<Rightarrow> bool \<Rightarrow> bool \<Rightarrow> nat list \<Rightarrow> Tasks \<Rightarrow> bool \<times> Tasks" where
  "await_handles in_time past ok [] ts = (ok, ts)"
| "await_handles in_time past ok (h # hs) ts =
     (let ts = ts\<lparr>tk_running := tk_running ts - {h}\<rparr>
      in if past \<or> \<not> in_time h then await_handles in_time True False hs ts
         else await_handles in_time past ok hs ts)"

definition tg_shutdown :: "(nat \<Rightarrow> bool) \<Rightarrow> TaskGuard \<Rightarrow> Tasks \<Rightarrow> bool \<times> TaskGuard \<times> Tasks" where
  "tg_shutdown in_time g ts =
     (case await_handles in_time False True (tg_handles g) ts of
        (ok, ts) \<Rightarrow> (ok, g\<lparr>tg_cancelled := True, tg_handles := []\<rparr>, ts))"

section \<open>Generations (state.rs)\<close>

text \<open>The guards among the fields of \<open>AppState\<close>.\<close>

datatype GuardName =
  TcpListeners | UdpListeners | PortForwards | UpstreamScores | TcpHandlers | HealthCheck | UdpGc |
  ScoreDebugPrinter | RelativeScore

record ('n4, 'n6) Generation =
  gn_app :: "('n4, 'n6) AppBuild"
  gn_udp :: UdpRuntime
  gn_guards :: "GuardName \<Rightarrow> TaskGuard"

definition generation_new :: "('n4, 'n6) AppBuild \<Rightarrow> ('n4, 'n6) Generation" where
  "generation_new ab = \<lparr>gn_app = ab, gn_udp = udp_runtime_new, gn_guards = \<lambda>_. task_guard_new\<rparr>"

record LifeEnv =
  le_parse_sockaddr :: "rstr \<Rightarrow> SocketAddr option"
  le_kernel :: "socket list \<Rightarrow> kernel"
  le_debug_enabled :: bool
  le_in_time :: "nat \<Rightarrow> bool"
  le_udp_in_time :: bool

datatype LifeError =
  ConfigUnreadable | ConfigInvalid | ConfigRejected ConfigError | FilterInvalid | BuildFailed "BuildError fault" |
  InvalidListen | ListenFailed SysCall | InvalidForward rstr | ForwardBindFailed SysCall

definition gn_config :: "('n4, 'n6) Generation \<Rightarrow> Config" where
  "gn_config gen = st_config (ab_state (gn_app gen))"

definition spawn_in :: "GuardName \<Rightarrow> ('n4, 'n6) Generation \<times> Tasks \<Rightarrow> ('n4, 'n6) Generation \<times> Tasks" where
  "spawn_in name s =
     (case s of (gen, ts) \<Rightarrow>
        case tg_spawn (gn_guards gen name) ts of
          (g, ts) \<Rightarrow> (gen\<lparr>gn_guards := (gn_guards gen)(name := g)\<rparr>, ts))"

definition spawn_if :: "bool \<Rightarrow> GuardName \<Rightarrow> ('n4, 'n6) Generation \<times> Tasks \<Rightarrow> ('n4, 'n6) Generation \<times> Tasks" where
  "spawn_if b name s = (if b then spawn_in name s else s)"

definition opt_list :: "'a option \<Rightarrow> 'a list" where
  "opt_list x = (case x of None \<Rightarrow> [] | Some y \<Rightarrow> [y])"

text \<open>The sockets made are returned, for the kernel to know them when the next ones are bound.\<close>

definition spawn_listener_tasks ::
  "LifeEnv \<Rightarrow> ('n4, 'n6) Generation \<times> Tasks \<Rightarrow> (LifeError, socket list) rres \<times> ('n4, 'n6) Generation \<times> Tasks" where
  "spawn_listener_tasks env s =
     (let c = gn_config (fst s)
      in case parse_listen_addr (le_parse_sockaddr env) (c_listen c) of
           Inl _ \<Rightarrow> (Inl (Fail InvalidListen), s)
         | Inr (listen_ip, listen_port) \<Rightarrow>
             (case map_err ListenFailed (create_tproxy_tcp_listeners (le_kernel env) listen_ip listen_port) of
                Inl e \<Rightarrow> (Inl e, s)
              | Inr (tcp_v4, tcp_v6) \<Rightarrow>
                  let s = spawn_if (tcp_v6 \<noteq> None) TcpListeners (spawn_if (tcp_v4 \<noteq> None) TcpListeners s);
                      made = opt_list tcp_v4 @ opt_list tcp_v6
                  in if c_udp c
                     then case map_err ListenFailed
                                 (create_tproxy_udp_sockets (\<lambda>more. le_kernel env (more @ made)) listen_ip listen_port) of
                            Inl e \<Rightarrow> (Inl e, s)
                          | Inr (udp_v4, udp_v6) \<Rightarrow>
                              (Inr (opt_list udp_v4 @ opt_list udp_v6 @ made),
                               spawn_if (udp_v6 \<noteq> None) UdpListeners (spawn_if (udp_v4 \<noteq> None) UdpListeners s))
                     else (Inr made, s)))"

definition bind_forward :: "LifeEnv \<Rightarrow> socket list \<Rightarrow> PortForwardProto \<Rightarrow> SocketAddr \<Rightarrow> (SysCall, socket list) rres" where
  "bind_forward env made network bind_addr =
     (case network of
        Tcp \<Rightarrow> bindR (bind_tcp_listener (le_kernel env made) bind_addr True False None 1024) (\<lambda>t. Inr (t # made))
      | Udp \<Rightarrow> bindR (bind_port_forward_udp_listener (le_kernel env made) bind_addr) (\<lambda>u. Inr (u # made))
      | Both \<Rightarrow>
          bindR (bind_tcp_listener (le_kernel env made) bind_addr True False None 1024) (\<lambda>t.
          bindR (bind_port_forward_udp_listener (le_kernel env (t # made)) bind_addr) (\<lambda>u. Inr (u # t # made))))"

text \<open>First every socket is bound; only then the tasks are started.\<close>

fun prepare_forwards :: "LifeEnv \<Rightarrow> socket list \<Rightarrow> PortForward list \<Rightarrow> (LifeError, PortForwardProto list) rres" where
  "prepare_forwards env made [] = Inr []"
| "prepare_forwards env made (pf # pfs) =
     bindR (ok_or (le_parse_sockaddr env (pf_bind pf)) (InvalidForward (pf_bind pf))) (\<lambda>bind_addr.
     bindR (ok_or (le_parse_sockaddr env (pf_remote pf)) (InvalidForward (pf_remote pf))) (\<lambda>remote_addr.
     bindR (map_err ForwardBindFailed (bind_forward env made (pf_network pf) bind_addr)) (\<lambda>made.
     bindR (prepare_forwards env made pfs) (\<lambda>rest. Inr (pf_network pf # rest)))))"

definition forward_tasks :: "PortForwardProto \<Rightarrow> nat" where
  "forward_tasks proto = (case proto of Both \<Rightarrow> 2 | _ \<Rightarrow> 1)"

definition spawn_port_forward_tasks ::
  "LifeEnv \<Rightarrow> socket list \<Rightarrow> ('n4, 'n6) Generation \<times> Tasks \<Rightarrow>
   (LifeError, unit) rres \<times> ('n4, 'n6) Generation \<times> Tasks" where
  "spawn_port_forward_tasks env made s =
     (case prepare_forwards env made (c_port_forward (gn_config (fst s))) of
        Inl e \<Rightarrow> (Inl e, s)
      | Inr prepared \<Rightarrow> (Inr (), (spawn_in PortForwards ^^ sum_list (map forward_tasks prepared)) s))"

definition spawn_background_tasks :: "LifeEnv \<Rightarrow> ('n4, 'n6) Generation \<times> Tasks \<Rightarrow> ('n4, 'n6) Generation \<times> Tasks" where
  "spawn_background_tasks env s =
     (let c = gn_config (fst s);
          ups = length (us_all_items (ab_upstreams (gn_app (fst s))));
          s = spawn_if (0 < c_health_check_interval_secs c) HealthCheck s;
          s = (if c_disable_upstream_score c then s
               else
                 let s = (spawn_in UpstreamScores ^^ ups) s;
                     s = spawn_if (c_enable_relative_scoring c) RelativeScore s
                 in spawn_if (0 < c_upstream_score_debug_interval_secs c \<and> le_debug_enabled env) ScoreDebugPrinter s)
      in spawn_in UdpGc s)"

definition spawn_all_tasks ::
  "LifeEnv \<Rightarrow> ('n4, 'n6) Generation \<times> Tasks \<Rightarrow> (LifeError, unit) rres \<times> ('n4, 'n6) Generation \<times> Tasks" where
  "spawn_all_tasks env s =
     (case spawn_listener_tasks env s of
        (Inl e, s) \<Rightarrow> (Inl e, s)
      | (Inr made, s) \<Rightarrow>
          (case spawn_port_forward_tasks env made s of
             (Inl e, s) \<Rightarrow> (Inl e, s)
           | (Inr _, s) \<Rightarrow> (Inr (), spawn_background_tasks env s)))"

definition shutdown_in ::
  "LifeEnv \<Rightarrow> GuardName \<Rightarrow> bool \<times> ('n4, 'n6) Generation \<times> Tasks \<Rightarrow> bool \<times> ('n4, 'n6) Generation \<times> Tasks" where
  "shutdown_in env name s =
     (case s of (ok, gen, ts) \<Rightarrow>
        case tg_shutdown (le_in_time env) (gn_guards gen name) ts of
          (ok', g, ts) \<Rightarrow> (ok \<and> ok', gen\<lparr>gn_guards := (gn_guards gen)(name := g)\<rparr>, ts))"

definition udp_shutdown ::
  "LifeEnv \<Rightarrow> bool \<times> ('n4, 'n6) Generation \<times> Tasks \<Rightarrow> bool \<times> ('n4, 'n6) Generation \<times> Tasks" where
  "udp_shutdown env s =
     (case s of (ok, gen, ts) \<Rightarrow> (ok \<and> le_udp_in_time env, gen\<lparr>gn_udp := rt_clear (rt_close (gn_udp gen))\<rparr>, ts))"

definition shutdown_for_reload ::
  "LifeEnv \<Rightarrow> ('n4, 'n6) Generation \<times> Tasks \<Rightarrow> bool \<times> ('n4, 'n6) Generation \<times> Tasks" where
  "shutdown_for_reload env s =
     (let s = (True, s);
          s = shutdown_in env TcpListeners s;
          s = shutdown_in env UdpListeners s;
          s = shutdown_in env PortForwards s;
          s = shutdown_in env UdpGc s;
          s = udp_shutdown env s;
          s = shutdown_in env UpstreamScores s
      in shutdown_in env HealthCheck s)"

definition shutdown_for_exit ::
  "LifeEnv \<Rightarrow> ('n4, 'n6) Generation \<times> Tasks \<Rightarrow> bool \<times> ('n4, 'n6) Generation \<times> Tasks" where
  "shutdown_for_exit env s = shutdown_in env TcpHandlers (shutdown_for_reload env s)"

section \<open>Reload (main.rs)\<close>

record ('n4, 'n6) Process =
  pr_gen :: "('n4, 'n6) Generation"
  pr_old :: "('n4, 'n6) Generation list"
  pr_tasks :: Tasks

text \<open>
  \<open>text\<close> is the configuration file as read, \<open>from_toml\<close> its deserialisation, \<open>filter_ok\<close> whether the log
  filter is accepted, and \<open>accepted\<close> the number of connections that the listeners of the new
  generation accept before they are stopped or the reload is over.
\<close>

definition read_config ::
  "LifeEnv \<Rightarrow> BuildEnv \<Rightarrow> ('n4, 'n6) net_ops \<Rightarrow> (rstr \<Rightarrow> Config option) \<Rightarrow> rstr option \<Rightarrow> (LifeError, Config) rres" where
  "read_config env benv N from_toml config_text =
     bindR (ok_or config_text ConfigUnreadable) (\<lambda>text.
     bindR (ok_or (from_toml text) ConfigInvalid) (\<lambda>c.
     let c = normalize_geosite_tags (be_to_lowercase benv) c in
     bindR (map_err ConfigRejected (validate N (le_parse_sockaddr env) c)) (\<lambda>_. Inr c)))"

definition build_config ::
  "BuildEnv \<Rightarrow> ('n4, 'n6) net_ops \<Rightarrow> (Config \<Rightarrow> bool) \<Rightarrow> Config \<Rightarrow> (LifeError, ('n4, 'n6) AppBuild) rres" where
  "build_config benv N filter_ok c =
     (if \<not> filter_ok c then Inl (Fail FilterInvalid)
      else case app_build benv N c of Inl e \<Rightarrow> Inl (Fail (BuildFailed e)) | Inr ab \<Rightarrow> Inr ab)"

definition load_config ::
  "LifeEnv \<Rightarrow> BuildEnv \<Rightarrow> ('n4, 'n6) net_ops \<Rightarrow> (rstr \<Rightarrow> Config option) \<Rightarrow> (Config \<Rightarrow> bool) \<Rightarrow> rstr option \<Rightarrow>
   (LifeError, ('n4, 'n6) AppBuild) rres" where
  "load_config env benv N from_toml filter_ok config_text =
     bindR (read_config env benv N from_toml config_text) (build_config benv N filter_ok)"

lemmas load_defs = load_config_def read_config_def build_config_def Let_def

definition reload_config ::
  "LifeEnv \<Rightarrow> BuildEnv \<Rightarrow> ('n4, 'n6) net_ops \<Rightarrow> (rstr \<Rightarrow> Config option) \<Rightarrow> (Config \<Rightarrow> bool) \<Rightarrow> rstr option \<Rightarrow> nat \<Rightarrow>
   ('n4, 'n6) Process \<Rightarrow> (LifeError, unit) rres \<times> ('n4, 'n6) Process" where
  "reload_config env benv N from_toml filter_ok config_text accepted p =
     (case load_config env benv N from_toml filter_ok config_text of
        Inl e \<Rightarrow> (Inl e, p)
      | Inr ab \<Rightarrow>
          (case spawn_all_tasks env (generation_new ab, pr_tasks p) of
             (r, s) \<Rightarrow>
               let s = (spawn_in TcpHandlers ^^ accepted) s
               in case r of
                    Inl e \<Rightarrow> (Inl e, p\<lparr>pr_tasks := snd (snd (shutdown_for_exit env s))\<rparr>)
                  | Inr _ \<Rightarrow>
                      (case shutdown_for_reload env (pr_gen p, snd s) of
                         (_, old, ts) \<Rightarrow> (Inr (), p\<lparr>pr_gen := fst s, pr_old := old # pr_old p, pr_tasks := ts\<rparr>))))"

section \<open>Running processes\<close>

text \<open>
  A process starts with one generation; then tasks end by themselves, connections are accepted, and
  the configuration is reloaded.
\<close>

inductive process :: "('n4, 'n6) net_ops \<Rightarrow> ('n4, 'n6) Process \<Rightarrow> bool" for N where
  start: "spawn_all_tasks env (generation_new ab, \<lparr>tk_running = {}, tk_next = 0\<rparr>) = (Inr (), gen, ts) \<Longrightarrow>
    process N \<lparr>pr_gen = gen, pr_old = [], pr_tasks = ts\<rparr>"
| ended: "process N p \<Longrightarrow> process N (p\<lparr>pr_tasks := (pr_tasks p)\<lparr>tk_running := tk_running (pr_tasks p) - {t}\<rparr>\<rparr>)"
| accept: "process N p \<Longrightarrow> spawn_in TcpHandlers (pr_gen p, pr_tasks p) = (gen, ts) \<Longrightarrow>
    process N (p\<lparr>pr_gen := gen, pr_tasks := ts\<rparr>)"
| reload: "process N p \<Longrightarrow> reload_config env benv N from_toml filter_ok config_text accepted p = (r, p') \<Longrightarrow> process N p'"

section \<open>Lemmas on guards\<close>

abbreviation handles_of :: "('n4, 'n6) Generation \<Rightarrow> GuardName \<Rightarrow> nat set" where
  "handles_of gen name \<equiv> set (tg_handles (gn_guards gen name))"

lemma await_handles_tasks:
  "tk_running (snd (await_handles in_time past ok hs ts)) = tk_running ts - set hs"
  "tk_next (snd (await_handles in_time past ok hs ts)) = tk_next ts"
  by (induction hs arbitrary: past ok ts) (auto simp: Let_def)

lemma shutdown_in_effect:
  assumes "shutdown_in env name (ok, gen, ts) = (ok', gen', ts')"
  shows "tk_running ts' = tk_running ts - handles_of gen name" and "tk_next ts' = tk_next ts"
    and "handles_of gen' other = (if other = name then {} else handles_of gen other)" and "gn_app gen' = gn_app gen"
  using assms await_handles_tasks [of "le_in_time env" False True "tg_handles (gn_guards gen name)" ts]
  by (auto simp: shutdown_in_def tg_shutdown_def split: prod.splits)

text \<open>A generation of which the guards in a set have been shut down.\<close>

definition stopped ::
  "GuardName set \<Rightarrow> ('n4, 'n6) Generation \<times> Tasks \<Rightarrow> ('n4, 'n6) Generation \<times> Tasks \<Rightarrow> bool" where
  "stopped S s0 s \<longleftrightarrow>
     tk_running (snd s) = tk_running (snd s0) - (\<Union>g \<in> S. handles_of (fst s0) g) \<and> tk_next (snd s) = tk_next (snd s0) \<and>
     (\<forall>g. handles_of (fst s) g = (if g \<in> S then {} else handles_of (fst s0) g))"

lemma stopped_start: "stopped {} s0 (snd (True, s0))"
  by (simp add: stopped_def)

lemma stopped_shutdown: "stopped S s0 (snd s) \<Longrightarrow> stopped (insert name S) s0 (snd (shutdown_in env name s))"
proof -
  assume st: "stopped S s0 (snd s)"
  obtain ok gen ts where s: "s = (ok, gen, ts)" by (cases s) auto
  obtain ok' gen' ts' where r: "shutdown_in env name s = (ok', gen', ts')" by (cases "shutdown_in env name s") auto
  note eff = shutdown_in_effect [OF r [unfolded s]]
  note st' = st [unfolded stopped_def s snd_conv fst_conv]
  have "tk_running ts' = tk_running (snd s0) - (\<Union>g \<in> insert name S. handles_of (fst s0) g)"
    unfolding eff(1) using st' by auto
  then show ?thesis unfolding stopped_def r snd_conv fst_conv eff(2,3) using st' by auto
qed

lemma stopped_udp: "stopped S s0 (snd s) \<Longrightarrow> stopped S s0 (snd (udp_shutdown env s))"
  by (cases s) (simp add: stopped_def udp_shutdown_def)

definition reload_stops :: "GuardName set" where
  "reload_stops = {TcpListeners, UdpListeners, PortForwards, UdpGc, UpstreamScores, HealthCheck}"

lemma shutdown_for_reload_stops: "stopped reload_stops s (snd (shutdown_for_reload env s))"
proof -
  have "stopped (insert HealthCheck (insert UpstreamScores (insert UdpGc (insert PortForwards (insert UdpListeners
      (insert TcpListeners {})))))) s (snd (shutdown_for_reload env s))"
    unfolding shutdown_for_reload_def Let_def by (intro stopped_shutdown stopped_udp stopped_start)
  moreover have "insert HealthCheck (insert UpstreamScores (insert UdpGc (insert PortForwards (insert UdpListeners
      (insert TcpListeners {}))))) = reload_stops" by (auto simp: reload_stops_def)
  ultimately show ?thesis by simp
qed

lemma shutdown_for_exit_stops: "stopped (insert TcpHandlers reload_stops) s (snd (shutdown_for_exit env s))"
  unfolding shutdown_for_exit_def by (intro stopped_shutdown shutdown_for_reload_stops)

section \<open>Lemmas on the tasks of a new generation\<close>

text \<open>
  Next to the tasks \<open>base\<close> that ran before task \<open>n0\<close>, exactly the tasks of the generation run; only the
  guards in \<open>G\<close> have any, and no two guards share one.
\<close>

definition owns :: "nat \<Rightarrow> nat set \<Rightarrow> GuardName set \<Rightarrow> ('n4, 'n6) Generation \<times> Tasks \<Rightarrow> bool" where
  "owns n0 base G s \<longleftrightarrow>
     tk_running (snd s) = base \<union> (\<Union>g. handles_of (fst s) g) \<and> base \<subseteq> {..<n0} \<and> n0 \<le> tk_next (snd s) \<and>
     (\<forall>g. handles_of (fst s) g \<subseteq> {n0..<tk_next (snd s)}) \<and> (\<forall>g. g \<notin> G \<longrightarrow> handles_of (fst s) g = {}) \<and>
     (\<forall>g h. g \<noteq> h \<longrightarrow> handles_of (fst s) g \<inter> handles_of (fst s) h = {})"

lemma owns_new: "tk_running ts \<subseteq> {..<tk_next ts} \<Longrightarrow> owns (tk_next ts) (tk_running ts) {} (generation_new ab, ts)"
  by (simp add: owns_def generation_new_def task_guard_new_def)

lemma owns_mono: "owns n0 base G s \<Longrightarrow> G \<subseteq> H \<Longrightarrow> owns n0 base H s"
  unfolding owns_def by blast

lemma spawn_in_effect:
  assumes "spawn_in name (gen, ts) = (gen', ts')"
  shows "tk_running ts' = insert (tk_next ts) (tk_running ts)" and "tk_next ts' = tk_next ts + 1"
    and "handles_of gen' g = (if g = name then insert (tk_next ts) (handles_of gen name \<inter> tk_running ts) else handles_of gen g)"
    and "gn_app gen' = gn_app gen"
  using assms by (auto simp: spawn_in_def tg_spawn_def)

lemma owns_spawn:
  assumes "owns n0 base G s" and "name \<in> G"
  shows "owns n0 base G (spawn_in name s)"
proof -
  obtain gen ts where s: "s = (gen, ts)" by fastforce
  obtain gen' ts' where r: "spawn_in name s = (gen', ts')" by fastforce
  note eff = spawn_in_effect [OF r [unfolded s]] and o = assms(1) [unfolded s owns_def fst_conv snd_conv]
  have run: "handles_of gen name \<inter> tk_running ts = handles_of gen name" using o by auto
  have h: "handles_of gen' g = (if g = name then insert (tk_next ts) (handles_of gen name) else handles_of gen g)" for g
    using eff(3) run by simp
  have sub: "handles_of gen g \<subseteq> {n0..<tk_next ts}" and lo: "n0 \<le> tk_next ts" for g using o by blast+
  have new: "tk_next ts \<notin> handles_of gen g" for g using sub [of g] by auto
  have u: "(\<Union>g. handles_of gen' g) = insert (tk_next ts) (\<Union>g. handles_of gen g)" unfolding h by auto
  have "handles_of gen' g \<subseteq> {n0..<tk_next ts'}" for g
    unfolding h eff(2) using sub [of g] sub [of name] lo by (auto simp: subset_iff less_Suc_eq)
  moreover have "handles_of gen' g \<inter> handles_of gen' k = {}" if "g \<noteq> k" for g k
    using o that new [of g] new [of k] unfolding h by auto
  ultimately show ?thesis unfolding r owns_def fst_conv snd_conv u eff(1) using o eff(2) assms(2) h by auto
qed

lemma owns_spawn_if: "owns n0 base G s \<Longrightarrow> name \<in> G \<Longrightarrow> owns n0 base G (spawn_if b name s)"
  by (simp add: spawn_if_def owns_spawn)

lemma owns_spawn_n: "owns n0 base G s \<Longrightarrow> name \<in> G \<Longrightarrow> owns n0 base G ((spawn_in name ^^ n) s)"
  by (induction n) (simp_all add: owns_spawn)

lemma gn_app_spawn [simp]:
  "gn_app (fst (spawn_in name s)) = gn_app (fst s)" "gn_app (fst (spawn_if b name s)) = gn_app (fst s)"
proof -
  show "gn_app (fst (spawn_in name s)) = gn_app (fst s)" for name
    by (cases s) (simp add: spawn_in_def tg_spawn_def)
  then show "gn_app (fst (spawn_if b name s)) = gn_app (fst s)" by (simp add: spawn_if_def)
qed

lemma gn_app_spawn_n [simp]: "gn_app (fst ((spawn_in name ^^ n) s)) = gn_app (fst s)"
  by (induction n) simp_all

lemma gn_app_phases [simp]:
  "gn_app (fst (snd (spawn_listener_tasks env s))) = gn_app (fst s)"
  "gn_app (fst (snd (spawn_port_forward_tasks env made s))) = gn_app (fst s)"
  "gn_app (fst (spawn_background_tasks env s)) = gn_app (fst s)"
  by (simp_all add: spawn_listener_tasks_def spawn_port_forward_tasks_def spawn_background_tasks_def Let_def
      split: prod.split sum.split option.split)

lemma spawn_all_cases:
  obtains (listen) e s1 where "spawn_listener_tasks env s = (Inl e, s1)" and "spawn_all_tasks env s = (Inl e, s1)"
  | (forward) made s1 e s2 where "spawn_listener_tasks env s = (Inr made, s1)"
      and "spawn_port_forward_tasks env made s1 = (Inl e, s2)" and "spawn_all_tasks env s = (Inl e, s2)"
  | (all) made s1 s2 where "spawn_listener_tasks env s = (Inr made, s1)"
      and "spawn_port_forward_tasks env made s1 = (Inr (), s2)" and "spawn_all_tasks env s = (Inr (), spawn_background_tasks env s2)"
proof -
  obtain r1 s1 where l: "spawn_listener_tasks env s = (r1, s1)" by (meson surj_pair)
  show ?thesis
  proof (cases r1)
    case (Inl e)
    with l listen show ?thesis by (simp add: spawn_all_tasks_def)
  next
    case (Inr made)
    obtain r2 s2 where f: "spawn_port_forward_tasks env made s1 = (r2, s2)" by (meson surj_pair)
    show ?thesis using l f Inr forward all by (cases r2) (simp_all add: spawn_all_tasks_def)
  qed
qed

lemma gn_app_all [simp]: "gn_app (fst (snd (spawn_all_tasks env s))) = gn_app (fst s)"
proof (cases rule: spawn_all_cases [of env s])
  case (listen e s1)
  with gn_app_phases(1) [of env s] show ?thesis by simp
next
  case (forward made s1 e s2)
  with gn_app_phases(1) [of env s] gn_app_phases(2) [of env made s1] show ?thesis by simp
next
  case (all made s1 s2)
  with gn_app_phases(1) [of env s] gn_app_phases(2) [of env made s1] show ?thesis by simp
qed

definition listening :: "GuardName set" where
  "listening = {TcpListeners, UdpListeners, PortForwards}"

lemma owns_listeners: "owns n0 base listening s \<Longrightarrow> owns n0 base listening (snd (spawn_listener_tasks env s))"
  by (simp add: spawn_listener_tasks_def Let_def owns_spawn_if listening_def split: sum.split option.split prod.split)

lemma owns_forwards: "owns n0 base listening s \<Longrightarrow> owns n0 base listening (snd (spawn_port_forward_tasks env made s))"
  by (simp add: spawn_port_forward_tasks_def owns_spawn_n listening_def split: sum.split)

lemma owns_background: "owns n0 base UNIV s \<Longrightarrow> owns n0 base UNIV (spawn_background_tasks env s)"
  by (simp add: spawn_background_tasks_def Let_def owns_spawn owns_spawn_if owns_spawn_n)

lemma owns_all:
  assumes "owns n0 base {} s" and "spawn_all_tasks env s = (r, s')"
  shows "owns n0 base UNIV s'" and "r = Inl e \<Longrightarrow> owns n0 base listening s'"
proof -
  have l: "owns n0 base listening (snd (spawn_listener_tasks env s))"
    by (rule owns_listeners [OF owns_mono [OF assms(1)]]) simp
  have f: "owns n0 base listening (snd (spawn_port_forward_tasks env made s1))"
    if "spawn_listener_tasks env s = (r1, s1)" for made r1 s1
    using owns_forwards [OF l, of env made] that by simp
  have "owns n0 base UNIV s' \<and> (\<forall>e. r = Inl e \<longrightarrow> owns n0 base listening s')"
  proof (cases rule: spawn_all_cases [of env s])
    case (listen e s1)
    with assms(2) l owns_mono [OF l, of UNIV] show ?thesis by simp
  next
    case (forward made s1 e s2)
    with assms(2) f [OF forward(1), of made] owns_mono [OF f [OF forward(1)], of UNIV made] show ?thesis by simp
  next
    case (all made s1 s2)
    from f [OF all(1), of made] all(2) have "owns n0 base UNIV s2" by (auto intro: owns_mono)
    with all(3) assms(2) show ?thesis by (simp add: owns_background)
  qed
  then show "owns n0 base UNIV s'" and "r = Inl e \<Longrightarrow> owns n0 base listening s'" by auto
qed

text \<open>A guard that has a task keeps one when more are started.\<close>

definition has_task :: "GuardName \<Rightarrow> ('n4, 'n6) Generation \<times> Tasks \<Rightarrow> bool" where
  "has_task g s \<longleftrightarrow> tg_handles (gn_guards (fst s) g) \<noteq> []"

lemma has_task_spawn [simp]: "has_task g (spawn_in name s) \<longleftrightarrow> has_task g s \<or> g = name"
  by (cases s) (simp add: has_task_def spawn_in_def tg_spawn_def)

lemma has_task_if [simp]: "has_task g (spawn_if b name s) \<longleftrightarrow> has_task g s \<or> (b \<and> g = name)"
  by (simp add: spawn_if_def)

lemma has_task_n [simp]: "has_task g ((spawn_in name ^^ n) s) \<longleftrightarrow> has_task g s \<or> (0 < n \<and> g = name)"
  by (induction n) auto

lemma create_tproxy_some: "create_tproxy_tcp_listeners K ip port = Inr (v4, v6) \<Longrightarrow> v4 \<noteq> None \<or> v6 \<noteq> None"
  by (auto simp: create_tproxy_tcp_listeners_def create_tproxy_def split: IpAddr.splits if_splits)

lemma listener_task:
  "fst (spawn_listener_tasks env s) = Inr made \<Longrightarrow> has_task TcpListeners (snd (spawn_listener_tasks env s))"
  using create_tproxy_some [of "le_kernel env"]
  by (auto simp: spawn_listener_tasks_def Let_def split: sum.split option.split prod.split)

lemma forwards_keep: "has_task g s \<Longrightarrow> has_task g (snd (spawn_port_forward_tasks env made s))"
  by (simp add: spawn_port_forward_tasks_def split: sum.split)

lemma background_keeps: "has_task g s \<or> g = UdpGc \<Longrightarrow> has_task g (spawn_background_tasks env s)"
  by (auto simp: spawn_background_tasks_def Let_def)

lemma all_tasks_listen:
  assumes "spawn_all_tasks env s = (Inr (), s')"
  shows "has_task TcpListeners s'" and "has_task UdpGc s'"
proof -
  have "has_task TcpListeners s' \<and> has_task UdpGc s'"
  proof (cases rule: spawn_all_cases [of env s])
    case (all made s1 s2)
    have "has_task TcpListeners s2"
      using listener_task [of env s made] forwards_keep [of TcpListeners s1 env made] all(1,2) by simp
    with all(3) assms show ?thesis by (simp add: background_keeps)
  qed (use assms in simp_all)
  then show "has_task TcpListeners s'" and "has_task UdpGc s'" by auto
qed

section \<open>The invariant of a process\<close>

definition gen_ok :: "('n4, 'n6) Generation \<Rightarrow> Tasks \<Rightarrow> bool" where
  "gen_ok gen ts \<longleftrightarrow>
     tk_running ts \<subseteq> {..<tk_next ts} \<and> (\<forall>g. handles_of gen g \<subseteq> {..<tk_next ts}) \<and>
     (\<forall>g h. g \<noteq> h \<longrightarrow> handles_of gen g \<inter> handles_of gen h = {})"

lemma gen_ok_owns: "owns n0 base G (gen, ts) \<Longrightarrow> gen_ok gen ts"
  unfolding owns_def gen_ok_def fst_conv snd_conv by fastforce

lemma gen_ok_tasks: "gen_ok gen ts \<Longrightarrow> tk_running ts' \<subseteq> {..<tk_next ts'} \<Longrightarrow> tk_next ts \<le> tk_next ts' \<Longrightarrow> gen_ok gen ts'"
  unfolding gen_ok_def by (meson lessThan_subset_iff subset_trans)

lemma gen_ok_spawn:
  assumes "gen_ok gen ts" and "spawn_in name (gen, ts) = (gen', ts')"
  shows "gen_ok gen' ts'"
proof -
  note eff = spawn_in_effect [OF assms(2)] and ok = assms(1) [unfolded gen_ok_def]
  have new: "tk_next ts \<notin> handles_of gen g" for g using ok by force
  have "handles_of gen' g \<subseteq> {..<tk_next ts'}" for g
    unfolding eff(2,3) using ok by (cases "g = name") (auto simp: less_Suc_eq subset_iff)
  moreover have "handles_of gen' g \<inter> handles_of gen' h = {}" if "g \<noteq> h" for g h
  proof -
    have "handles_of gen g \<inter> handles_of gen h = {}" using ok that by blast
    then show ?thesis unfolding eff(3) using that new [of g] new [of h] by auto
  qed
  moreover have "tk_running ts' \<subseteq> {..<tk_next ts'}" unfolding eff(1,2) using ok by (auto simp: less_Suc_eq)
  ultimately show ?thesis unfolding gen_ok_def by blast
qed

text \<open>What a reload does to the tasks, for a process whose invariant holds.\<close>

lemma stopped_all:
  assumes "owns n0 base G s" and "stopped S s s'" and "G \<subseteq> S"
  shows "tk_running (snd s') = base" and "n0 \<le> tk_next (snd s')"
proof -
  have "g \<in> S" if "x \<in> handles_of (fst s) g" for x g
    using assms(1,3) that unfolding owns_def by (metis empty_iff subset_iff)
  then have "(\<Union>g. handles_of (fst s) g) = (\<Union>g \<in> S. handles_of (fst s) g)" by blast
  moreover have "base \<inter> (\<Union>g. handles_of (fst s) g) = {}"
    using assms(1) unfolding owns_def by fastforce
  ultimately show "tk_running (snd s') = base" using assms(1,2) unfolding owns_def stopped_def by auto
  show "n0 \<le> tk_next (snd s')" using assms(1,2) by (simp add: owns_def stopped_def)
qed

lemma reload_failed:
  assumes "gen_ok (pr_gen p) (pr_tasks p)"
    and "reload_config env benv N from_toml filter_ok config_text accepted p = (Inl e, p')"
  shows "pr_gen p' = pr_gen p \<and> pr_old p' = pr_old p \<and> tk_running (pr_tasks p') = tk_running (pr_tasks p) \<and>
    tk_next (pr_tasks p) \<le> tk_next (pr_tasks p')"
proof (cases "load_config env benv N from_toml filter_ok config_text")
  case (Inl e')
  with assms(2) show ?thesis by (simp add: reload_config_def)
next
  case (Inr ab)
  let ?ts = "pr_tasks p"
  obtain r s where sp: "spawn_all_tasks env (generation_new ab, ?ts) = (r, s)" by (meson surj_pair)
  let ?s = "(spawn_in TcpHandlers ^^ accepted) s"
  from assms(2) Inr sp have r: "r = Inl e" and p': "p' = p\<lparr>pr_tasks := snd (snd (shutdown_for_exit env ?s))\<rparr>"
    by (auto simp: reload_config_def Let_def split: sum.splits prod.splits)
  have "tk_running ?ts \<subseteq> {..<tk_next ?ts}" using assms(1) by (simp add: gen_ok_def)
  from owns_all(2) [OF owns_new [OF this] sp r] have "owns (tk_next ?ts) (tk_running ?ts) (insert TcpHandlers listening) s"
    by (rule owns_mono) blast
  from owns_spawn_n [OF this, of TcpHandlers accepted]
  have "owns (tk_next ?ts) (tk_running ?ts) (insert TcpHandlers listening) ?s" by simp
  from stopped_all [OF this shutdown_for_exit_stops [of ?s env]] show ?thesis
    by (simp add: p' listening_def reload_stops_def)
qed

lemma reload_done:
  assumes "gen_ok (pr_gen p) (pr_tasks p)"
    and "reload_config env benv N from_toml filter_ok config_text accepted p = (Inr u, p')"
  obtains ab where "load_config env benv N from_toml filter_ok config_text = Inr ab" and "gn_app (pr_gen p') = ab"
    and "has_task TcpListeners (pr_gen p', pr_tasks p')" and "has_task UdpGc (pr_gen p', pr_tasks p')"
    and "tk_running (pr_tasks p') = tk_running (pr_tasks p) - (\<Union>g \<in> reload_stops. handles_of (pr_gen p) g) \<union>
      (\<Union>g. handles_of (pr_gen p') g)"
    and "(\<Union>g. handles_of (pr_gen p') g) \<inter> (\<Union>g. handles_of (pr_gen p) g) = {}" and "gen_ok (pr_gen p') (pr_tasks p')"
    and "\<exists>old. pr_old p' = old # pr_old p \<and> rt_closed (gn_udp old) \<and> rt_sessions (gn_udp old) = []"
proof -
  let ?ts = "pr_tasks p"
  obtain ab where ab: "load_config env benv N from_toml filter_ok config_text = Inr ab"
    using assms(2) by (auto simp: reload_config_def split: sum.splits)
  obtain r s where sp: "spawn_all_tasks env (generation_new ab, ?ts) = (r, s)" by (meson surj_pair)
  let ?s = "(spawn_in TcpHandlers ^^ accepted) s"
  obtain ok old ts where sh: "shutdown_for_reload env (pr_gen p, snd ?s) = (ok, old, ts)" by (metis surj_pair)
  from assms(2) ab sp sh have r: "r = Inr ()" and p': "p' = p\<lparr>pr_gen := fst ?s, pr_old := old # pr_old p, pr_tasks := ts\<rparr>"
    by (auto simp: reload_config_def Let_def split: sum.splits prod.splits)
  have g: "tk_running ?ts \<subseteq> {..<tk_next ?ts}" using assms(1) by (simp add: gen_ok_def)
  have o: "owns (tk_next ?ts) (tk_running ?ts) UNIV ?s"
    by (intro owns_spawn_n owns_all(1) [OF owns_new [OF g] sp]) simp
  have app: "gn_app (fst s) = ab" using gn_app_all [of env "(generation_new ab, ?ts)"] unfolding sp by (simp add: generation_new_def)
  from shutdown_for_reload_stops [of "(pr_gen p, snd ?s)" env]
  have st: "tk_running ts = tk_running (snd ?s) - (\<Union>g \<in> reload_stops. handles_of (pr_gen p) g)" "tk_next ts = tk_next (snd ?s)"
    by (simp_all add: sh stopped_def)
  have "handles_of (fst ?s) g \<subseteq> {tk_next ?ts..<tk_next (snd ?s)}" "handles_of (pr_gen p) g \<subseteq> {..<tk_next ?ts}" for g
    using o assms(1) unfolding owns_def gen_ok_def by blast+
  then have dj: "(\<Union>g. handles_of (fst ?s) g) \<inter> (\<Union>g. handles_of (pr_gen p) g) = {}"
    by (auto simp: subset_iff) (meson not_le)
  have run: "tk_running (snd ?s) = tk_running ?ts \<union> (\<Union>g. handles_of (fst ?s) g)" using o by (simp add: owns_def)
  have "gen_ok (fst ?s) (snd ?s)" using gen_ok_owns [of _ _ _ "fst ?s" "snd ?s"] o by simp
  then have ok': "gen_ok (fst ?s) ts"
    by (rule gen_ok_tasks) (use st \<open>gen_ok (fst ?s) (snd ?s)\<close> in \<open>auto simp: gen_ok_def\<close>)
  show ?thesis
  proof (rule that [OF ab])
    show "gn_app (pr_gen p') = ab" by (simp add: p' app)
    show "has_task TcpListeners (pr_gen p', pr_tasks p')" "has_task UdpGc (pr_gen p', pr_tasks p')"
      using all_tasks_listen [OF sp [unfolded r]] has_task_n [where name = TcpHandlers and n = accepted and s = s] by (auto simp: has_task_def p')
    show "tk_running (pr_tasks p') = tk_running (pr_tasks p) - (\<Union>g \<in> reload_stops. handles_of (pr_gen p) g) \<union>
      (\<Union>g. handles_of (pr_gen p') g)"
    proof -
      have "(\<Union>g. handles_of (fst ?s) g) \<inter> (\<Union>g \<in> reload_stops. handles_of (pr_gen p) g) = {}" using dj by blast
      then show ?thesis by (simp add: p' st(1) run Un_Diff Diff_triv)
    qed
    show "(\<Union>g. handles_of (pr_gen p') g) \<inter> (\<Union>g. handles_of (pr_gen p) g) = {}" using dj by (simp add: p')
    show "gen_ok (pr_gen p') (pr_tasks p')" using ok' by (simp add: p')
    show "\<exists>old. pr_old p' = old # pr_old p \<and> rt_closed (gn_udp old) \<and> rt_sessions (gn_udp old) = []"
      using sh by (auto simp: p' shutdown_for_reload_def shutdown_in_def udp_shutdown_def rt_clear_def rt_close_def Let_def
          split: prod.splits)
  qed
qed

lemma process_ok: "process N p \<Longrightarrow> gen_ok (pr_gen p) (pr_tasks p)"
proof (induction rule: process.induct)
  case (start env ab gen ts)
  have "owns 0 {} {} (generation_new ab, \<lparr>tk_running = {}, tk_next = 0\<rparr>)"
    using owns_new [of "\<lparr>tk_running = {}, tk_next = 0\<rparr>" ab] by simp
  from gen_ok_owns [OF owns_all(1) [OF this start]] show ?case by simp
next
  case (ended p t)
  then show ?case by (auto simp: gen_ok_def)
next
  case (accept p gen ts)
  then show ?case by (simp add: gen_ok_spawn)
next
  case (reload p env benv from_toml filter_ok config_text accepted r p')
  show ?case
  proof (cases r)
    case (Inl e)
    from reload_failed [OF reload.IH reload.hyps(2) [unfolded Inl]] reload.IH show ?thesis
      by (auto simp: gen_ok_def) (meson less_le_trans lessThan_iff subset_iff)+
  next
    case (Inr u)
    from reload_done [OF reload.IH reload.hyps(2) [unfolded Inr]] show ?thesis by blast
  qed
qed

section \<open>Starting beside a running generation\<close>

text \<open>Linux with the sockets of other generations, all of which share their ports.\<close>

definition beside :: "socket list \<Rightarrow> LifeEnv \<Rightarrow> bool" where
  "beside old env \<longleftrightarrow> le_kernel env = (\<lambda>more. linux (more @ old)) \<and> (\<forall>s \<in> set old. shares_port s)"

lemma beside_tcp:
  "beside old env \<Longrightarrow> \<forall>s \<in> set made. shares_port s \<Longrightarrow>
   \<exists>s. bind_tcp_listener (le_kernel env made) addr True False None 1024 = Inr s \<and> shares_port s"
  by (simp only: beside_def) (rule bind_tcp_listener_shares, auto)

lemma beside_udp:
  "beside old env \<Longrightarrow> \<forall>s \<in> set made. shares_port s \<Longrightarrow>
   \<exists>s. bind_port_forward_udp_listener (le_kernel env made) addr = Inr s \<and> shares_port s"
  by (simp only: beside_def) (rule forward_udp_shares, auto)

lemma beside_forward:
  assumes "beside old env" and "\<forall>s \<in> set made. shares_port s"
  shows "\<exists>made'. bind_forward env made network addr = Inr made' \<and> (\<forall>s \<in> set made'. shares_port s)"
proof -
  obtain t where t: "bind_tcp_listener (le_kernel env made) addr True False None 1024 = Inr t" "shares_port t"
    using beside_tcp [OF assms] by blast
  obtain u where u: "bind_port_forward_udp_listener (le_kernel env made) addr = Inr u" "shares_port u"
    using beside_udp [OF assms] by blast
  obtain v where "bind_port_forward_udp_listener (le_kernel env (t # made)) addr = Inr v" "shares_port v"
    using beside_udp [OF assms(1), of "t # made"] assms(2) t(2) by auto
  with t u assms(2) show ?thesis by (cases network) (simp_all add: bind_forward_def)
qed

lemma beside_forwards:
  assumes "beside old env"
  shows "\<forall>s \<in> set made. shares_port s \<Longrightarrow>
    \<forall>pf \<in> set pfs. le_parse_sockaddr env (pf_bind pf) \<noteq> None \<and> le_parse_sockaddr env (pf_remote pf) \<noteq> None \<Longrightarrow>
    \<exists>ps. prepare_forwards env made pfs = Inr ps"
proof (induction pfs arbitrary: made)
  case (Cons pf pfs)
  obtain a b where ab: "le_parse_sockaddr env (pf_bind pf) = Some a" "le_parse_sockaddr env (pf_remote pf) = Some b"
    using Cons.prems(2) by auto
  obtain made' where m: "bind_forward env made (pf_network pf) a = Inr made'" "\<forall>s \<in> set made'. shares_port s"
    using beside_forward [OF assms Cons.prems(1)] by blast
  from Cons.IH [OF m(2)] Cons.prems(2) ab m(1) show ?case by auto
qed simp

lemma beside_listeners:
  assumes "beside old env" and "le_parse_sockaddr env (c_listen (gn_config (fst s))) \<noteq> None"
  shows "\<exists>made s1. spawn_listener_tasks env s = (Inr made, s1) \<and> (\<forall>x \<in> set made. shares_port x)"
proof -
  obtain a where a: "le_parse_sockaddr env (c_listen (gn_config (fst s))) = Some a" using assms(2) by blast
  have k: "le_kernel env = (\<lambda>more. linux (more @ old))" and old: "\<forall>s \<in> set old. shares_port s" using assms(1) by (auto simp: beside_def)
  obtain t4 t6 where t: "create_tproxy_tcp_listeners (le_kernel env) (sa_ip a) (sa_port a) = Inr (t4, t6)"
      "\<forall>s \<in> set_option t4 \<union> set_option t6. shares_port s"
    using tproxy_tcp_share [OF old, of "sa_ip a" "sa_port a"] by (auto simp: k)
  let ?made = "opt_list t4 @ opt_list t6"
  have made: "\<forall>s \<in> set (?made @ old). shares_port s" using t(2) old by (auto simp: opt_list_def split: option.splits)
  obtain u4 u6 where u: "create_tproxy_udp_sockets (\<lambda>more. le_kernel env (more @ ?made)) (sa_ip a) (sa_port a) = Inr (u4, u6)"
      "\<forall>s \<in> set_option u4 \<union> set_option u6. shares_port s"
    using tproxy_udp_share [OF made, of "sa_ip a" "sa_port a"] by (auto simp: k)
  have "\<forall>s \<in> set (opt_list u4 @ opt_list u6 @ ?made). shares_port s"
    using u(2) made by (auto simp: opt_list_def split: option.splits)
  then show ?thesis using a t(1) u(1) made by (simp add: spawn_listener_tasks_def parse_listen_addr_def Let_def)
qed

lemma beside_starts:
  assumes "beside old env" and "gn_config (fst s) = c" and "le_parse_sockaddr env (c_listen c) \<noteq> None"
    and "\<forall>pf \<in> set (c_port_forward c). le_parse_sockaddr env (pf_bind pf) \<noteq> None \<and> le_parse_sockaddr env (pf_remote pf) \<noteq> None"
  shows "\<exists>s'. spawn_all_tasks env s = (Inr (), s')"
proof -
  obtain made s1 where l: "spawn_listener_tasks env s = (Inr made, s1)" "\<forall>x \<in> set made. shares_port x"
    using beside_listeners [OF assms(1)] assms(2,3) by blast
  have "gn_config (fst s1) = c" using gn_app_phases(1) [of env s] assms(2) l(1) by (simp add: gn_config_def)
  with beside_forwards [OF assms(1) l(2) assms(4)] l(1) show ?thesis
    by (auto simp: spawn_all_tasks_def spawn_port_forward_tasks_def)
qed

lemma load_config_checked:
  assumes "load_config env benv N from_toml filter_ok config_text = Inr ab"
  shows "le_parse_sockaddr env (c_listen (st_config (ab_state ab))) \<noteq> None"
    and "\<forall>pf \<in> set (c_port_forward (st_config (ab_state ab))). le_parse_sockaddr env (pf_bind pf) \<noteq> None"
proof -
  obtain c where v: "validate N (le_parse_sockaddr env) c = Inr ()" and b: "app_build benv N c = Inr ab"
    using assms by (auto simp: load_defs split: if_splits sum.splits)
  have c: "st_config (ab_state ab) = c" using b by (elim app_buildE) simp
  from v obtain a where a: "le_parse_sockaddr env (c_listen c) = Some a"
      "check_port_forwards (le_parse_sockaddr env) (sa_ip a) (sa_port a) (c_port_forward c) = Inr ()"
    by (auto simp: validate_def parse_listen_addr_def)
  then show "le_parse_sockaddr env (c_listen (st_config (ab_state ab))) \<noteq> None" by (simp add: c)
  have "\<forall>pf \<in> set pfs. le_parse_sockaddr env (pf_bind pf) \<noteq> None"
    if "check_port_forwards (le_parse_sockaddr env) ip port pfs = Inr ()" for ip port pfs
    using that unfolding check_port_forwards_def by auto
  with a(2) show "\<forall>pf \<in> set (c_port_forward (st_config (ab_state ab))). le_parse_sockaddr env (pf_bind pf) \<noteq> None"
    by (simp add: c)
qed

text \<open>
  The validation compares a forward only with the configured listening address: for the unspecified
  IPv6 address it accepts a forward on the unspecified IPv4 address, where a listener is bound too, and
  the kernel lets both sockets share the port.
\<close>

lemma forward_shares_listen_port:
  assumes "parse (pf_bind pf) = Some (SocketAddr (V4 0) port)"
  shows "check_port_forwards parse (V6 0) port [pf] = Inr ()"
    and "\<exists>v4 v6 s. create_tproxy_tcp_listeners linux (V6 0) port = Inr (Some v4, Some v6) \<and>
      bind_tcp_listener (linux [v4, v6]) (SocketAddr (V4 0) port) True False None 1024 = Inr s \<and>
      bound_to v4 = Some (SocketAddr (V4 0) port) \<and> bound_to s = bound_to v4"
proof -
  show "check_port_forwards parse (V6 0) port [pf] = Inr ()"
    using assms by (simp add: check_port_forwards_def ensure_def)
  have bound: "bound_to s = Some addr" if "bind_tcp_listener K addr True transparent only 1024 = Inr s" for K addr transparent only s
    using sys_Inr [OF that [unfolded bind_tcp_listener_def]]
    by (cases only) (simp_all add: bound_to_def apply_socket_options_def set_socket_reuse_def tcp_socket_def)
  obtain v4 v6 where v: "create_tproxy_tcp_listeners linux (V6 0) port = Inr (Some v4, Some v6)"
      "shares_port v4" "shares_port v6" "tproxy_tcp_listener_for_ip (linux []) (V4 0) port = Inr v4"
    using tproxy_tcp_share [of "[]" "V6 0" port] by (auto simp: create_tproxy_tcp_listeners_def create_tproxy_def)
  obtain s where "bind_tcp_listener (linux [v4, v6]) (SocketAddr (V4 0) port) True False None 1024 = Inr s"
    using bind_tcp_listener_shares [of "[v4, v6]" "SocketAddr (V4 0) port" False None 1024] v(2,3) by auto
  moreover have "bound_to v4 = Some (SocketAddr (V4 0) port)"
    using bound v(4) by (simp add: tproxy_tcp_listener_for_ip_def Let_def)
  ultimately show "\<exists>v4 v6 s. create_tproxy_tcp_listeners linux (V6 0) port = Inr (Some v4, Some v6) \<and>
      bind_tcp_listener (linux [v4, v6]) (SocketAddr (V4 0) port) True False None 1024 = Inr s \<and>
      bound_to v4 = Some (SocketAddr (V4 0) port) \<and> bound_to s = bound_to v4"
    using v(1) bound by auto
qed

section \<open>Properties\<close>

text \<open>
  C7: A reload is atomic. When it fails, at reading, validating, building or starting any task of the
  new generation, the process keeps its generation and exactly the tasks that ran before run on. When
  it succeeds, the current generation is the one built from the validated configuration, all its tasks
  run, with a TCP listener and the collector among them, and of the replaced generation, whose UDP
  sessions are closed, only connection handlers, the relative scoring and the score printer run on.
\<close>

theorem reload_atomic:
  assumes "process N p" and "reload_config env benv N from_toml filter_ok config_text accepted p = (r, p')"
  shows "case r of
      Inl _ \<Rightarrow> pr_gen p' = pr_gen p \<and> pr_old p' = pr_old p \<and> tk_running (pr_tasks p') = tk_running (pr_tasks p)
    | Inr _ \<Rightarrow>
        load_config env benv N from_toml filter_ok config_text = Inr (gn_app (pr_gen p')) \<and>
        (\<forall>g. handles_of (pr_gen p') g \<subseteq> tk_running (pr_tasks p')) \<and>
        handles_of (pr_gen p') TcpListeners \<noteq> {} \<and> handles_of (pr_gen p') UdpGc \<noteq> {} \<and>
        (\<forall>g. tk_running (pr_tasks p') \<inter> handles_of (pr_gen p) g =
           (if g \<in> {TcpHandlers, RelativeScore, ScoreDebugPrinter} then tk_running (pr_tasks p) \<inter> handles_of (pr_gen p) g
            else {})) \<and>
        (\<exists>old. pr_old p' = old # pr_old p \<and> rt_closed (gn_udp old) \<and> rt_sessions (gn_udp old) = [])"
proof (cases r)
  case (Inl e)
  then show ?thesis using reload_failed [OF process_ok [OF assms(1)]] assms(2) by simp
next
  case (Inr u)
  note ok = process_ok [OF assms(1)]
  obtain ab where ab: "load_config env benv N from_toml filter_ok config_text = Inr ab" "gn_app (pr_gen p') = ab"
      "has_task TcpListeners (pr_gen p', pr_tasks p')" "has_task UdpGc (pr_gen p', pr_tasks p')"
    and run: "tk_running (pr_tasks p') = tk_running (pr_tasks p) - (\<Union>g \<in> reload_stops. handles_of (pr_gen p) g) \<union>
      (\<Union>g. handles_of (pr_gen p') g)"
    and dj: "(\<Union>g. handles_of (pr_gen p') g) \<inter> (\<Union>g. handles_of (pr_gen p) g) = {}"
    and old: "\<exists>old. pr_old p' = old # pr_old p \<and> rt_closed (gn_udp old) \<and> rt_sessions (gn_udp old) = []"
    using reload_done [OF ok assms(2) [unfolded Inr]] by metis
  have left: "tk_running (pr_tasks p') \<inter> handles_of (pr_gen p) g =
      (if g \<in> {TcpHandlers, RelativeScore, ScoreDebugPrinter} then tk_running (pr_tasks p) \<inter> handles_of (pr_gen p) g else {})" for g
  proof (cases "g \<in> reload_stops")
    case True
    then have "g \<notin> {TcpHandlers, RelativeScore, ScoreDebugPrinter}" by (auto simp: reload_stops_def)
    then show ?thesis unfolding run using True dj by auto
  next
    case False
    then have "g \<in> {TcpHandlers, RelativeScore, ScoreDebugPrinter}" by (cases g) (auto simp: reload_stops_def)
    moreover have "handles_of (pr_gen p) g \<inter> handles_of (pr_gen p) h = {}" if "h \<in> reload_stops" for h
      using ok that False unfolding gen_ok_def by metis
    ultimately show ?thesis unfolding run using dj by auto
  qed
  have new: "\<forall>g. handles_of (pr_gen p') g \<subseteq> tk_running (pr_tasks p')" unfolding run by blast
  show ?thesis using Inr ab old left new by (simp add: has_task_def)
qed


text \<open>
  Relative scoring is one of the tasks that a reload leaves behind: a generation that has started it
  keeps it running after it has been replaced.
\<close>

theorem reload_leaves_relative_score:
  assumes "process N p" and "reload_config env benv N from_toml filter_ok config_text accepted p = (Inr (), p')"
    and "t \<in> handles_of (pr_gen p) RelativeScore" and "t \<in> tk_running (pr_tasks p)"
  shows "t \<in> tk_running (pr_tasks p')"
proof -
  note ok = process_ok [OF assms(1)]
  have "t \<notin> handles_of (pr_gen p) g" if "g \<in> reload_stops" for g
    using ok assms(3) that unfolding gen_ok_def reload_stops_def by blast
  then show ?thesis using reload_done [OF ok assms(2)] assms(4) by blast
qed

section \<open>Witnesses\<close>

definition calm_env :: LifeEnv where
  "calm_env = \<lparr>le_parse_sockaddr = \<lambda>_. Some (SocketAddr (V6 0) 10810), le_kernel = linux,
     le_debug_enabled = False, le_in_time = \<lambda>_. True, le_udp_in_time = True\<rparr>"

lemma calm_env_loads:
  assumes "app_build no_files word_net_ops routed_config = Inr ab"
  shows "load_config calm_env no_files word_net_ops (\<lambda>_. Some routed_config) (\<lambda>_. True) (Some []) = Inr ab"
proof -
  have "c_proxy_geosite_tags routed_config = []" "c_direct_geosite_tags routed_config = []"
    by (simp_all add: routed_config_def demo_config_def default_config_def)
  then have "normalize_geosite_tags (be_to_lowercase no_files) routed_config = routed_config"
    by (simp add: normalize_geosite_tags_def)
  moreover have "validate word_net_ops (le_parse_sockaddr calm_env) routed_config = Inr ()"
    using routed_config_valid by (simp add: calm_env_def)
  ultimately show ?thesis using assms by (simp add: load_defs)
qed

lemma calm_env_beside: "beside [] calm_env"
  by (simp add: beside_def calm_env_def)

lemma routed_config_forwards: "c_port_forward routed_config = []"
  by (simp add: routed_config_def demo_config_def default_config_def)

lemma calm_env_starts:
  assumes "app_build no_files word_net_ops routed_config = Inr ab"
  shows "\<exists>s. spawn_all_tasks calm_env (generation_new ab, ts) = (Inr (), s)"
proof -
  have "gn_config (fst (generation_new ab, ts)) = routed_config"
    using assms by (elim app_buildE) (simp add: gn_config_def generation_new_def)
  then show ?thesis by (rule beside_starts [OF calm_env_beside]) (simp_all add: routed_config_forwards calm_env_def)
qed

theorem reload_atomic_witness:
  "\<exists>p p'. process word_net_ops p \<and>
     reload_config calm_env no_files word_net_ops (\<lambda>_. Some routed_config) (\<lambda>_. True) (Some []) 3 p = (Inr (), p') \<and>
     handles_of (pr_gen p') TcpListeners \<subseteq> tk_running (pr_tasks p') \<and> handles_of (pr_gen p') TcpListeners \<noteq> {}"
proof -
  obtain ab where ab: "app_build no_files word_net_ops routed_config = Inr ab" using routed_config_builds by blast
  obtain gen ts where st: "spawn_all_tasks calm_env (generation_new ab, \<lparr>tk_running = {}, tk_next = 0\<rparr>) = (Inr (), gen, ts)"
    using calm_env_starts [OF ab] by (metis prod.collapse)
  define p where "p = \<lparr>pr_gen = gen, pr_old = [], pr_tasks = ts\<rparr>"
  have p: "process word_net_ops p" unfolding p_def by (rule process.start [OF st])
  obtain s where "spawn_all_tasks calm_env (generation_new ab, pr_tasks p) = (Inr (), s)" using calm_env_starts [OF ab] by blast
  then obtain p' where r: "reload_config calm_env no_files word_net_ops (\<lambda>_. Some routed_config) (\<lambda>_. True) (Some []) 3 p = (Inr (), p')"
    by (cases "shutdown_for_reload calm_env (pr_gen p, snd ((spawn_in TcpHandlers ^^ 3) s))")
      (simp add: reload_config_def calm_env_loads [OF ab])
  from reload_atomic [OF p r] p r show ?thesis by auto
qed


end
