(* ===== verification/Tcp_Listener.thy ===== *)
theory Tcp_Listener
  imports Tcp_Handler Relay Lifecycle
begin

text \<open>
  TCP service (\<open>tcp.rs\<close>): the accept loop of the transparent listeners and of a port forward, the
  tasks they start, and what a task does from the accepted connection to the end of the relay. The
  properties: which connections are served, and that serving any number of connections keeps the
  state in which the next one is served.
\<close>

section \<open>Accept loops\<close>

text \<open>
  A loop sees its cancellation, a failed accept or a connection with its peer and, if it can be read,
  its local address, which is the original destination. A task is the body of the spawned future, with
  the flag for \<open>TCP_NODELAY\<close> on the client side.
\<close>

datatype AcceptEvent = LoopCancelled | AcceptFailed | Accepted SocketAddr "SocketAddr option"

datatype TcpTask = Connection SocketAddr SocketAddr | NoLocalAddr SocketAddr | ForwardTo SocketAddr SocketAddr

type_synonym spawned = "(nat \<times> bool \<times> TcpTask) list"

definition spawn_handler ::
  "TcpTask \<Rightarrow> ('n4, 'n6) Generation \<times> Tasks \<Rightarrow> (nat \<times> bool \<times> TcpTask) \<times> ('n4, 'n6) Generation \<times> Tasks" where
  "spawn_handler task s = ((tk_next (snd s), c_tcp_nodelay (gn_config (fst s)), task), spawn_in TcpHandlers s)"

text \<open>The Boolean tells whether the loop has ended; without more events it waits.\<close>

fun tcp_accept_loop ::
  "AcceptEvent list \<Rightarrow> ('n4, 'n6) Generation \<times> Tasks \<Rightarrow> spawned \<times> bool \<times> ('n4, 'n6) Generation \<times> Tasks" where
  "tcp_accept_loop [] s = ([], False, s)"
| "tcp_accept_loop (LoopCancelled # evs) s = ([], True, s)"
| "tcp_accept_loop (AcceptFailed # evs) s = tcp_accept_loop evs s"
| "tcp_accept_loop (Accepted peer local_addr # evs) s =
     (let (t, s) = spawn_handler (case local_addr of Some orig_dst \<Rightarrow> Connection peer orig_dst | None \<Rightarrow> NoLocalAddr peer) s;
          (ts, r) = tcp_accept_loop evs s
      in (t # ts, r))"

text \<open>The loop of a port forward returns an error when an accept fails.\<close>

fun run_tcp_port_forward ::
  "SocketAddr \<Rightarrow> AcceptEvent list \<Rightarrow> ('n4, 'n6) Generation \<times> Tasks \<Rightarrow>
   spawned \<times> (unit + unit) option \<times> ('n4, 'n6) Generation \<times> Tasks" where
  "run_tcp_port_forward remote [] s = ([], None, s)"
| "run_tcp_port_forward remote (LoopCancelled # evs) s = ([], Some (Inr ()), s)"
| "run_tcp_port_forward remote (AcceptFailed # evs) s = ([], Some (Inl ()), s)"
| "run_tcp_port_forward remote (Accepted peer local_addr # evs) s =
     (let (t, s) = spawn_handler (ForwardTo peer remote) s;
          (ts, r) = run_tcp_port_forward remote evs s
      in (t # ts, r))"

section \<open>Sessions\<close>

text \<open>What the relay of a session sees: the splice result, the start and the polls of the copy.\<close>

type_synonym relay_run = "(unit + nat \<times> nat) option \<times> nat \<times> CopyPoll list"

datatype SessionEnd = NotStarted | NotConnected "TcpError fault" | Relayed "(RelayError + unit) option"

text \<open>The future of an accepted connection: \<open>handle_tcp_connection\<close> with its relay.\<close>

definition tcp_session ::
  "('n4, 'n6) net_ops \<Rightarrow> nat \<Rightarrow> nat \<Rightarrow> (nat \<Rightarrow> Round) \<Rightarrow> (Sniffer \<times> PeekEvent list) list \<Rightarrow>
   (('n4, 'n6, nat) AppState \<Rightarrow> ('n4, 'n6, nat) AppState) \<Rightarrow> nat \<times> nat \<Rightarrow> relay_run \<Rightarrow>
   SocketAddr \<Rightarrow> SocketAddr \<Rightarrow> ('n4, 'n6, nat) AppState \<Rightarrow> UpstreamSet \<Rightarrow> RelayEffects \<Rightarrow>
   (SessionEnd \<times> ('n4, 'n6, nat) AppState \<times> UpstreamSet \<times> RelayEffects) option" where
  "tcp_session N fuel now rds runs meanwhile track_ids run client_addr orig_dst st us fx =
     (case run of (splice_result, start, polls) \<Rightarrow>
        map_option (\<lambda>(r, st, us).
          case r of
            Inl e \<Rightarrow> (NotConnected e, st, us, fx)
          | Inr _ \<Rightarrow>
              (case relay_tcp (c_splice (st_config st)) (half_close_grace (c_half_close_timeout (st_config st)))
                      splice_result start polls fx of
                 (e, fx) \<Rightarrow> (Relayed e, st, us, fx)))
          (handle_tcp_connection N fuel now rds runs meanwhile track_ids client_addr orig_dst st us))"

text \<open>The future of a forwarded connection: the default group, and no cache.\<close>

definition forward_session ::
  "nat \<Rightarrow> (nat \<Rightarrow> Round) \<Rightarrow> nat \<times> nat \<Rightarrow> relay_run \<Rightarrow> Config \<Rightarrow> SocketAddr \<Rightarrow> UpstreamSet \<Rightarrow> RelayEffects \<Rightarrow>
   (SessionEnd \<times> UpstreamSet \<times> RelayEffects) option" where
  "forward_session fuel rds track_ids run c remote us fx =
     (case run of (splice_result, start, polls) \<Rightarrow>
        map_option (\<lambda>(r, _, us).
          case r of
            Inl e \<Rightarrow> (NotConnected e, us, fx)
          | Inr (_, k) \<Rightarrow>
              let us = us_update k (track (fst track_ids) (snd track_ids)) us
              in case relay_tcp_streams (c_splice c) (half_close_grace (c_half_close_timeout c)) splice_result start polls fx of
                   (e, fx) \<Rightarrow> (Relayed (map_option (map_sum id (\<lambda>_. ())) e), us, fx))
          (try_connect_socks5_group fuel rds c (Socks5Ip remote) 0 ''default'' None us))"

text \<open>
  A spawned task with what it meets: the retry bound, the clock, the network and the other tasks at each
  attempt and while it sniffs, its token and descriptor, and the run of its relay.
\<close>

record ('n4, 'n6) Session =
  si_task :: TcpTask
  si_fuel :: nat
  si_now :: nat
  si_rounds :: "nat \<Rightarrow> Round"
  si_runs :: "(Sniffer \<times> PeekEvent list) list"
  si_meanwhile :: "('n4, 'n6, nat) AppState \<Rightarrow> ('n4, 'n6, nat) AppState"
  si_track_ids :: "nat \<times> nat"
  si_relay :: relay_run

type_synonym ('n4, 'n6) service = "('n4, 'n6, nat) AppState \<times> UpstreamSet \<times> RelayEffects"

definition run_task ::
  "('n4, 'n6) net_ops \<Rightarrow> ('n4, 'n6) Session \<Rightarrow> ('n4, 'n6) service \<Rightarrow> (SessionEnd \<times> ('n4, 'n6) service) option" where
  "run_task N i sv =
     (case sv of (st, us, fx) \<Rightarrow>
        case si_task i of
          Connection peer orig_dst \<Rightarrow>
            tcp_session N (si_fuel i) (si_now i) (si_rounds i) (si_runs i) (si_meanwhile i) (si_track_ids i) (si_relay i)
              peer orig_dst st us fx
        | NoLocalAddr peer \<Rightarrow> Some (NotStarted, sv)
        | ForwardTo peer remote \<Rightarrow>
            map_option (\<lambda>(e, us, fx). (e, st, us, fx))
              (forward_session (si_fuel i) (si_rounds i) (si_track_ids i) (si_relay i) (st_config st) remote us fx))"

section \<open>Lemmas on the accept loops\<close>

fun task_for :: "AcceptEvent \<Rightarrow> TcpTask list" where
  "task_for (Accepted peer (Some orig_dst)) = [Connection peer orig_dst]"
| "task_for (Accepted peer None) = [NoLocalAddr peer]"
| "task_for _ = []"

definition forward_for :: "SocketAddr \<Rightarrow> AcceptEvent \<Rightarrow> TcpTask list" where
  "forward_for remote e = (case e of Accepted peer _ \<Rightarrow> [ForwardTo peer remote] | _ \<Rightarrow> [])"

text \<open>A list of tasks has been spawned one after the other, and all of them run under the guard.\<close>

definition all_spawned ::
  "TcpTask list \<Rightarrow> spawned \<Rightarrow> ('n4, 'n6) Generation \<times> Tasks \<Rightarrow> ('n4, 'n6) Generation \<times> Tasks \<Rightarrow> bool" where
  "all_spawned tasks ts s s' \<longleftrightarrow>
     ts = zip [tk_next (snd s)..<tk_next (snd s) + length tasks] (map (Pair (c_tcp_nodelay (gn_config (fst s)))) tasks) \<and>
     gn_app (fst s') = gn_app (fst s) \<and> tk_next (snd s') = tk_next (snd s) + length tasks \<and>
     tk_running (snd s') = tk_running (snd s) \<union> set (map fst ts) \<and>
     handles_of (fst s) TcpHandlers \<inter> tk_running (snd s) \<union> set (map fst ts) \<subseteq> handles_of (fst s') TcpHandlers"

lemma all_spawned_Nil [simp]: "all_spawned [] [] s s"
  by (auto simp: all_spawned_def)

lemma all_spawned_Cons:
  assumes "spawn_handler task s = (t, s1)" and "all_spawned tasks ts s1 s'"
  shows "all_spawned (task # tasks) (t # ts) s s'"
proof -
  obtain gen tk where s: "s = (gen, tk)" by (cases s)
  have t: "t = (tk_next tk, c_tcp_nodelay (gn_config gen), task)"
    and s1: "gn_app (fst s1) = gn_app gen" "tk_next (snd s1) = tk_next tk + 1"
      "tk_running (snd s1) = insert (tk_next tk) (tk_running tk)"
      "handles_of (fst s1) TcpHandlers = handles_of gen TcpHandlers \<inter> tk_running tk \<union> {tk_next tk}"
    using assms(1) by (auto simp: spawn_handler_def spawn_in_def tg_spawn_def s)
  have c: "gn_config (fst s1) = gn_config gen" by (simp add: gn_config_def s1)
  have "[tk_next tk..<tk_next tk + length (task # tasks)] = tk_next tk # [tk_next tk + 1..<tk_next tk + 1 + length tasks]"
    using upt_conv_Cons [of "tk_next tk" "tk_next tk + length (task # tasks)"] by simp
  then have "t # ts = zip [tk_next tk..<tk_next tk + length (task # tasks)]
      (map (Pair (c_tcp_nodelay (gn_config gen))) (task # tasks))"
    using assms(2) by (simp only: all_spawned_def s1 c) (simp add: t)
  moreover have "set (map fst (t # ts)) = insert (tk_next tk) (set (map fst ts))" by (simp add: t)
  moreover have "gn_app (fst s') = gn_app gen" "tk_next (snd s') = tk_next tk + length (task # tasks)"
      "tk_running (snd s') = insert (tk_next tk) (tk_running tk) \<union> set (map fst ts)"
    and "(handles_of gen TcpHandlers \<inter> tk_running tk \<union> {tk_next tk}) \<inter> insert (tk_next tk) (tk_running tk) \<union> set (map fst ts)
         \<subseteq> handles_of (fst s') TcpHandlers"
    using assms(2) [unfolded all_spawned_def s1 c] by (simp, simp, blast, blast)
  ultimately show ?thesis unfolding all_spawned_def s fst_conv snd_conv by blast
qed

lemma accept_loop_spawns:
  "tcp_accept_loop evs s = (ts, done, s') \<Longrightarrow>
   all_spawned (concat (map task_for (takeWhile (\<lambda>e. e \<noteq> LoopCancelled) evs))) ts s s' \<and> (done \<longleftrightarrow> LoopCancelled \<in> set evs)"
proof (induction evs s arbitrary: ts rule: tcp_accept_loop.induct)
  case (4 peer local_addr evs s)
  let ?task = "case local_addr of Some orig_dst \<Rightarrow> Connection peer orig_dst | None \<Rightarrow> NoLocalAddr peer"
  obtain t s1 where t: "spawn_handler ?task s = (t, s1)" by (meson surj_pair)
  obtain ts1 where ts: "tcp_accept_loop evs s1 = (ts1, done, s')" "ts = t # ts1"
    using 4(2) t by (auto split: prod.splits)
  have "task_for (Accepted peer local_addr) = [?task]" by (cases local_addr) auto
  with all_spawned_Cons [OF t] 4(1) [OF t [symmetric] refl ts(1)] ts(2) show ?case by simp
qed auto

lemma forward_loop_spawns:
  "run_tcp_port_forward remote evs s = (ts, r, s') \<Longrightarrow>
   all_spawned (concat (map (forward_for remote) (takeWhile (\<lambda>e. e \<notin> {LoopCancelled, AcceptFailed}) evs))) ts s s' \<and>
   r = (case dropWhile (\<lambda>e. e \<notin> {LoopCancelled, AcceptFailed}) evs of
          [] \<Rightarrow> None | e # _ \<Rightarrow> Some (if e = LoopCancelled then Inr () else Inl ()))"
proof (induction remote evs s arbitrary: ts rule: run_tcp_port_forward.induct)
  case (4 remote peer local_addr evs s)
  obtain t s1 where t: "spawn_handler (ForwardTo peer remote) s = (t, s1)" by (meson surj_pair)
  obtain ts1 where ts: "run_tcp_port_forward remote evs s1 = (ts1, r, s')" "ts = t # ts1"
    using 4(2) t by (auto split: prod.splits)
  with all_spawned_Cons [OF t] 4(1) [OF t [symmetric] refl ts(1)] show ?case by (simp add: forward_for_def)
qed auto

lemma all_spawnedD:
  assumes "all_spawned tasks ts s s'"
  shows "map (snd \<circ> snd) ts = tasks" and "map fst ts = [tk_next (snd s)..<tk_next (snd s) + length ts]"
    and "\<forall>t \<in> set ts. fst (snd t) = c_tcp_nodelay (gn_config (fst s))"
    and "set (map fst ts) \<subseteq> handles_of (fst s') TcpHandlers" and "tk_running (snd s') = tk_running (snd s) \<union> set (map fst ts)"
proof -
  let ?ids = "[tk_next (snd s)..<tk_next (snd s) + length tasks]" and ?bodies = "map (Pair (c_tcp_nodelay (gn_config (fst s)))) tasks"
  have ts: "ts = zip ?ids ?bodies" using assms unfolding all_spawned_def by (rule conjunct1)
  have len: "length ts = length tasks" and f: "map fst ts = ?ids" and b: "map snd ts = ?bodies" unfolding ts by simp_all
  show "map fst ts = [tk_next (snd s)..<tk_next (snd s) + length ts]" by (simp only: len f)
  show "map (snd \<circ> snd) ts = tasks" by (simp only: map_map [symmetric] b) (simp add: comp_def)
  show "\<forall>t \<in> set ts. fst (snd t) = c_tcp_nodelay (gn_config (fst s))"
    using arg_cong [OF b, of set] by (metis (mono_tags, lifting) fst_conv image_eqI image_iff list.set_map)
  show "set (map fst ts) \<subseteq> handles_of (fst s') TcpHandlers" "tk_running (snd s') = tk_running (snd s) \<union> set (map fst ts)"
    using assms unfolding all_spawned_def by blast+
qed

section \<open>Serving keeps the state\<close>

text \<open>
  The state between two sessions: reached from the built one by the operations of the routing, and
  every cached upstream is one of the set.
\<close>

definition cached_in :: "nat \<Rightarrow> ('n4, 'n6, nat) AppState \<Rightarrow> bool" where
  "cached_in n st \<longleftrightarrow> (\<forall>(_, k) \<in> cache_entries (st_upstream_cache st). k < n)"

definition serving :: "('n4, 'n6) net_ops \<Rightarrow> ('n4, 'n6, nat) AppState \<Rightarrow> nat \<Rightarrow> ('n4, 'n6, nat) AppState \<Rightarrow> bool" where
  "serving N st0 n st \<longleftrightarrow> app_reachable N st0 st \<and> cached_in n st"

lemma serving_decide: "serving N st0 n st \<Longrightarrow> serving N st0 n (snd (should_direct N now st ip d))"
proof -
  have "st_upstream_cache (snd (should_direct N now st ip d)) = st_upstream_cache st"
    by (auto simp: should_direct_def Let_def direct_cache_insert_with_key_def split: ProxyMode.split option.split prod.split)
  then show "serving N st0 n st \<Longrightarrow> ?thesis"
    by (auto simp: serving_def cached_in_def intro: app_reachable.step app_step.decide)
qed

lemma serving_cached:
  assumes "serving N st0 n st" and "get_cached_upstream now st cip tip d = (r, st')"
  shows "serving N st0 n st'" and "r = Some k \<Longrightarrow> k < n"
proof -
  let ?get = "cache_get now (st_route_cache_ttl st) (cip, tip, normalize_domain d) (st_upstream_cache st)"
  have app: "app_reachable N st0 st'"
    using assms app_reachable.step [OF _ app_step.cached, of N st0 st now cip tip d] by (simp add: serving_def)
  have "cached_in n st' \<and> (\<forall>k. r = Some k \<longrightarrow> k < n)"
  proof (cases "st_route_cache_ttl st = 0")
    case True
    then show ?thesis using assms by (auto simp: serving_def get_cached_upstream_def)
  next
    case False
    obtain r' c where g: "?get = (r', c)" by (meson surj_pair)
    then have r: "r' = r" "st' = st\<lparr>st_upstream_cache := c\<rparr>" using assms(2) False by (simp_all add: get_cached_upstream_def)
    have inn: "\<forall>(_, k) \<in> cache_entries (st_upstream_cache st). k < n" using assms(1) by (simp add: serving_def cached_in_def)
    have "k < n" if "r' = Some k" for k using rc.hit_satisfies [OF g [unfolded that] inn] .
    with rc.get_keeps [OF g inn] show ?thesis by (simp add: cached_in_def r)
  qed
  with app show "serving N st0 n st'" and "r = Some k \<Longrightarrow> k < n" by (auto simp: serving_def)
qed

lemma serving_store: "serving N st0 n st \<Longrightarrow> k < n \<Longrightarrow> serving N st0 n (cache_upstream now st cip tip d k)"
  using app_reachable.step [OF _ app_step.store, of N st0 st now cip tip d k]
    rc.put_keeps [where P = "\<lambda>_ k. k < n" and c = "st_upstream_cache st" and v = k]
  by (auto simp: serving_def cached_in_def cache_upstream_def)

lemma serving_forget: "serving N st0 n st \<Longrightarrow> serving N st0 n (remove_cached_upstream st cip tip d)"
  using app_reachable.step [OF _ app_step.forget, of N st0 st cip tip d]
  by (auto simp: serving_def cached_in_def remove_cached_upstream_def cache_entries_def AList.delete_eq)

lemma us_update_reachable:
  assumes "us_reachable us0 us" and "k < length (us_all_items us)" and "upstream_step (us_up us k) (f (us_up us k))"
  shows "us_reachable us0 (us_update k f us)"
proof -
  have "us_update k f us = us_update k (\<lambda>_. f (us_up us k)) us" by (simp add: us_update_def)
  then show ?thesis using us_reachable.step [OF assms(1) us_step.upstream [OF assms(2,3)]] by simp
qed

lemma try_group_total:
  assumes "us_live us" and "rounds_ok rds" and "2 * length (us_all_items us) + 2 \<le> fuel"
  shows "\<exists>r tried us'. try_connect_socks5_group fuel rds c target i grp exclude us = Some (r, tried, us') \<and>
    us_reachable us us' \<and> r \<noteq> Inl Panic \<and> (\<forall>s k. r = Inr (s, k) \<longrightarrow> k < length (us_all_items us))"
proof -
  have "tries_left us grp (set_option exclude) < fuel"
    using tries_left_bound [of us grp "set_option exclude"] assms(3) by simp
  from try_connect_loop_complete [OF assms(2,1) this, of c target i] obtain r tried us' where
    run: "try_connect_loop fuel rds c target i grp (set_option exclude) us = Some (r, tried, us')" "us_reachable us us'"
      and w: "tried_well us grp (set_option exclude) r tried" by blast
  have "k < length (us_all_items us)" if r: "r = Inr (s, k)" for s k
  proof -
    obtain g where "tried \<noteq> []" "last tried = (g, k)" using w unfolding tried_well_def r by auto
    then have "(g, k) \<in> set tried" by (metis last_in_set)
    then have "k \<in> set (members us g)" using w by (auto simp: tried_well_def)
    then show ?thesis by (rule members_bound [OF assms(1)])
  qed
  with run w show ?thesis unfolding try_connect_socks5_group_def by (auto simp: tried_well_def)
qed

lemma serving_length: "us_live us \<Longrightarrow> us_reachable us us' \<Longrightarrow> length (us_all_items us') = length (us_all_items us)"
  using us_live_reachable fixed_view(3) by blast

text \<open>The outcome of a connection attempt that leaves everything in order.\<close>

definition connected_well ::
  "('n4, 'n6) net_ops \<Rightarrow> ('n4, 'n6, nat) AppState \<Rightarrow> UpstreamSet \<Rightarrow>
   (TcpError, TcpStream \<times> nat option) rres \<times> ('n4, 'n6, nat) AppState \<times> UpstreamSet \<Rightarrow> bool" where
  "connected_well N st0 us x \<longleftrightarrow>
     (case x of (r, st, us') \<Rightarrow>
        r \<noteq> Inl Panic \<and> serving N st0 (length (us_all_items us)) st \<and> us_reachable us us' \<and>
        (\<forall>s k. r = Inr (s, Some k) \<longrightarrow> k < length (us_all_items us)))"

lemma tcp_connect_well:
  assumes st: "serving N st0 (length (us_all_items us)) st" and us: "us_live us" "rounds_ok rds"
    and fuel: "2 * length (us_all_items us) + 2 \<le> fuel"
  shows "\<exists>x. tcp_connect N fuel now rds client dst target domain st us = Some x \<and> connected_well N st0 us x"
proof (cases "\<exists>addr. target = Direct addr")
  case True
  then show ?thesis
    using st by (auto simp: tcp_connect_def connected_well_def direct_connect_def ok_or_def us_reachable.start split: option.split)
next
  case False
  let ?picked = "\<lambda>st exclude us. map_option (\<lambda>(r, _, us). (bindR r (\<lambda>(s, k). Inr (s, Some k)), st, us))
    (pick_and_connect N fuel rds target st client dst domain exclude us)"
  have picked: "\<exists>x. ?picked s exclude u = Some x \<and> connected_well N st0 us x"
    if "serving N st0 (length (us_all_items us)) s" and r: "us_reachable us u" for s exclude u
  proof -
    have len: "length (us_all_items u) = length (us_all_items us)" by (rule serving_length [OF us(1) r])
    obtain res tried u' where x: "pick_and_connect N fuel rds target s client dst domain exclude u = Some (res, tried, u')"
        "us_reachable u u'" "res \<noteq> Inl Panic" "\<forall>c k. res = Inr (c, k) \<longrightarrow> k < length (us_all_items us)"
      using try_group_total [OF conjunct1 [OF us_live_reachable [OF us(1) r]] us(2)] fuel
      unfolding pick_and_connect_def Let_def len by blast
    then show ?thesis using that us_reachable_trans [OF x(2) r]
      by (cases res) (auto simp: connected_well_def)
  qed
  obtain c st1 where c: "get_cached_upstream now st (sa_ip client) (sa_ip dst) domain = (c, st1)" by (meson surj_pair)
  note s1 = serving_cached [OF st c]
  have proxied: "(case target of Direct a \<Rightarrow> f a | Socks5Ip _ \<Rightarrow> x | Socks5Domain _ _ \<Rightarrow> x) = x" for f and x :: 'z
    using False by (cases target) auto
  have unfold: "tcp_connect N fuel now rds client dst target domain st us =
      (case c of None \<Rightarrow> ?picked st1 None us
       | Some k \<Rightarrow>
           (case connect_tcp_upstream (rds 0) target (up_addr (us_up us k)) (socks5_credentials (st_config st1)) of
              Inr s \<Rightarrow> Some (Inr (s, Some k), st1, us)
            | Inl Panic \<Rightarrow> Some (Inl Panic, st1, us)
            | Inl (Fail e) \<Rightarrow>
                let st = remove_cached_upstream st1 (sa_ip client) (sa_ip dst) domain;
                    us = (if c_disable_upstream_score (st_config st) then us else us_update k (penalize (rd_now (rds 0))) us)
                in ?picked st (Some (up_id (us_up us k))) us))"
    by (simp only: tcp_connect_def proxied c Let_def prod.case)
  show ?thesis
  proof (cases c)
    case None
    then show ?thesis unfolding unfold using picked [OF s1(1) us_reachable.start] by simp
  next
    case (Some k)
    note k = s1(2) [OF Some]
    let ?conn = "connect_tcp_upstream (rds 0) target (up_addr (us_up us k)) (socks5_credentials (st_config st1))"
    have pen: "us_reachable us (us_update k (penalize (rd_now (rds 0))) us)"
      using us_update_reachable [OF us_reachable.start k, where f = "penalize (rd_now (rds 0))"] upstream_step.penalty by blast
    show ?thesis
    proof (cases ?conn)
      case (Inl e)
      then obtain e' where "e = Fail e'" using connect_no_panic [of "rds 0" target] by (cases e) auto
      with Inl Some show ?thesis
        unfolding unfold using picked [OF serving_forget [OF s1(1)] pen] picked [OF serving_forget [OF s1(1)] us_reachable.start]
        by (simp add: Let_def)
    next
      case (Inr s)
      then show ?thesis unfolding unfold using Some s1(1) k by (simp add: connected_well_def us_reachable.start)
    qed
  qed
qed

lemma tcp_route_well:
  assumes st: "serving N st0 n st" and m: "\<And>s. serving N st0 n s \<Longrightarrow> serving N st0 n (meanwhile s)"
    and sniff: "\<And>cap. \<exists>d. sniff_domain runs cap = Inr d"
  shows "\<exists>target used st'. tcp_route N now runs meanwhile client dst st = Inr (target, used, st') \<and> serving N st0 n st'"
proof -
  let ?sd = "\<lambda>s d. should_direct N now s (sa_ip dst) d"
  obtain b st1 where s1: "?sd st None = (b, st1)" by (meson surj_pair)
  have v1: "serving N st0 n st1" using serving_decide [OF st, of now "sa_ip dst" None] by (simp add: s1)
  have v2: "serving N st0 n (snd (?sd (meanwhile st1) d))" for d by (rule serving_decide [OF m [OF v1]])
  obtain d where d: "sniff_domain runs (c_tcp_peek_buffer_size (st_config st1)) = Inr d" using sniff by blast
  show ?thesis
    using v1 m [OF v1] v2 [of d] v2 [of None]
    by (auto simp: tcp_route_def Let_def s1 d split: prod.splits)
qed

lemma track_reachable:
  "us_live us \<Longrightarrow> us_reachable us us' \<Longrightarrow> k < length (us_all_items us) \<Longrightarrow> us_reachable us (us_update k (track token fd) us')"
  using us_update_reachable [of us us' k "track token fd"] upstream_step.track by (simp add: serving_length)

lemma handle_tcp_well:
  assumes st: "serving N st0 (length (us_all_items us)) st" and us: "us_live us" "rounds_ok rds"
    and fuel: "2 * length (us_all_items us) + 2 \<le> fuel"
    and m: "\<And>s. serving N st0 (length (us_all_items us)) s \<Longrightarrow> serving N st0 (length (us_all_items us)) (meanwhile s)"
    and sniff: "\<And>cap. \<exists>d. sniff_domain runs cap = Inr d"
  shows "\<exists>x. handle_tcp_connection N fuel now rds runs meanwhile ids client dst st us = Some x \<and> connected_well N st0 us x"
proof -
  obtain target used st1 where r: "tcp_route N now runs meanwhile client dst st = Inr (target, used, st1)"
      "serving N st0 (length (us_all_items us)) st1"
    using tcp_route_well [where meanwhile = meanwhile, OF st m sniff] by blast
  obtain res st2 us2 where c: "tcp_connect N fuel now rds client dst target used st1 us = Some (res, st2, us2)"
      "connected_well N st0 us (res, st2, us2)"
    using tcp_connect_well [OF r(2) us fuel] by (metis surj_pair)
  show ?thesis
  proof (cases "\<exists>s k. res = Inr (s, Some k)")
    case True
    then obtain s k where res: "res = Inr (s, Some k)" by blast
    with c(2) have k: "k < length (us_all_items us)" "serving N st0 (length (us_all_items us)) st2" "us_reachable us us2"
      by (auto simp: connected_well_def)
    from serving_store [OF k(2,1)] track_reachable [OF us(1) k(3,1)] show ?thesis
      using k(1) by (simp add: handle_tcp_connection_def r(1) c(1) res connected_well_def)
  next
    case False
    then have "handle_tcp_connection N fuel now rds runs meanwhile ids client dst st us = Some (res, st2, us2)"
      by (auto simp: handle_tcp_connection_def r(1) c(1) split: sum.split option.split)
    with c(2) show ?thesis by blast
  qed
qed

text \<open>The service as a server of sessions.\<close>

definition fit_session :: "('n4, 'n6) net_ops \<Rightarrow> ('n4, 'n6, nat) AppState \<Rightarrow> nat \<Rightarrow> Config \<Rightarrow> ('n4, 'n6) Session \<Rightarrow> bool" where
  "fit_session N st0 n c i \<longleftrightarrow>
     rounds_ok (si_rounds i) \<and> 2 * n + 2 \<le> si_fuel i \<and>
     (\<forall>s. serving N st0 n s \<longrightarrow> serving N st0 n (si_meanwhile i s)) \<and>
     set (map fst (si_runs i)) \<subseteq> set (build_sniffers c) \<and> (\<exists>stream. \<forall>(s, es) \<in> set (si_runs i). reads_from stream es)"

definition service_ok :: "('n4, 'n6) net_ops \<Rightarrow> ('n4, 'n6, nat) AppState \<Rightarrow> nat \<Rightarrow> ('n4, 'n6) service \<Rightarrow> bool" where
  "service_ok N st0 n sv \<longleftrightarrow> (case sv of (st, us, _) \<Rightarrow> serving N st0 n st \<and> us_live us \<and> length (us_all_items us) = n)"

lemma service_ok_reachable:
  "us_live us \<Longrightarrow> us_reachable us us' \<Longrightarrow> serving N st0 (length (us_all_items us)) st \<Longrightarrow>
   service_ok N st0 (length (us_all_items us)) (st, us', fx)"
  using us_live_reachable serving_length by (fastforce simp: service_ok_def)

lemma tcp_session_ok:
  assumes fit: "fit_session N st0 n c i" and ok: "service_ok N st0 n (st, us, fx)"
  shows "\<exists>e sv. tcp_session N (si_fuel i) (si_now i) (si_rounds i) (si_runs i) (si_meanwhile i) (si_track_ids i) (si_relay i)
      client dst st us fx = Some (e, sv) \<and> e \<noteq> NotConnected Panic \<and> service_ok N st0 n sv"
proof -
  have n: "n = length (us_all_items us)" and sv: "serving N st0 (length (us_all_items us)) st" "us_live us"
    using ok by (auto simp: service_ok_def)
  obtain stream where stream: "\<forall>(s, es) \<in> set (si_runs i). reads_from stream es" using fit by (auto simp: fit_session_def)
  have "\<exists>x. handle_tcp_connection N (si_fuel i) (si_now i) (si_rounds i) (si_runs i) (si_meanwhile i) (si_track_ids i)
      client dst st us = Some x \<and> connected_well N st0 us x"
    using fit sniff_domain_returns [OF _ stream, of c] unfolding fit_session_def n by (intro handle_tcp_well [OF sv]) auto
  then obtain r st' us' where h: "handle_tcp_connection N (si_fuel i) (si_now i) (si_rounds i) (si_runs i) (si_meanwhile i)
      (si_track_ids i) client dst st us = Some (r, st', us')" "connected_well N st0 us (r, st', us')"
    using prod_cases3 by metis
  obtain sr start polls where run: "si_relay i = (sr, start, polls)" by (metis surj_pair)
  have "r \<noteq> Inl Panic" "\<And>fx. service_ok N st0 n (st', us', fx)"
    using h(2) service_ok_reachable [OF sv(2)] unfolding n by (auto simp: connected_well_def)
  then show ?thesis by (cases r) (auto simp: tcp_session_def run h(1) split: prod.split)
qed

lemma forward_session_ok:
  assumes fit: "fit_session N st0 n c i" and ok: "service_ok N st0 n (st, us, fx)"
  shows "\<exists>e us' fx'. forward_session (si_fuel i) (si_rounds i) (si_track_ids i) (si_relay i) cfg remote us fx = Some (e, us', fx') \<and>
    e \<noteq> NotConnected Panic \<and> service_ok N st0 n (st, us', fx')"
proof -
  have n: "n = length (us_all_items us)" and sv: "serving N st0 (length (us_all_items us)) st" "us_live us"
    using ok by (auto simp: service_ok_def)
  obtain sr start polls where run: "si_relay i = (sr, start, polls)" by (metis surj_pair)
  have "rounds_ok (si_rounds i)" "2 * length (us_all_items us) + 2 \<le> si_fuel i" using fit by (simp_all add: fit_session_def n)
  from try_group_total [OF sv(2) this] obtain r tried us2 where
    g: "try_connect_socks5_group (si_fuel i) (si_rounds i) cfg (Socks5Ip remote) 0 ''default'' None us = Some (r, tried, us2)"
      "us_reachable us us2" "r \<noteq> Inl Panic" "\<forall>s k. r = Inr (s, k) \<longrightarrow> k < length (us_all_items us)" by blast
  show ?thesis
  proof (cases r)
    case (Inl e)
    then show ?thesis using g service_ok_reachable [OF sv(2) g(2) sv(1)] by (simp add: forward_session_def run n)
  next
    case (Inr sk)
    obtain s k where sk: "sk = (s, k)" by (cases sk)
    have t: "us_reachable us (us_update k (track (fst (si_track_ids i)) (snd (si_track_ids i))) us2)"
      using g(4) Inr sk by (intro track_reachable [OF sv(2) g(2)]) simp
    show ?thesis using service_ok_reachable [OF sv(2) t sv(1)]
      by (cases "relay_tcp_streams (c_splice cfg) (half_close_grace (c_half_close_timeout cfg)) sr start polls fx")
        (simp add: forward_session_def run g(1) Inr sk Let_def n)
  qed
qed

interpretation tcp_service: session_server "run_task N" "fit_session N st0 n c" "service_ok N st0 n" "\<lambda>e. e \<noteq> NotConnected Panic"
  for N st0 n c
proof unfold_locales
  fix i and sv :: "('a, 'b) service"
  assume fit: "fit_session N st0 n c i" and ok: "service_ok N st0 n sv"
  obtain st us fx where sv: "sv = (st, us, fx)" by (cases sv)
  show "\<exists>e sv'. run_task N i sv = Some (e, sv') \<and> e \<noteq> NotConnected Panic \<and> service_ok N st0 n sv'"
  proof (cases "si_task i")
    case (Connection peer orig_dst)
    then show ?thesis using tcp_session_ok [OF fit ok [unfolded sv]] by (simp add: run_task_def sv)
  next
    case (ForwardTo peer remote)
    then show ?thesis using forward_session_ok [OF fit ok [unfolded sv]] by (fastforce simp: run_task_def sv)
  qed (use ok in \<open>simp add: run_task_def sv\<close>)
qed

section \<open>Properties\<close>


text \<open>
  C17: Every accepted connection is served. The accept loop of a listener ends only when it is cancelled,
  and until then each connection it accepts, also after failed accepts, gets a task of its own under the
  guard of the generation, in order, with its peer and its original destination. The loop of a port
  forward serves in the same way the connections up to the first failed accept, which ends it with an
  error. All tasks that were running run on.
\<close>

theorem accept_loops_serve:
  assumes "tcp_accept_loop evs s = (ts, done, s')" and "run_tcp_port_forward remote evs s = (fts, r, fs')"
  shows "map (snd \<circ> snd) ts = concat (map task_for (takeWhile (\<lambda>e. e \<noteq> LoopCancelled) evs)) \<and>
    map fst ts = [tk_next (snd s)..<tk_next (snd s) + length ts] \<and>
    (\<forall>t \<in> set ts. fst (snd t) = c_tcp_nodelay (gn_config (fst s))) \<and>
    (done \<longleftrightarrow> LoopCancelled \<in> set evs) \<and>
    set (map fst ts) \<subseteq> handles_of (fst s') TcpHandlers \<and> tk_running (snd s') = tk_running (snd s) \<union> set (map fst ts) \<and>
    map (snd \<circ> snd) fts = concat (map (forward_for remote) (takeWhile (\<lambda>e. e \<notin> {LoopCancelled, AcceptFailed}) evs)) \<and>
    set (map fst fts) \<subseteq> handles_of (fst fs') TcpHandlers \<and> tk_running (snd fs') = tk_running (snd s) \<union> set (map fst fts) \<and>
    (r = Some (Inl ()) \<longleftrightarrow> (\<exists>pre rest. evs = pre @ AcceptFailed # rest \<and> set pre \<inter> {LoopCancelled, AcceptFailed} = {}))"
proof -
  note a = accept_loop_spawns [OF assms(1)] and f = forward_loop_spawns [OF assms(2)]
  let ?P = "\<lambda>e. e \<notin> {LoopCancelled, AcceptFailed}"
  have "(\<exists>pre rest. evs = pre @ AcceptFailed # rest \<and> set pre \<inter> {LoopCancelled, AcceptFailed} = {}) \<longleftrightarrow>
      (\<exists>rest. dropWhile ?P evs = AcceptFailed # rest)"
  proof
    assume "\<exists>pre rest. evs = pre @ AcceptFailed # rest \<and> set pre \<inter> {LoopCancelled, AcceptFailed} = {}"
    then obtain pre rest where "evs = pre @ AcceptFailed # rest" "\<forall>e \<in> set pre. ?P e" by blast
    then show "\<exists>rest. dropWhile ?P evs = AcceptFailed # rest" by (simp add: dropWhile_append2)
  next
    assume "\<exists>rest. dropWhile ?P evs = AcceptFailed # rest"
    then obtain rest where "dropWhile ?P evs = AcceptFailed # rest" by blast
    then have "evs = takeWhile ?P evs @ AcceptFailed # rest" by (metis takeWhile_dropWhile_id)
    moreover have "set (takeWhile ?P evs) \<inter> {LoopCancelled, AcceptFailed} = {}" by (auto dest: set_takeWhileD)
    ultimately show "\<exists>pre rest. evs = pre @ AcceptFailed # rest \<and> set pre \<inter> {LoopCancelled, AcceptFailed} = {}" by blast
  qed
  moreover have "r = Some (Inl ()) \<longleftrightarrow> (\<exists>rest. dropWhile ?P evs = AcceptFailed # rest)"
  proof (cases "dropWhile ?P evs")
    case (Cons e rest)
    then have "\<not> ?P e" using hd_dropWhile [of ?P evs] by simp
    with conjunct2 [OF f, unfolded Cons] show ?thesis unfolding Cons by auto
  qed (simp only: conjunct2 [OF f] list.case, simp)
  ultimately show ?thesis
    using conjunct2 [OF a] all_spawnedD [OF conjunct1 [OF a]] all_spawnedD [OF conjunct1 [OF f]] by (intro conjI) (assumption | simp only:)+
qed

section \<open>Witnesses\<close>

definition demo_session :: "TcpTask \<Rightarrow> ('n4, 'n6) Session" where
  "demo_session task = \<lparr>si_task = task, si_fuel = 6, si_now = 0, si_rounds = dead_rounds, si_runs = [], si_meanwhile = id,
     si_track_ids = (0, 5), si_relay = (None, 0, [])\<rparr>"


theorem accept_loops_serve_witness:
  "\<exists>ab ts s' fts r fs'. app_build no_files word_net_ops routed_config = Inr ab \<and>
    (let evs = [Accepted (SocketAddr (V4 1) 1) (Some (SocketAddr (V4 2) 80)), AcceptFailed, Accepted (SocketAddr (V4 3) 1) None];
         s = (generation_new ab, \<lparr>tk_running = {}, tk_next = 0\<rparr>)
     in tcp_accept_loop evs s = (ts, False, s') \<and> run_tcp_port_forward (SocketAddr (V4 9) 9) evs s = (fts, r, fs') \<and>
        map (snd \<circ> snd) ts = [Connection (SocketAddr (V4 1) 1) (SocketAddr (V4 2) 80), NoLocalAddr (SocketAddr (V4 3) 1)] \<and>
        r = Some (Inl ()))"
proof -
  obtain ab where ab: "app_build no_files word_net_ops routed_config = Inr ab" using routed_config_builds by blast
  define evs where "evs = [Accepted (SocketAddr (V4 1) 1) (Some (SocketAddr (V4 2) 80)), AcceptFailed, Accepted (SocketAddr (V4 3) 1) None]"
  define s where "s = (generation_new ab, \<lparr>tk_running = {}, tk_next = 0\<rparr>)"
  obtain ts b s' where a: "tcp_accept_loop evs s = (ts, b, s')" by (metis surj_pair)
  obtain fts r fs' where f: "run_tcp_port_forward (SocketAddr (V4 9) 9) evs s = (fts, r, fs')" by (metis surj_pair)
  note w = accept_loops_serve [OF a f]
  have "map (snd \<circ> snd) ts = [Connection (SocketAddr (V4 1) 1) (SocketAddr (V4 2) 80), NoLocalAddr (SocketAddr (V4 3) 1)]" "b = False"
    using w by (simp_all add: evs_def)
  moreover have "r = Some (Inl ())"
    using w by (elim conjE) (erule iffD2, rule exI [of _ "[Accepted (SocketAddr (V4 1) 1) (Some (SocketAddr (V4 2) 80))]"], simp add: evs_def)
  ultimately show ?thesis
    unfolding Let_def evs_def [symmetric]
    by (intro exI [of _ ab] exI [of _ ts] exI [of _ s'] exI [of _ fts] exI [of _ r] exI [of _ fs'] conjI)
      (simp_all only: ab a f s_def [symmetric])
qed

end
