(* ===== verification/Upstream_Tasks.thy ===== *)
theory Upstream_Tasks
  imports Upstream_Set "HOL-Library.Multiset"
begin

text \<open>
  The background tasks of \<open>upstream.rs\<close> as loops: scoring by throughput, health checks, relative scoring,
  the listener for probe reports and the score printer. Each waits for its cancellation or for its next
  event, in that order of preference, and then works on the upstreams it shares with all other tasks.
  \<open>task_loop\<close> is that loop; an event of a run is a cancellation, a wake-up or whatever the others do meanwhile.
\<close>

section \<open>Loops\<close>

datatype ('x, 'u) TaskEvent = TaskCancel | TaskWake 'x | TaskOthers "'u \<Rightarrow> 'u"

text \<open>The state is what the task keeps to itself and what it shares; the flag tells whether it has ended.\<close>

fun task_loop :: "('x \<Rightarrow> 'p \<times> 'u \<Rightarrow> 'p \<times> 'u) \<Rightarrow> ('x, 'u) TaskEvent list \<Rightarrow> 'p \<times> 'u \<Rightarrow> bool \<times> 'p \<times> 'u" where
  "task_loop wake [] s = (False, s)"
| "task_loop wake (TaskCancel # es) s = (True, s)"
| "task_loop wake (TaskWake x # es) s = task_loop wake es (wake x s)"
| "task_loop wake (TaskOthers g # es) s = task_loop wake es (fst s, g (snd s))"

text \<open>A task whose wake-ups keep an invariant of what is shared.\<close>

locale shared_task =
  fixes wake :: "'x \<Rightarrow> 'p \<times> 'u \<Rightarrow> 'p \<times> 'u" and inv :: "'u \<Rightarrow> bool"
  assumes wake_inv: "inv u \<Longrightarrow> inv (snd (wake x (p, u)))"
begin

lemma run_keeps:
  "inv (snd s) \<Longrightarrow> (\<And>g u. TaskOthers g \<in> set es \<Longrightarrow> inv u \<Longrightarrow> inv (g u)) \<Longrightarrow> inv (snd (snd (task_loop wake es s)))"
proof (induction es arbitrary: s)
  case (Cons e es)
  from wake_inv [of "snd s" _ "fst s"] Cons show ?case by (cases e) auto
qed simp

lemma run_ends: "fst (task_loop wake es s) \<longleftrightarrow> TaskCancel \<in> set es"
proof (induction es arbitrary: s)
  case (Cons e es)
  then show ?case by (cases e) simp_all
qed simp

end

section \<open>Scores from throughput\<close>

definition score_wake ::
  "nat \<Rightarrow> bool \<Rightarrow> (nat \<Rightarrow> bool) \<times> (nat \<Rightarrow> (nat \<times> nat) option) \<times> nat \<Rightarrow> unit \<times> UpstreamSet \<Rightarrow> unit \<times> UpstreamSet" where
  "score_wake k relative_mode tick s =
     (case (tick, s) of ((live, tcp_info, now), (p, us)) \<Rightarrow>
        (p, us_update k (score_tick relative_mode live tcp_info now) us))"

definition run_score_task ::
  "nat \<Rightarrow> bool \<Rightarrow> ((nat \<Rightarrow> bool) \<times> (nat \<Rightarrow> (nat \<times> nat) option) \<times> nat, UpstreamSet) TaskEvent list \<Rightarrow> UpstreamSet \<Rightarrow>
   bool \<times> unit \<times> UpstreamSet" where
  "run_score_task k relative_mode es us = task_loop (score_wake k relative_mode) es ((), us)"

section \<open>Health checks\<close>

text \<open>
  The upstream that is being checked, if a round is under way; the interval is polled only between
  rounds, so a tick listed during a round does nothing. A cancellation during a round leaves the round
  and then the loop.
\<close>

datatype HealthWake = HealthTick | HealthFound bool nat

definition health_wake :: "nat \<Rightarrow> HealthWake \<Rightarrow> nat option \<times> UpstreamSet \<Rightarrow> nat option \<times> UpstreamSet" where
  "health_wake fail_threshold w s =
     (case (w, s) of
        (HealthTick, (None, us)) \<Rightarrow> (if us_all_items us = [] then None else Some 0, us)
      | (HealthTick, (Some k, us)) \<Rightarrow> (Some k, us)
      | (HealthFound alive now, (None, us)) \<Rightarrow> (None, us)
      | (HealthFound alive now, (Some k, us)) \<Rightarrow>
          (if k + 1 < length (us_all_items us) then Some (k + 1) else None,
           us_update k (health_check_step fail_threshold alive now) us))"

definition run_health_check_task ::
  "Config \<Rightarrow> (HealthWake, UpstreamSet) TaskEvent list \<Rightarrow> UpstreamSet \<Rightarrow> bool \<times> nat option \<times> UpstreamSet" where
  "run_health_check_task c es us = task_loop (health_wake (c_health_check_fail_threshold c)) es (None, us)"

section \<open>Relative scores\<close>

definition relative_wake :: "nat \<Rightarrow> nat \<Rightarrow> (f64 \<times> f64) \<times> UpstreamSet \<Rightarrow> (f64 \<times> f64) \<times> UpstreamSet" where
  "relative_wake stale_secs now s =
     (case s of (emas, us) \<Rightarrow>
        case relative_tick stale_secs now emas (us_all_items us) of
          (emas', ups) \<Rightarrow> (emas', us\<lparr>us_all_items := ups\<rparr>))"

definition run_relative_score_task ::
  "Config \<Rightarrow> (nat, UpstreamSet) TaskEvent list \<Rightarrow> UpstreamSet \<Rightarrow> bool \<times> (f64 \<times> f64) \<times> UpstreamSet" where
  "run_relative_score_task c es us = task_loop (relative_wake (c_quic_stale_secs c)) es ((Fin 0, Fin 0), us)"

section \<open>Probe reports\<close>

definition stats_report ::
  "(f64 \<Rightarrow> f64) \<Rightarrow> Config \<Rightarrow> ShadowQuicReport \<Rightarrow> nat \<Rightarrow> UpstreamSet \<Rightarrow> UpstreamSet" where
  "stats_report exp_f64 c rep now us =
     (if c_disable_upstream_score c then us
      else case find_by_id (sq_upstream_id rep) us of
             None \<Rightarrow> us
           | Some k \<Rightarrow> us_update k (apply_report exp_f64 (c_enable_relative_scoring c) rep now) us)"

text \<open>
  A datagram is cut to the 2048 bytes of the buffer and parsed by \<open>from_slice\<close>; a failed receive does
  nothing. The current state, which a reload may have replaced, is loaded anew for every report.
\<close>

datatype StatsWake = StatsDatagram bytes nat | StatsError

definition stats_wake ::
  "(f64 \<Rightarrow> f64) \<Rightarrow> (bytes \<Rightarrow> ShadowQuicReport option) \<Rightarrow> StatsWake \<Rightarrow> unit \<times> Config \<times> UpstreamSet \<Rightarrow> unit \<times> Config \<times> UpstreamSet" where
  "stats_wake exp_f64 from_slice w s =
     (case (w, s) of
        (StatsDatagram d now, (p, c, us)) \<Rightarrow>
          (case from_slice (take 2048 d) of
             None \<Rightarrow> (p, c, us)
           | Some rep \<Rightarrow> (p, c, stats_report exp_f64 c rep now us))
      | (StatsError, s) \<Rightarrow> s)"

text \<open>The result: whether the listener has ended, whether its socket file exists, and the state.\<close>

definition run_upstream_stats_listener ::
  "(f64 \<Rightarrow> f64) \<Rightarrow> (bytes \<Rightarrow> ShadowQuicReport option) \<Rightarrow> bool \<Rightarrow> bool \<Rightarrow> (StatsWake, Config \<times> UpstreamSet) TaskEvent list \<Rightarrow>
   Config \<times> UpstreamSet \<Rightarrow> bool \<times> bool \<times> Config \<times> UpstreamSet" where
  "run_upstream_stats_listener exp_f64 from_slice bound chmod_ok es s =
     (if \<not> bound \<or> \<not> chmod_ok then (True, False, s)
      else case task_loop (stats_wake exp_f64 from_slice) es ((), s) of (ended, _, s) \<Rightarrow> (ended, \<not> ended, s))"

section \<open>The score printer\<close>

record UpstreamScoreSnapshot =
  ss_id :: rstr
  ss_tcp_raw :: nat
  ss_tcp_init :: bool
  ss_quic_up_raw :: nat
  ss_quic_up_age :: nat
  ss_quic_up_init :: bool
  ss_quic_down_raw :: nat
  ss_quic_down_age :: nat
  ss_quic_down_init :: bool
  ss_quic_eff :: nat
  ss_eff_score :: nat

definition score_snapshot :: "nat \<Rightarrow> Upstream \<Rightarrow> UpstreamScoreSnapshot" where
  "score_snapshot now up =
     (let quic_up_last = up_quic_uplink_last_update_secs up; quic_down_last = up_quic_downlink_last_update_secs up
      in \<lparr>ss_id = up_id up, ss_tcp_raw = up_tcp_score up, ss_tcp_init = up_tcp_score_initialized up,
          ss_quic_up_raw = up_quic_uplink_score up,
          ss_quic_up_age = (if 0 < quic_up_last then now - quic_up_last else 0), ss_quic_up_init = (0 < quic_up_last),
          ss_quic_down_raw = up_quic_downlink_score up,
          ss_quic_down_age = (if 0 < quic_down_last then now - quic_down_last else 0), ss_quic_down_init = (0 < quic_down_last),
          ss_quic_eff = quic_score_effective_at up now, ss_eff_score = effective_score_at up now\<rparr>)"

text \<open>\<open>sort_by_key\<close> with \<open>Reverse\<close> is a stable sort by the negated score.\<close>

definition score_report :: "nat \<Rightarrow> UpstreamSet \<Rightarrow> UpstreamScoreSnapshot list" where
  "score_report now us = sort_key (\<lambda>s. - int (ss_eff_score s)) (List.map (score_snapshot now) (us_all_items us))"

definition printer_wake ::
  "bool \<times> nat \<Rightarrow> UpstreamScoreSnapshot list list \<times> UpstreamSet \<Rightarrow> UpstreamScoreSnapshot list list \<times> UpstreamSet" where
  "printer_wake tick s =
     (case (tick, s) of ((debug_enabled, now), (printed, us)) \<Rightarrow>
        (if debug_enabled then printed @ [score_report now us] else printed, us))"

definition run_score_debug_printer ::
  "nat \<Rightarrow> (bool \<times> nat, UpstreamSet) TaskEvent list \<Rightarrow> UpstreamSet \<Rightarrow> bool \<times> UpstreamScoreSnapshot list list \<times> UpstreamSet" where
  "run_score_debug_printer interval_secs es us =
     (if interval_secs = 0 then (True, [], us) else task_loop printer_wake es ([], us))"

section \<open>Lemmas\<close>

text \<open>A step of the upstream at a position, in range or not.\<close>

lemma us_live_update:
  assumes "us_live us" "\<And>up. upstream_step up (f up)"
  shows "us_live (us_update k f us)"
proof (cases "k < length (us_all_items us)")
  case True
  from us_step.upstream [OF this assms(2) [of "us_up us k"]] have "us_step us (us_update k f us)" by (simp add: us_update_def)
  then show ?thesis using us_live_reachable [OF assms(1) us_reachable.step [OF us_reachable.start]] by blast
next
  case False
  then have "us_update k f us = us" by (cases us) (simp add: us_update_def list_update_beyond)
  with assms(1) show ?thesis by simp
qed

text \<open>A step of every upstream in turn.\<close>

lemma us_reachable_prefix:
  assumes "length ups = length (us_all_items us)" "\<And>k. k < length ups \<Longrightarrow> upstream_step (us_up us k) (ups ! k)" "n \<le> length ups"
  shows "us_reachable us (us\<lparr>us_all_items := take n ups @ drop n (us_all_items us)\<rparr>)"
  using assms(3)
proof (induction n)
  case 0
  then show ?case by (simp add: us_reachable.start)
next
  case (Suc n)
  let ?us = "us\<lparr>us_all_items := take n ups @ drop n (us_all_items us)\<rparr>"
  have nth: "us_up ?us n = us_up us n" using Suc.prems assms(1) by (simp add: nth_append)
  have "us_step ?us (us_update n (\<lambda>_. ups ! n) ?us)"
    using assms(1,2) Suc.prems nth by (intro us_step.upstream) simp_all
  moreover have "drop n (us_all_items us) = us_up us n # drop (Suc n) (us_all_items us)"
    using Suc.prems assms(1) by (metis Cons_nth_drop_Suc Suc_le_lessD)
  then have "us_update n (\<lambda>_. ups ! n) ?us = us\<lparr>us_all_items := take (Suc n) ups @ drop (Suc n) (us_all_items us)\<rparr>"
    using Suc.prems by (simp add: us_update_def list_update_append take_Suc_conv_app_nth)
  ultimately show ?case using us_reachable.step [OF Suc.IH] Suc.prems by simp
qed

interpretation score_loop: shared_task "score_wake k relative_mode" us_live
  by unfold_locales (simp add: score_wake_def us_live_update upstream_step.tick split: prod.split)

interpretation health_loop: shared_task "health_wake fail_threshold" us_live
  by unfold_locales
    (simp add: health_wake_def us_live_update upstream_step.health split: HealthWake.split option.split)

lemma relative_wake_live: "us_live us \<Longrightarrow> us_live (snd (relative_wake stale_secs now (emas, us)))"
proof -
  assume live: "us_live us"
  obtain emas' ups where t: "relative_tick stale_secs now emas (us_all_items us) = (emas', ups)" by (meson surj_pair)
  have "us_reachable us (us\<lparr>us_all_items := take (length ups) ups @ drop (length ups) (us_all_items us)\<rparr>)"
    using t by (intro us_reachable_prefix) (auto simp: relative_tick_def Let_def intro: upstream_step.relative)
  then have "us_reachable us (us\<lparr>us_all_items := ups\<rparr>)"
    using t by (auto simp: relative_tick_def Let_def)
  with live t show ?thesis using us_live_reachable by (simp add: relative_wake_def)
qed

interpretation relative_loop: shared_task "relative_wake stale_secs" us_live
  by unfold_locales (rule relative_wake_live)

lemma stats_report_live: "us_live us \<Longrightarrow> us_live (stats_report exp_f64 c rep now us)"
  by (simp add: stats_report_def us_live_update upstream_step.report split: option.split)

interpretation stats_loop: shared_task "stats_wake exp_f64 from_slice" "\<lambda>s. us_live (snd s)"
  by unfold_locales (auto simp: stats_wake_def stats_report_live split: StatsWake.split option.split)

lemma printer_wake_simp [simp]:
  "printer_wake (debug_enabled, now) (printed, us) = (if debug_enabled then printed @ [score_report now us] else printed, us)"
  by (simp add: printer_wake_def)

interpretation printer_loop: shared_task printer_wake us_live
  by unfold_locales auto

lemma printer_run:
  assumes "\<And>g. TaskOthers g \<notin> set es"
  shows "snd (snd (task_loop printer_wake es (printed, us))) = us \<and>
    set (fst (snd (task_loop printer_wake es (printed, us)))) \<subseteq>
      set printed \<union> {score_report now us | now. TaskWake (True, now) \<in> set es}"
  using assms
proof (induction es arbitrary: printed)
  case (Cons e es)
  then have IH: "snd (snd (task_loop printer_wake es (p, us))) = us \<and>
      set (fst (snd (task_loop printer_wake es (p, us)))) \<subseteq> set p \<union> {score_report now us | now. TaskWake (True, now) \<in> set es}" for p
    by simp
  show ?case
  proof (cases e)
    case (TaskWake x)
    obtain dbg now where x: "x = (dbg, now)" by fastforce
    show ?thesis
      using IH [of "printed @ [score_report now us]"] IH [of printed] by (cases dbg) (auto simp: TaskWake x)
  qed (use Cons.prems in auto)
qed simp

lemma score_report_desc: "sorted_wrt (\<lambda>a b. ss_eff_score b \<le> ss_eff_score a) (score_report now us)"
proof -
  have "sorted (List.map (\<lambda>s. - int (ss_eff_score s)) (score_report now us))" by (simp add: score_report_def)
  then show ?thesis by (simp add: sorted_wrt_map)
qed

section \<open>Rounds of the health check\<close>

text \<open>The events of a round that is not interrupted: the tick, then what each upstream's check finds and when.\<close>

definition round_events :: "(bool \<times> nat) list \<Rightarrow> (HealthWake, UpstreamSet) TaskEvent list" where
  "round_events found = TaskWake HealthTick # List.map (\<lambda>(alive, now). TaskWake (HealthFound alive now)) found"

lemma task_loop_append:
  "TaskCancel \<notin> set es \<Longrightarrow> task_loop wake (es @ es') s = task_loop wake es' (snd (task_loop wake es s))"
proof (induction es arbitrary: s)
  case (Cons e es)
  then show ?case by (cases e) auto
qed simp

lemma health_found:
  assumes "found \<noteq> []" "pos + length found = length (us_all_items us)"
  shows "task_loop (health_wake th) (List.map (\<lambda>(alive, now). TaskWake (HealthFound alive now)) found) (Some pos, us) =
    (False, None, us\<lparr>us_all_items := take pos (us_all_items us) @
       map2 (\<lambda>(alive, now). health_check_step th alive now) found (drop pos (us_all_items us))\<rparr>)"
  using assms
proof (induction found arbitrary: pos us)
  case (Cons f found)
  obtain alive now where f: "f = (alive, now)" by fastforce
  have pos: "pos < length (us_all_items us)" using Cons.prems(2) by simp
  let ?us = "us_update pos (health_check_step th alive now) us"
  have d: "drop pos (us_all_items us) = us_up us pos # drop (Suc pos) (us_all_items us)"
    using pos by (simp add: Cons_nth_drop_Suc)
  have t: "take (Suc pos) (us_all_items ?us) = take pos (us_all_items us) @ [health_check_step th alive now (us_up us pos)]"
    "drop (Suc pos) (us_all_items ?us) = drop (Suc pos) (us_all_items us)"
    using pos by (simp_all add: us_update_def take_Suc_conv_app_nth)
  show ?case
  proof (cases "found = []")
    case True
    then have "Suc pos = length (us_all_items us)" using Cons.prems(2) by simp
    then have "us_all_items ?us = take pos (us_all_items us) @ [health_check_step th alive now (us_up us pos)]"
      using t(1) by (simp add: us_update_def)
    then show ?thesis using True \<open>Suc pos = _\<close> d by (simp add: f health_wake_def us_update_def)
  next
    case False
    then have "0 < length found" by (rule length_greater_0_conv [THEN iffD2])
    with Cons.prems(2) have "Suc pos < length (us_all_items us)" unfolding list.size by linarith
    moreover have "us_all_items ?us = (us_all_items us)[pos := health_check_step th alive now (us_up us pos)]" by (simp add: us_update_def)
    ultimately show ?thesis
      using Cons.IH [OF False, of "Suc pos" ?us] Cons.prems(2) d t by (simp add: f health_wake_def) (simp add: us_update_def)
  qed
qed simp

lemma health_one_round:
  assumes "length found = length (us_all_items us)"
  shows "task_loop (health_wake th) (round_events found) (None, us) =
    (False, None, us\<lparr>us_all_items := map2 (\<lambda>(alive, now). health_check_step th alive now) found (us_all_items us)\<rparr>)"
proof (cases "found = []")
  case False
  with assms health_found [OF False, of 0 us th] show ?thesis by (auto simp: round_events_def health_wake_def)
qed (use assms in \<open>cases us; auto simp: round_events_def health_wake_def\<close>)

lemma health_rounds:
  assumes "\<forall>found \<in> set rounds. length found = length (us_all_items us)"
  shows "task_loop (health_wake th) (concat (List.map round_events rounds)) (None, us) =
    (False, None, us\<lparr>us_all_items :=
       List.map (\<lambda>k. health_run th (List.map (\<lambda>found. found ! k) rounds) (us_up us k)) [0..<length (us_all_items us)]\<rparr>)"
  using assms
proof (induction rounds arbitrary: us)
  case Nil
  then show ?case by (cases us) (simp add: health_run_def map_nth)
next
  case (Cons found rounds)
  let ?step = "\<lambda>(alive, now). health_check_step th alive now"
  let ?us = "us\<lparr>us_all_items := map2 ?step found (us_all_items us)\<rparr>"
  have len: "length found = length (us_all_items us)" "length (us_all_items ?us) = length (us_all_items us)" using Cons.prems by auto
  have "TaskCancel \<notin> set (round_events found)" by (auto simp: round_events_def)
  then have "task_loop (health_wake th) (concat (List.map round_events (found # rounds))) (None, us) =
      task_loop (health_wake th) (concat (List.map round_events rounds)) (None, ?us)"
    by (simp add: task_loop_append health_one_round [OF len(1)])
  also have "\<dots> = (False, None, ?us\<lparr>us_all_items :=
      List.map (\<lambda>k. health_run th (List.map (\<lambda>found. found ! k) rounds) (us_up ?us k)) [0..<length (us_all_items us)]\<rparr>)"
    using Cons.IH [of ?us] Cons.prems len(2) by simp
  also have "List.map (\<lambda>k. health_run th (List.map (\<lambda>found. found ! k) rounds) (us_up ?us k)) [0..<length (us_all_items us)] =
      List.map (\<lambda>k. health_run th (List.map (\<lambda>found. found ! k) (found # rounds)) (us_up us k)) [0..<length (us_all_items us)]"
    using len by (intro map_cong refl) (simp add: health_run_def)
  finally show ?case by simp
qed

section \<open>Properties\<close>


text \<open>
  C37: The health checks of the upstreams are independent machines. Over any number of complete rounds, the
  task does to each upstream what the machine of the health check does on the results for that upstream alone,
  and to nothing else; so after fewer than four billion rounds the failure counter of an upstream is the number
  of its failures since its last success, and one more failed round penalises it exactly when that number
  reaches the threshold.
\<close>

theorem health_task_independent:
  assumes "\<forall>found \<in> set rounds. length found = length (us_all_items us)"
    and "k < length (us_all_items us)" "up_health_failures (us_up us k) = 0" "length rounds < 2 ^ 32 - 1"
    and "run_health_check_task c (concat (List.map round_events rounds)) us = (ended, pos, us')"
    and "obs = List.map (\<lambda>found. found ! k) rounds"
  shows "\<not> ended \<and> pos = None \<and> us' = us\<lparr>us_all_items := us_all_items us'\<rparr> \<and>
    length (us_all_items us') = length (us_all_items us) \<and>
    us_up us' k = health_run (c_health_check_fail_threshold c) obs (us_up us k) \<and>
    up_health_failures (us_up us' k) = trailing_failures obs \<and>
    (length found = length (us_all_items us) \<and> found ! k = (False, now) \<longrightarrow>
       us_up (snd (snd (run_health_check_task c (concat (List.map round_events (rounds @ [found]))) us))) k =
         (let up = (us_up us' k)\<lparr>up_health_failures := trailing_failures obs + 1\<rparr>
          in if trailing_failures obs + 1 = c_health_check_fail_threshold c then penalize now up else up))"
proof -
  note run = health_rounds [OF assms(1), of "c_health_check_fail_threshold c", folded run_health_check_task_def]
  have us': "ended = False" "pos = None" "us' = us\<lparr>us_all_items :=
      List.map (\<lambda>k. health_run (c_health_check_fail_threshold c) (List.map (\<lambda>found. found ! k) rounds) (us_up us k)) [0..<length (us_all_items us)]\<rparr>"
    using assms(5) run by auto
  then have k: "us_up us' k = health_run (c_health_check_fail_threshold c) obs (us_up us k)"
    using assms(2) by (simp add: assms(6))
  have "length obs < 2 ^ 32 - 1" using assms(4) by (simp add: assms(6))
  note machine = health_check_machine [OF this assms(3), of "c_health_check_fail_threshold c" now]
  have "us_up (snd (snd (run_health_check_task c (concat (List.map round_events (rounds @ [found]))) us))) k =
      health_check_step (c_health_check_fail_threshold c) False now (us_up us' k)"
    if "length found = length (us_all_items us)" "found ! k = (False, now)"
    using health_rounds [of "rounds @ [found]" us "c_health_check_fail_threshold c"] assms(1,2) that
    unfolding k by (simp add: run_health_check_task_def health_run_def assms(6))
  with us' k machine show ?thesis by simp
qed

text \<open>
  The score printer reports every upstream once, the best first. A report is a permutation of the
  snapshots of all upstreams by descending effective score in which upstreams with equal scores keep their
  configured order; the printer changes nothing, reports only while debugging is on, and with an interval of
  zero never starts.
\<close>

theorem score_report_sorted:
  assumes "run_score_debug_printer interval es us = (ended, printed, us')" and "\<And>g. TaskOthers g \<notin> set es"
  shows "us' = us \<and> (interval = 0 \<longrightarrow> printed = []) \<and>
    (\<forall>rep \<in> set printed. \<exists>now.
       TaskWake (True, now) \<in> set es \<and> mset rep = mset (List.map (score_snapshot now) (us_all_items us)) \<and>
       sorted_wrt (\<lambda>a b. ss_eff_score b \<le> ss_eff_score a) rep \<and>
       (\<forall>v. filter (\<lambda>s. ss_eff_score s = v) rep =
            filter (\<lambda>s. ss_eff_score s = v) (List.map (score_snapshot now) (us_all_items us))))"
proof -
  have "filter (\<lambda>s. ss_eff_score s = v) (score_report now us) =
      filter (\<lambda>s. ss_eff_score s = v) (List.map (score_snapshot now) (us_all_items us))" for v now
    using sort_key_stable [of "\<lambda>s. - int (ss_eff_score s)" "- int v"] by (simp add: score_report_def)
  moreover have "mset (score_report now us) = mset (List.map (score_snapshot now) (us_all_items us))" for now
    by (simp add: score_report_def)
  moreover have "us' = us" "set printed \<subseteq> {score_report now us | now. TaskWake (True, now) \<in> set es}"
      "interval = 0 \<longrightarrow> printed = []"
    using printer_run [OF assms(2), of "[]" us] assms(1) by (auto simp: run_score_debug_printer_def split: if_splits)
  ultimately show ?thesis using score_report_desc by blast
qed

section \<open>Witnesses\<close>


theorem health_task_independent_witness:
  "up_health_failures (us_up (snd (snd (run_health_check_task (default_config [])
     (concat (List.map round_events [[(True, 1), (False, 2)], [(True, 3), (False, 4)]])) (two_upstreams 0)))) 1) = 2"
proof -
  let ?rounds = "[[(True, 1), (False, 2)], [(True, 3), (False, 4)]] :: (bool \<times> nat) list list"
  obtain e p us where r: "run_health_check_task (default_config []) (concat (List.map round_events ?rounds)) (two_upstreams 0) = (e, p, us)"
    by (metis prod_cases3)
  have "up_health_failures (us_up (two_upstreams 0) 1) = 0"
    by (simp add: two_upstreams_def upstream_set_new_def upstream_new_def set_quic_stale_secs_def set_quic_weight_def)
  then have "up_health_failures (us_up us 1) = trailing_failures (List.map (\<lambda>found. found ! 1) ?rounds)"
    using health_task_independent [OF _ _ _ _ r refl, of 1 "[]" 0] by auto
  then show ?thesis unfolding r by (simp add: trailing_failures_def)
qed

theorem score_report_sorted_witness:
  "\<exists>ended rep us. run_score_debug_printer 60 [TaskWake (True, 9), TaskCancel] (two_upstreams 0) = (ended, [rep], us) \<and>
     mset rep = mset (List.map (score_snapshot 9) (us_all_items (two_upstreams 0))) \<and>
     sorted_wrt (\<lambda>a b. ss_eff_score b \<le> ss_eff_score a) rep"
proof -
  have r: "run_score_debug_printer 60 [TaskWake (True, 9), TaskCancel] (two_upstreams 0) =
      (True, [score_report 9 (two_upstreams 0)], two_upstreams 0)"
    by (simp add: run_score_debug_printer_def)
  from score_report_sorted [OF r] r show ?thesis by auto
qed

end
