(* ===== verification/Tcp_Info.thy ===== *)
theory Tcp_Info
  imports Upstream_Tasks
begin

text \<open>
  The statistics of a connection that the kernel keeps (\<open>TcpInfoExt\<close> and \<open>get_tcp_info_ext_raw\<close> in
  \<open>util.rs\<close>), from which the scores by throughput are computed. The struct has the layout of C, the kernel
  writes into a zeroed struct as many bytes as it has, at most as many as are asked for, and the machine's
  byte order is an argument.
\<close>

section \<open>The struct\<close>

record TcpInfoExt =
  tcpi_state :: u8
  tcpi_ca_state :: u8
  tcpi_retransmits :: u8
  tcpi_probes :: u8
  tcpi_backoff :: u8
  tcpi_options :: u8
  tcpi_snd_rcv_wscale :: u8
  tcpi_delivery_rate_app_limited :: u8
  tcpi_rto :: u32
  tcpi_ato :: u32
  tcpi_snd_mss :: u32
  tcpi_rcv_mss :: u32
  tcpi_unacked :: u32
  tcpi_sacked :: u32
  tcpi_lost :: u32
  tcpi_retrans :: u32
  tcpi_fackets :: u32
  tcpi_last_data_sent :: u32
  tcpi_last_ack_sent :: u32
  tcpi_last_data_recv :: u32
  tcpi_last_ack_recv :: u32
  tcpi_pmtu :: u32
  tcpi_rcv_ssthresh :: u32
  tcpi_rtt :: u32
  tcpi_rttvar :: u32
  tcpi_snd_ssthresh :: u32
  tcpi_snd_cwnd :: u32
  tcpi_advmss :: u32
  tcpi_reordering :: u32
  tcpi_rcv_rtt :: u32
  tcpi_rcv_space :: u32
  tcpi_total_retrans :: u32
  tcpi_pacing_rate :: u64
  tcpi_max_pacing_rate :: u64
  tcpi_bytes_acked :: u64
  tcpi_bytes_received :: u64

text \<open>The widths of the fields in bytes, and where a field begins: every field is aligned, so there is no padding.\<close>

definition tcp_info_widths :: "nat list" where
  "tcp_info_widths = replicate 8 1 @ replicate 24 4 @ replicate 4 8"

definition tcp_info_offset :: "nat \<Rightarrow> nat" where
  "tcp_info_offset i = sum_list (take i tcp_info_widths)"

definition size_of_tcp_info :: nat where
  "size_of_tcp_info = sum_list tcp_info_widths"

fun le_nat :: "bytes \<Rightarrow> nat" where
  "le_nat [] = 0"
| "le_nat (b # bs) = unat b + 256 * le_nat bs"

definition ne_nat :: "bool \<Rightarrow> bytes \<Rightarrow> nat" where
  "ne_nat be bs = le_nat (if be then rev bs else bs)"

definition field_word :: "bool \<Rightarrow> bytes \<Rightarrow> nat \<Rightarrow> 'a::len word" where
  "field_word be buf i = word_of_nat (ne_nat be (take (tcp_info_widths ! i) (drop (tcp_info_offset i) buf)))"

definition read_tcp_info :: "bool \<Rightarrow> bytes \<Rightarrow> TcpInfoExt" where
  "read_tcp_info be buf =
     \<lparr>tcpi_state = field_word be buf 0,
       tcpi_ca_state = field_word be buf 1,
       tcpi_retransmits = field_word be buf 2,
       tcpi_probes = field_word be buf 3,
       tcpi_backoff = field_word be buf 4,
       tcpi_options = field_word be buf 5,
       tcpi_snd_rcv_wscale = field_word be buf 6,
       tcpi_delivery_rate_app_limited = field_word be buf 7,
       tcpi_rto = field_word be buf 8,
       tcpi_ato = field_word be buf 9,
       tcpi_snd_mss = field_word be buf 10,
       tcpi_rcv_mss = field_word be buf 11,
       tcpi_unacked = field_word be buf 12,
       tcpi_sacked = field_word be buf 13,
       tcpi_lost = field_word be buf 14,
       tcpi_retrans = field_word be buf 15,
       tcpi_fackets = field_word be buf 16,
       tcpi_last_data_sent = field_word be buf 17,
       tcpi_last_ack_sent = field_word be buf 18,
       tcpi_last_data_recv = field_word be buf 19,
       tcpi_last_ack_recv = field_word be buf 20,
       tcpi_pmtu = field_word be buf 21,
       tcpi_rcv_ssthresh = field_word be buf 22,
       tcpi_rtt = field_word be buf 23,
       tcpi_rttvar = field_word be buf 24,
       tcpi_snd_ssthresh = field_word be buf 25,
       tcpi_snd_cwnd = field_word be buf 26,
       tcpi_advmss = field_word be buf 27,
       tcpi_reordering = field_word be buf 28,
       tcpi_rcv_rtt = field_word be buf 29,
       tcpi_rcv_space = field_word be buf 30,
       tcpi_total_retrans = field_word be buf 31,
       tcpi_pacing_rate = field_word be buf 32,
       tcpi_max_pacing_rate = field_word be buf 33,
       tcpi_bytes_acked = field_word be buf 34,
       tcpi_bytes_received = field_word be buf 35\<rparr>"

text \<open>
  \<open>getsockopt fd len\<close> is what the call writes and the length it reports, or nothing when it fails.
\<close>

definition get_tcp_info_ext_raw ::
  "bool \<Rightarrow> (nat \<Rightarrow> nat \<Rightarrow> (bytes \<times> nat) option) \<Rightarrow> nat \<Rightarrow> TcpInfoExt option" where
  "get_tcp_info_ext_raw be getsockopt fd =
     (case getsockopt fd size_of_tcp_info of
        None \<Rightarrow> None
      | Some (written, len) \<Rightarrow>
          if len < size_of_tcp_info then None
          else Some (read_tcp_info be (written @ replicate (size_of_tcp_info - length written) 0)))"

text \<open>What \<open>run_score_task\<close> takes from it.\<close>

definition tcp_info_bytes :: "bool \<Rightarrow> (nat \<Rightarrow> nat \<Rightarrow> (bytes \<times> nat) option) \<Rightarrow> nat \<Rightarrow> (nat \<times> nat) option" where
  "tcp_info_bytes be getsockopt fd =
     map_option (\<lambda>info. (unat (tcpi_bytes_received info), unat (tcpi_bytes_acked info))) (get_tcp_info_ext_raw be getsockopt fd)"

section \<open>The kernel's side\<close>

fun le_bytes :: "nat \<Rightarrow> nat \<Rightarrow> bytes" where
  "le_bytes 0 v = []"
| "le_bytes (Suc w) v = word_of_nat (v mod 256) # le_bytes w (v div 256)"

definition ne_bytes :: "bool \<Rightarrow> nat \<Rightarrow> nat \<Rightarrow> bytes" where
  "ne_bytes be w v = (if be then rev (le_bytes w v) else le_bytes w v)"

definition kernel_tcp_info :: "bool \<Rightarrow> nat list \<Rightarrow> bytes" where
  "kernel_tcp_info be vs = concat (map2 (ne_bytes be) tcp_info_widths vs)"

text \<open>The kernel copies as much of its own struct as is asked for, and reports how much.\<close>

definition kernel_getsockopt :: "(nat \<Rightarrow> bytes option) \<Rightarrow> nat \<Rightarrow> nat \<Rightarrow> (bytes \<times> nat) option" where
  "kernel_getsockopt struct_of fd len = map_option (\<lambda>s. (take len s, min len (length s))) (struct_of fd)"

definition tcp_info_values :: "TcpInfoExt \<Rightarrow> nat list" where
  "tcp_info_values info =
    [unat (tcpi_state info),
     unat (tcpi_ca_state info),
     unat (tcpi_retransmits info),
     unat (tcpi_probes info),
     unat (tcpi_backoff info),
     unat (tcpi_options info),
     unat (tcpi_snd_rcv_wscale info),
     unat (tcpi_delivery_rate_app_limited info),
     unat (tcpi_rto info),
     unat (tcpi_ato info),
     unat (tcpi_snd_mss info),
     unat (tcpi_rcv_mss info),
     unat (tcpi_unacked info),
     unat (tcpi_sacked info),
     unat (tcpi_lost info),
     unat (tcpi_retrans info),
     unat (tcpi_fackets info),
     unat (tcpi_last_data_sent info),
     unat (tcpi_last_ack_sent info),
     unat (tcpi_last_data_recv info),
     unat (tcpi_last_ack_recv info),
     unat (tcpi_pmtu info),
     unat (tcpi_rcv_ssthresh info),
     unat (tcpi_rtt info),
     unat (tcpi_rttvar info),
     unat (tcpi_snd_ssthresh info),
     unat (tcpi_snd_cwnd info),
     unat (tcpi_advmss info),
     unat (tcpi_reordering info),
     unat (tcpi_rcv_rtt info),
     unat (tcpi_rcv_space info),
     unat (tcpi_total_retrans info),
     unat (tcpi_pacing_rate info),
     unat (tcpi_max_pacing_rate info),
     unat (tcpi_bytes_acked info),
     unat (tcpi_bytes_received info)]"

section \<open>Lemmas\<close>

lemma length_le_bytes [simp]: "length (le_bytes w v) = w"
  by (induction w arbitrary: v) simp_all

lemma length_ne_bytes [simp]: "length (ne_bytes be w v) = w"
  by (simp add: ne_bytes_def)

lemma le_nat_le_bytes: "v < 256 ^ w \<Longrightarrow> le_nat (le_bytes w v) = v"
proof (induction w arbitrary: v)
  case (Suc w)
  then have "v div 256 < 256 ^ w" by (simp add: less_mult_imp_div_less mult.commute)
  with Suc.IH show ?case by (simp add: unat_of_nat take_bit_nat_def)
qed simp

lemma ne_nat_ne_bytes: "v < 256 ^ w \<Longrightarrow> ne_nat be (ne_bytes be w v) = v"
  by (simp add: ne_nat_def ne_bytes_def le_nat_le_bytes)

lemma take_drop_concat:
  "i < length xss \<Longrightarrow> take (length (xss ! i)) (drop (sum_list (List.map length (take i xss))) (concat xss @ ys)) = xss ! i"
proof (induction xss arbitrary: i)
  case (Cons xs xss)
  then show ?case by (cases i) simp_all
qed simp

lemma tcp_info_lengths:
  assumes "length vs = 36"
  shows "List.map length (map2 (ne_bytes be) tcp_info_widths vs) = tcp_info_widths"
    and "length (kernel_tcp_info be vs) = size_of_tcp_info"
proof -
  have "List.map length (map2 (ne_bytes be) ws vs) = ws" if "length ws = length vs" for ws vs
    using that by (induction ws vs rule: list_induct2) simp_all
  then show *: "List.map length (map2 (ne_bytes be) tcp_info_widths vs) = tcp_info_widths"
    using assms by (simp add: tcp_info_widths_def)
  show "length (kernel_tcp_info be vs) = size_of_tcp_info"
    unfolding kernel_tcp_info_def length_concat * size_of_tcp_info_def ..
qed

lemma field_word_kernel:
  assumes "length vs = 36" "i < 36" "vs ! i < 256 ^ (tcp_info_widths ! i)"
  shows "field_word be (kernel_tcp_info be vs @ rest) i = word_of_nat (vs ! i)"
proof -
  let ?xss = "map2 (ne_bytes be) tcp_info_widths vs"
  note lens = tcp_info_lengths(1) [OF assms(1), of be]
  have n: "length tcp_info_widths = 36" by (simp add: tcp_info_widths_def)
  have i: "i < length ?xss" "?xss ! i = ne_bytes be (tcp_info_widths ! i) (vs ! i)" using assms n by simp_all
  have "List.map length (take i ?xss) = take i tcp_info_widths" by (metis lens take_map)
  then have "take (tcp_info_widths ! i) (drop (tcp_info_offset i) (kernel_tcp_info be vs @ rest)) = ?xss ! i"
    using take_drop_concat [OF i(1), of rest] i(2) by (simp add: tcp_info_offset_def kernel_tcp_info_def)
  then show ?thesis using assms(3) i(2) by (simp add: field_word_def ne_nat_ne_bytes)
qed

text \<open>Values that fit into the fields.\<close>

definition tcp_info_fits :: "nat list \<Rightarrow> bool" where
  "tcp_info_fits vs \<longleftrightarrow> length vs = 36 \<and> (\<forall>i < 36. vs ! i < 256 ^ (tcp_info_widths ! i))"

lemma tcp_info_width:
  "i < 8 \<Longrightarrow> tcp_info_widths ! i = 1" "8 \<le> i \<Longrightarrow> i < 32 \<Longrightarrow> tcp_info_widths ! i = 4"
  "32 \<le> i \<Longrightarrow> i < 36 \<Longrightarrow> tcp_info_widths ! i = 8"
  by (simp_all add: tcp_info_widths_def nth_append)

lemma tcp_info_field:
  assumes "tcp_info_fits vs"
  shows "i < 8 \<Longrightarrow> unat (field_word be (kernel_tcp_info be vs @ rest) i :: u8) = vs ! i"
    and "8 \<le> i \<Longrightarrow> i < 32 \<Longrightarrow> unat (field_word be (kernel_tcp_info be vs @ rest) i :: u32) = vs ! i"
    and "32 \<le> i \<Longrightarrow> i < 36 \<Longrightarrow> unat (field_word be (kernel_tcp_info be vs @ rest) i :: u64) = vs ! i"
proof -
  have fits: "length vs = 36" "\<And>i. i < 36 \<Longrightarrow> vs ! i < 256 ^ (tcp_info_widths ! i)" using assms by (auto simp: tcp_info_fits_def)
  note w = field_word_kernel [OF fits(1) _ fits(2), of i be rest] and bounds = fits(2) [of i]
  show "unat (field_word be (kernel_tcp_info be vs @ rest) i :: u8) = vs ! i" if "i < 8"
    using that bounds by (simp add: w tcp_info_width unat_of_nat take_bit_nat_def)
  show "unat (field_word be (kernel_tcp_info be vs @ rest) i :: u32) = vs ! i" if "8 \<le> i" "i < 32"
    using that bounds by (simp add: w tcp_info_width unat_of_nat take_bit_nat_def)
  show "unat (field_word be (kernel_tcp_info be vs @ rest) i :: u64) = vs ! i" if "32 \<le> i" "i < 36"
    using that bounds by (simp add: w tcp_info_width unat_of_nat take_bit_nat_def)
qed

lemma upt_36: "[0..<36] = [0, 1, 2, 3, 4, 5, 6, 7, 8, 9, 10, 11, 12, 13, 14, 15, 16, 17, 18, 19, 20, 21, 22, 23, 24, 25, 26, 27, 28, 29, 30, 31, 32, 33, 34, 35]"
  by code_simp

lemma tcp_info_values_read:
  assumes "tcp_info_fits vs"
  shows "tcp_info_values (read_tcp_info be (kernel_tcp_info be vs @ rest)) = vs"
proof -
  have "length vs = 36" using assms by (simp add: tcp_info_fits_def)
  then have "vs = List.map ((!) vs) [0, 1, 2, 3, 4, 5, 6, 7, 8, 9, 10, 11, 12, 13, 14, 15, 16, 17, 18, 19, 20, 21, 22, 23, 24, 25, 26, 27, 28, 29, 30, 31, 32, 33, 34, 35]"
    using map_nth [of vs] upt_36 by simp
  moreover have "tcp_info_values (read_tcp_info be (kernel_tcp_info be vs @ rest)) = List.map ((!) vs) [0, 1, 2, 3, 4, 5, 6, 7, 8, 9, 10, 11, 12, 13, 14, 15, 16, 17, 18, 19, 20, 21, 22, 23, 24, 25, 26, 27, 28, 29, 30, 31, 32, 33, 34, 35]"
    by (simp add: tcp_info_values_def read_tcp_info_def tcp_info_field [OF assms])
  ultimately show ?thesis by simp
qed

section \<open>Properties\<close>


section \<open>Witnesses\<close>


end
