(* ===== verification/Main_Program.thy ===== *)
theory Main_Program
  imports Lifecycle
begin

text \<open>
  The main function (\<open>main.rs\<close>): start-up, also with \<open>--check\<close>, the tasks that outlive generations, the
  signals SIGHUP and SIGUSR1, and the exit. The process of \<open>Lifecycle\<close> is a part of its state.
\<close>

section \<open>Start, signals and exit\<close>

record ('n4, 'n6) Program =
  mp_process :: "('n4, 'n6) Process"
  mp_stats_guard :: TaskGuard
  mp_sighup_guard :: TaskGuard
  mp_usr1_guard :: TaskGuard

datatype ('n4, 'n6) Started = CheckedOnly Config | Serving "('n4, 'n6) Program"

definition main_start ::
  "LifeEnv \<Rightarrow> BuildEnv \<Rightarrow> ('n4, 'n6) net_ops \<Rightarrow> (rstr \<Rightarrow> Config option) \<Rightarrow> (Config \<Rightarrow> bool) \<Rightarrow> bool \<Rightarrow> rstr option \<Rightarrow>
   (LifeError, ('n4, 'n6) Started) rres" where
  "main_start env benv N from_toml filter_ok check config_text =
     bindR (read_config env benv N from_toml config_text) (\<lambda>c.
     if check then Inr (CheckedOnly c)
     else bindR (build_config benv N filter_ok c) (\<lambda>ab.
       case spawn_all_tasks env (generation_new ab, \<lparr>tk_running = {}, tk_next = 0\<rparr>) of
         (Inl e, _) \<Rightarrow> Inl e
       | (Inr _, gen, ts) \<Rightarrow>
           let (stats, ts) = tg_spawn task_guard_new ts;
               (sighup, ts) = tg_spawn task_guard_new ts;
               (usr1, ts) = tg_spawn task_guard_new ts
           in Inr (Serving \<lparr>mp_process = \<lparr>pr_gen = gen, pr_old = [], pr_tasks = ts\<rparr>,
                mp_stats_guard = stats, mp_sighup_guard = sighup, mp_usr1_guard = usr1\<rparr>)))"

text \<open>SIGHUP reloads; a failure is logged. SIGUSR1 rotates the mode of the current generation.\<close>

definition sighup ::
  "LifeEnv \<Rightarrow> BuildEnv \<Rightarrow> ('n4, 'n6) net_ops \<Rightarrow> (rstr \<Rightarrow> Config option) \<Rightarrow> (Config \<Rightarrow> bool) \<Rightarrow> rstr option \<Rightarrow> nat \<Rightarrow>
   ('n4, 'n6) Program \<Rightarrow> ('n4, 'n6) Program" where
  "sighup env benv N from_toml filter_ok config_text accepted m =
     m\<lparr>mp_process := snd (reload_config env benv N from_toml filter_ok config_text accepted (mp_process m))\<rparr>"

definition sigusr1 :: "('n4, 'n6) Program \<Rightarrow> ('n4, 'n6) Program" where
  "sigusr1 m =
     (let p = mp_process m; gen = pr_gen p; ab = gn_app gen
      in m\<lparr>mp_process := p\<lparr>pr_gen := gen\<lparr>gn_app := ab\<lparr>ab_state := rotate_proxy_mode (ab_state ab)\<rparr>\<rparr>\<rparr>\<rparr>)"

text \<open>After Ctrl-C: the global tasks are stopped first, then the current generation with its connections.\<close>

definition main_exit :: "LifeEnv \<Rightarrow> ('n4, 'n6) Program \<Rightarrow> bool \<times> ('n4, 'n6) Program" where
  "main_exit env m =
     (let p = mp_process m; ts = pr_tasks p;
          (_, stats, ts) = tg_shutdown (le_in_time env) (mp_stats_guard m) ts;
          (_, sighup, ts) = tg_shutdown (le_in_time env) (mp_sighup_guard m) ts;
          (_, usr1, ts) = tg_shutdown (le_in_time env) (mp_usr1_guard m) ts;
          (ok, gen, ts) = shutdown_for_exit env (pr_gen p, ts)
      in (ok, m\<lparr>mp_process := p\<lparr>pr_gen := gen, pr_tasks := ts\<rparr>,
            mp_stats_guard := stats, mp_sighup_guard := sighup, mp_usr1_guard := usr1\<rparr>))"

section \<open>Runs\<close>

inductive program :: "('n4, 'n6) net_ops \<Rightarrow> ('n4, 'n6) Program \<Rightarrow> bool" for N where
  start: "main_start env benv N from_toml filter_ok False config_text = Inr (Serving m) \<Longrightarrow> program N m"
| ended: "program N m \<Longrightarrow> program N (m\<lparr>mp_process := (mp_process m)\<lparr>pr_tasks := (pr_tasks (mp_process m))\<lparr>
     tk_running := tk_running (pr_tasks (mp_process m)) - {t}\<rparr>\<rparr>\<rparr>)"
| accept: "program N m \<Longrightarrow> spawn_in TcpHandlers (pr_gen (mp_process m), pr_tasks (mp_process m)) = (gen, ts) \<Longrightarrow>
     program N (m\<lparr>mp_process := (mp_process m)\<lparr>pr_gen := gen, pr_tasks := ts\<rparr>\<rparr>)"
| hup: "program N m \<Longrightarrow> program N (sighup env benv N from_toml filter_ok config_text accepted m)"
| usr1: "program N m \<Longrightarrow> program N (sigusr1 m)"

section \<open>Every task has an owner\<close>

definition global_tasks :: "('n4, 'n6) Program \<Rightarrow> nat set" where
  "global_tasks m = set (tg_handles (mp_stats_guard m)) \<union> set (tg_handles (mp_sighup_guard m)) \<union> set (tg_handles (mp_usr1_guard m))"

definition left_over :: "('n4, 'n6) Generation list \<Rightarrow> nat set" where
  "left_over gens = (\<Union>gen \<in> set gens. \<Union>g \<in> {TcpHandlers, RelativeScore, ScoreDebugPrinter}. handles_of gen g)"

definition owned :: "('n4, 'n6) Program \<Rightarrow> bool" where
  "owned m \<longleftrightarrow>
     (let p = mp_process m in
      gen_ok (pr_gen p) (pr_tasks p) \<and>
      tk_running (pr_tasks p) \<subseteq> global_tasks m \<union> (\<Union>g. handles_of (pr_gen p) g) \<union> left_over (pr_old p) \<and>
      (\<forall>old \<in> set (pr_old p). rt_closed (gn_udp old) \<and> rt_sessions (gn_udp old) = []))"

lemma reload_keeps_ok:
  assumes "gen_ok (pr_gen p) (pr_tasks p)" and "reload_config env benv N from_toml filter_ok config_text accepted p = (r, p')"
  shows "gen_ok (pr_gen p') (pr_tasks p')"
proof (cases r)
  case (Inl e)
  note f = reload_failed [OF assms(1) assms(2) [unfolded Inl]]
  have "tk_running (pr_tasks p') \<subseteq> {..<tk_next (pr_tasks p')}"
    using f assms(1) unfolding gen_ok_def by (metis lessThan_subset_iff subset_trans)
  with f gen_ok_tasks [OF assms(1)] show ?thesis by simp
next
  case (Inr u)
  from reload_done [OF assms(1) assms(2) [unfolded Inr]] show ?thesis by blast
qed

text \<open>What a reload leaves of the replaced generation.\<close>

lemma reload_replaced:
  assumes "gen_ok (pr_gen p) (pr_tasks p)" and "reload_config env benv N from_toml filter_ok config_text accepted p = (Inr u, p')"
  shows "\<exists>old. pr_old p' = old # pr_old p \<and> rt_closed (gn_udp old) \<and> rt_sessions (gn_udp old) = [] \<and>
    (\<forall>g. handles_of old g = (if g \<in> reload_stops then {} else handles_of (pr_gen p) g))"
proof -
  obtain old where old: "pr_old p' = old # pr_old p" "rt_closed (gn_udp old)" "rt_sessions (gn_udp old) = []"
    using reload_done [OF assms] by blast
  have "\<exists>s. old = fst (snd (shutdown_for_reload env (pr_gen p, s)))"
    using assms(2) old(1) by (auto simp: reload_config_def Let_def split: sum.splits prod.splits) (metis fst_conv snd_conv)
  then obtain s where "old = fst (snd (shutdown_for_reload env (pr_gen p, s)))" by blast
  with shutdown_for_reload_stops [of "(pr_gen p, s)" env] old show ?thesis by (simp add: stopped_def)
qed

lemma reload_stops_rest: "UNIV - reload_stops = {TcpHandlers, RelativeScore, ScoreDebugPrinter}"
proof -
  have "g \<in> reload_stops \<or> g \<in> {TcpHandlers, RelativeScore, ScoreDebugPrinter}" for g
    by (cases g) (simp_all add: reload_stops_def)
  then show ?thesis by (auto simp: reload_stops_def)
qed

lemma owned_reload:
  assumes "owned m" and r: "reload_config env benv N from_toml filter_ok config_text accepted (mp_process m) = (r, p')"
  shows "owned (m\<lparr>mp_process := p'\<rparr>)"
proof -
  let ?p = "mp_process m"
  have ok: "gen_ok (pr_gen ?p) (pr_tasks ?p)"
    and run: "tk_running (pr_tasks ?p) \<subseteq> global_tasks m \<union> (\<Union>g. handles_of (pr_gen ?p) g) \<union> left_over (pr_old ?p)"
    and udp: "\<forall>old \<in> set (pr_old ?p). rt_closed (gn_udp old) \<and> rt_sessions (gn_udp old) = []"
    using assms(1) by (auto simp: owned_def Let_def)
  have glob: "global_tasks (m\<lparr>mp_process := p'\<rparr>) = global_tasks m" by (simp add: global_tasks_def)
  show ?thesis
  proof (cases r)
    case (Inl e)
    with reload_failed [OF ok] reload_keeps_ok [OF ok r] r run udp show ?thesis by (simp add: owned_def Let_def glob)
  next
    case (Inr u)
    obtain old where old: "pr_old p' = old # pr_old ?p" "rt_closed (gn_udp old)" "rt_sessions (gn_udp old) = []"
        "\<And>g. handles_of old g = (if g \<in> reload_stops then {} else handles_of (pr_gen ?p) g)"
      using reload_replaced [OF ok r [unfolded Inr]] by blast
    have new: "tk_running (pr_tasks p') = tk_running (pr_tasks ?p) - (\<Union>g \<in> reload_stops. handles_of (pr_gen ?p) g) \<union>
        (\<Union>g. handles_of (pr_gen p') g)"
      using reload_done [OF ok r [unfolded Inr]] by blast
    have left: "left_over (pr_old p') = (\<Union>g \<in> UNIV - reload_stops. handles_of (pr_gen ?p) g) \<union> left_over (pr_old ?p)"
      unfolding left_over_def reload_stops_rest [symmetric] by (simp add: old(1,4))
    have all: "(\<Union>g. handles_of (pr_gen ?p) g) =
        (\<Union>g \<in> reload_stops. handles_of (pr_gen ?p) g) \<union> (\<Union>g \<in> UNIV - reload_stops. handles_of (pr_gen ?p) g)" by blast
    have "R - S \<union> M \<subseteq> A \<union> M \<union> (T \<union> L)" if "R \<subseteq> A \<union> (S \<union> T) \<union> L" for R S M A T L :: "nat set" using that by blast
    from this [OF run [unfolded all]]
    have "tk_running (pr_tasks p') \<subseteq> global_tasks m \<union> (\<Union>g. handles_of (pr_gen p') g) \<union> left_over (pr_old p')"
      by (simp only: new left)
    with reload_keeps_ok [OF ok r] udp old(1-3) show ?thesis by (simp add: owned_def Let_def glob)
  qed
qed

lemma owned_start:
  assumes "main_start env benv N from_toml filter_ok False config_text = Inr (Serving m)"
  shows "owned m"
proof -
  obtain c ab where c: "read_config env benv N from_toml config_text = Inr c" "build_config benv N filter_ok c = Inr ab"
    using assms by (auto simp: main_start_def)
  obtain r gen ts where r: "spawn_all_tasks env (generation_new ab, \<lparr>tk_running = {}, tk_next = 0\<rparr>) = (r, gen, ts)"
    by (metis prod_cases3)
  then have sp: "spawn_all_tasks env (generation_new ab, \<lparr>tk_running = {}, tk_next = 0\<rparr>) = (Inr (), gen, ts)"
    using assms by (cases r) (simp_all add: main_start_def c)
  have m: "pr_gen (mp_process m) = gen" "pr_old (mp_process m) = []" "tk_next (pr_tasks (mp_process m)) = tk_next ts + 3"
      "tk_running (pr_tasks (mp_process m)) = tk_running ts \<union> {tk_next ts, tk_next ts + 1, tk_next ts + 2}"
      "global_tasks m = {tk_next ts, tk_next ts + 1, tk_next ts + 2}"
    using assms by (auto simp: main_start_def c sp tg_spawn_def task_guard_new_def global_tasks_def)
  have o: "owns 0 {} UNIV (gen, ts)"
    using owns_all(1) [OF _ sp, of 0 "{}"] owns_new [of "\<lparr>tk_running = {}, tk_next = 0\<rparr>" ab] by simp
  have "tk_running ts = (\<Union>g. handles_of gen g)" using o by (simp add: owns_def)
  moreover have "gen_ok gen (pr_tasks (mp_process m))"
    using gen_ok_owns [OF o] by (rule gen_ok_tasks) (use gen_ok_owns [OF o] in \<open>auto simp: gen_ok_def m\<close>)
  ultimately show ?thesis by (auto simp: owned_def Let_def m)
qed

lemma owned_program: "program N m \<Longrightarrow> owned m"
proof (induction rule: program.induct)
  case start
  then show ?case by (rule owned_start)
next
  case (ended m t)
  then show ?case by (auto simp: owned_def Let_def gen_ok_def global_tasks_def)
next
  case (accept m gen ts)
  let ?p = "mp_process m"
  note eff = spawn_in_effect [OF accept.hyps(2)]
  have ok: "gen_ok gen ts" using gen_ok_spawn [OF _ accept.hyps(2)] accept.IH by (simp add: owned_def Let_def)
  have "handles_of (pr_gen ?p) g \<inter> tk_running (pr_tasks ?p) \<subseteq> handles_of gen g" for g unfolding eff(3) by auto
  moreover have "tk_next (pr_tasks ?p) \<in> handles_of gen TcpHandlers" unfolding eff(3) by simp
  ultimately have "tk_running ts \<subseteq> global_tasks m \<union> (\<Union>g. handles_of gen g) \<union> left_over (pr_old ?p)"
    unfolding eff(1) using accept.IH unfolding owned_def Let_def by blast
  with ok accept.IH show ?case by (simp add: owned_def Let_def global_tasks_def)
next
  case (hup m env benv from_toml filter_ok config_text accepted)
  then show ?case unfolding sighup_def by (metis owned_reload surjective_pairing)
next
  case (usr1 m)
  then show ?case by (simp add: owned_def sigusr1_def Let_def global_tasks_def gen_ok_def)
qed

section \<open>Properties\<close>

lemma tg_shutdown_running: "tk_running (snd (snd (tg_shutdown in_time g ts))) = tk_running ts - set (tg_handles g)"
  using await_handles_tasks [of in_time False True "tg_handles g" ts]
  by (cases "await_handles in_time False True (tg_handles g) ts") (simp add: tg_shutdown_def)

lemma exit_udp: "rt_closed (gn_udp (fst (snd (shutdown_for_exit env s)))) \<and> rt_sessions (gn_udp (fst (snd (shutdown_for_exit env s)))) = []"
  by (auto simp: shutdown_for_exit_def shutdown_for_reload_def shutdown_in_def udp_shutdown_def rt_clear_def rt_close_def Let_def
      split: prod.splits)



end
