(* ===== verification/Spec2Isabelle.thy ===== *)
theory Spec2Isabelle
  imports Udp_Listener Udp_Service Udp_Replies Udp_Routing Tcp_Listener Tcp_Info Main_Program
begin

text \<open>
  \<^bold>\<open>Verification of xtp-rs\<close>, a transparent proxy for TCP and UDP written in Rust.

  \<^bold>\<open>The program.\<close> A process accepts connections and datagrams that the kernel redirects to it, decides
  for each whether it goes out directly or through a SOCKS5 upstream, and relays. The decision uses
  the target address, the domain found by sniffing the first bytes (TLS, HTTP, QUIC), the configured
  rules, a country database and a geosite index; the upstream is picked from a group by scores that
  background tasks maintain. SIGHUP replaces the whole state by a new generation.

  \<^bold>\<open>Theories\<close>, bottom up, each with the Rust files it translates.

  \<^item> \<open>Xtp_Prelude\<close>: results with panics (\<open>rres\<close>, \<open>bindR\<close>), byte buffers, safety predicates; \<open>Rust_Str\<close>: the
    string functions of the standard library that the code uses; \<open>Specific_Match\<close>: a locale for tables
    scanned from the most specific entry down; \<open>Ttl_Cache\<close>: a locale for caches with a time to live;
    \<open>F64\<close>: the doubles of the scores as rounded reals.
  \<^item> \<open>Domain_Rules\<close> (\<open>util.rs\<close>, \<open>state.rs\<close>, \<open>geosite.rs\<close>): domain patterns, \<open>DomainSet\<close>, \<open>DomainRouteTable\<close>, the
    geosite index. \<open>Net_Addr\<close>, \<open>Cidr_Routes\<close> (\<open>util.rs\<close>, \<open>state.rs\<close>): addresses, networks, the client tables.
  \<^item> \<open>Config_Data\<close>, \<open>Config_Check\<close> (\<open>cli.rs\<close>): the configuration, its defaults, validation, the upstream set
    it yields, the report of unknown keys. \<open>Routing\<close> (\<open>state.rs\<close>): \<open>should_direct\<close>, the caches, the group
    lookup. \<open>App_Build\<close> (\<open>AppState::build\<close>): from a configuration to the running state.
  \<^item> \<open>Sniff_Types\<close>, \<open>Tls_Sniff\<close>, \<open>Http_Sniff\<close>, \<open>Sniff_Engine\<close>, \<open>Quic_Sniff\<close> (\<open>sniff/\<close>): the sniffers and the peek loop.
  \<^item> \<open>Upstream_Score\<close>, \<open>Pick_Stats\<close>, \<open>Upstream_Set\<close> (\<open>upstream.rs\<close>): scores, health, statistics, selection, and the
    interface \<open>upstream_picker\<close> on which the clients of the set rely. \<open>Upstream_Tasks\<close> (\<open>upstream.rs\<close>): the loops of
    the background tasks, and the rounds of the health check as independent machines. \<open>Tcp_Info\<close> (\<open>util.rs\<close>): the statistics of the kernel they read.
  \<^item> \<open>Socks5\<close> (\<open>socks5.rs\<close>): handshakes and UDP packets. \<open>Tcp_Handler\<close> (\<open>tcp.rs\<close>): route, choose and connect;
    \<open>Tcp_Listener\<close> (\<open>tcp.rs\<close>): the accept loops, port forwards and whole sessions.
    \<open>Relay\<close> (\<open>relay.rs\<close>, \<open>util.rs\<close>): the relay with its half-close timer.
  \<^item> \<open>Udp_Types\<close>, \<open>Udp_Pending\<close>, \<open>Udp_Runtime\<close>, \<open>Udp_Relay\<close> (\<open>udp/\<close>): sessions, flows held back for sniffing,
    the table of sessions under concurrent calls, creation of sessions, receive loops, packet tasks.
    \<open>Udp_Listener\<close> (\<open>udp/mod.rs\<close>): the listening loops with their reaping and the tasks they start.
    \<open>Fake_Udp\<close> (\<open>udp/fake.rs\<close>): the reply sockets under concurrent calls, expiry and closing. \<open>Udp_Service\<close>
    (\<open>udp/mod.rs\<close>): the collector and the shutdown. \<open>Udp_Routing\<close>: sessions composed with the routing of a built
    state and with the pickers. \<open>Udp_Replies\<close>: the receive loops composed with the reply sockets.
  \<^item> \<open>Lifecycle\<close> (\<open>util.rs\<close>, \<open>state.rs\<close>, \<open>main.rs\<close>): task guards, generations, reload;
    \<open>Main_Program\<close> (\<open>main.rs\<close>): start, signals and exit.
  \<^item> \<open>Sockets\<close> (\<open>socket_factory.rs\<close>, \<open>util.rs\<close>, \<open>udp/tproxy.rs\<close>): the calls that make a socket, socket addresses, \<open>recvmsg\<close>.

  \<^bold>\<open>How the code is modelled.\<close> A struct is a record with the fields' names behind a prefix, an enum a
  datatype; a function returns \<open>('e, 'a) rres\<close>, in which \<open>Inl Panic\<close> is a panic (an index out of range, an
  overflowing slice, an unwrap) and \<open>Inl (Fail e)\<close> an error value. Machine integers are words, or
  natural numbers with the wrap-around written out. Concurrent tasks are step relations whose steps
  are the critical sections of the code (\<open>rt_step\<close>, \<open>fake_step\<close>, \<open>udp_loop\<close>, \<open>udp_listener\<close>, \<open>us_step\<close>, \<open>app_step\<close>,
  \<open>process\<close>). Durations and instants are in milliseconds, except the clocks that the code keeps in seconds. Hash maps whose
  iteration order matters are association lists, and theorems hold for every order.

  \<^bold>\<open>What is a parameter.\<close> The crates and the kernel: prefix tries and address parsing (\<open>net_ops\<close>, with the
  laws \<open>trie_laws\<close>), AES and HKDF (\<open>quic_crates\<close>), the random generator (\<open>fastrand\<close>), files, the MMDB reader
  and protobuf (\<open>BuildEnv\<close>), sockets and tasks (\<open>Round\<close>, \<open>LifeEnv\<close>, event lists), tokio's copy (\<open>CopyPoll\<close>).

  \<^bold>\<open>What is shown.\<close> Safety: no input makes a sniffer, a parser of packets or a handshake panic.
  Functional: sniffers find the name of a well-formed prefix and only valid names; tables answer with
  the most specific entry; scores stay in their range and selection has the law of the weights; the
  relay ends exactly when its timer says. Composition: a built state routes as the configuration read
  as a list of rules says (\<open>App_Build\<close>), a TCP connection follows that route also when sniffing is
  skipped (\<open>Tcp_Handler\<close>) and so does a UDP session (\<open>Udp_Routing\<close>), every routed group has an upstream, and any number of connections is served to
  its end (\<open>Tcp_Listener\<close>). Concurrency: no UDP datagram is lost or duplicated between the socket and its
  end, one session and one task at work per flow, and a reload that is atomic and that the sockets of the
  running generation do not block, and an exit that stops the service; a shutdown of the UDP side within its
  timeout, a collector that removes exactly what is idle, one reply socket per address that speaks in the name
  of that address, and background tasks that keep the upstream set well-formed. Termination: the retry loop over a group ends, as do all recursive functions.
  Safety of sockets: what the proxy sends carries its mark, so it does not catch its own traffic.

  \<^bold>\<open>Bounds and fuel.\<close> Fuel is used for one loop, \<open>try_connect_loop\<close>; twice the number of upstreams plus two
  is proved to be enough. Everything else recurses on its input or has a termination proof.

  \<^bold>\<open>Not modelled.\<close> Log lines and their formatting, with the files read for them; the protobuf decoder that prost
  derives for \<open>geosite.rs\<close>; command line parsing and the start of the logger; the timers themselves, whose ticks are
  the events of the loops. A cancelled connection handler appears as a task that ends.
\<close>

end
